(* ===== verification/Prelude.thy ===== *)
theory Prelude
  imports Main "HOL-Library.Sublist"
begin

text \<open>
  Shared vocabulary of the development.  A Go \<^verbatim>\<open>string\<close> or \<^verbatim>\<open>[]byte\<close> is a list of bytes,
  which is what Isabelle's \<open>char list\<close> is; a Go slice that distinguishes nil from empty is an
  \<open>option\<close> of a list; a Go \<^verbatim>\<open>(T, error)\<close> pair is \<open>error + 'a\<close>, with \<open>Inl\<close> for a non-nil error;
  a Go \<^verbatim>\<open>time.Duration\<close> is a number of nanoseconds.  The theory holds the type abbreviations,
  the collections of simplification rules the component theories fill, and the generic lemmas
  on lists that several of them use.
\<close>

section \<open>Types\<close>

type_synonym bytes = "char list"
type_synonym duration = int

section \<open>Collections\<close>

named_theorems outcome_simps \<open>accessors of outcomes and results\<close>
named_theorems err_simps \<open>matching of errors against sentinels\<close>
named_theorems float_simps \<open>evaluation of binary64 operations on finite values\<close>
named_theorems trace_simps \<open>the recorded calls of an orchestration step\<close>
named_theorems frame_simps \<open>parts of the state an operation leaves alone\<close>

section \<open>Lists\<close>

lemma find_None_iff_list_all: "(List.find P xs = None) = list_all (\<lambda>x. \<not> P x) xs"
  by (auto simp: find_None_iff list_all_iff)

lemma find_Some_prefix:
  assumes "List.find P xs = Some x"
  shows "\<exists>ys zs. xs = ys @ x # zs \<and> P x \<and> (\<forall>y \<in> set ys. \<not> P y)"
  using assms
proof (induction xs)
  case Nil
  then show ?case by simp
next
  case (Cons a xs)
  show ?case
  proof (cases "P a")
    case True
    with Cons.prems show ?thesis by (intro exI [of _ "[]"] exI [of _ xs]) simp
  next
    case False
    with Cons obtain ys zs where "xs = ys @ x # zs" "P x" "\<forall>y \<in> set ys. \<not> P y" by auto
    with False show ?thesis by (intro exI [of _ "a # ys"] exI [of _ zs]) simp
  qed
qed

lemma filter_hd_find: "filter P xs \<noteq> [] \<Longrightarrow> List.find P xs = Some (hd (filter P xs))"
  by (induction xs) auto

lemma find_filter: "List.find Q (filter P xs) = List.find (\<lambda>x. P x \<and> Q x) xs"
  by (induction xs) auto

lemma takeWhile_not_in: "a \<notin> set (takeWhile (\<lambda>x. x \<noteq> a) xs)"
  by (induction xs) auto

lemma split_at_first:
  assumes "a \<in> set xs"
  shows "xs = takeWhile (\<lambda>x. x \<noteq> a) xs @ a # tl (dropWhile (\<lambda>x. x \<noteq> a) xs)"
  using assms by (induction xs) auto

lemma length_tl_dropWhile_less:
  "a \<in> set xs \<Longrightarrow> length (tl (dropWhile (\<lambda>x. x \<noteq> a) xs)) < length xs"
  by (induction xs) (auto simp: less_Suc_eq_le intro: le_trans [OF diff_le_self length_dropWhile_le])

end
