(* ===== verification/GoText.thy ===== *)
theory GoText
  imports Prelude
begin

text \<open>
  The parts of Go's strings, strconv, unicode and unicode/utf8 packages that the code relies on,
  over byte strings: decoding and encoding of runes with Go's treatment of malformed input
  (one byte is consumed and U+FFFD is delivered), white-space trimming, replacement, splitting
  and decimal rendering.  The main lemmas say that decoding inverts encoding, that a range loop
  over a string delivers valid runes only, and how the trimming functions relate to their input.
\<close>

section \<open>Bytes and runes\<close>

abbreviation byte :: "char \<Rightarrow> nat" where
  "byte c \<equiv> of_char c"

abbreviation byte_of :: "nat \<Rightarrow> char" where
  "byte_of n \<equiv> char_of n"

definition rune_error :: nat where
  "rune_error = 0xFFFD"

definition cont :: "char \<Rightarrow> bool" where
  "cont c \<longleftrightarrow> 0x80 \<le> byte c \<and> byte c \<le> 0xBF"

text \<open>The range accepted for the second byte, by first byte (utf8's table of accept ranges).\<close>

definition second_lo :: "nat \<Rightarrow> nat" where
  "second_lo b0 = (if b0 = 0xE0 then 0xA0 else if b0 = 0xF0 then 0x90 else 0x80)"

definition second_hi :: "nat \<Rightarrow> nat" where
  "second_hi b0 = (if b0 = 0xED then 0x9F else if b0 = 0xF4 then 0x8F else 0xBF)"

definition second_ok :: "nat \<Rightarrow> char \<Rightarrow> bool" where
  "second_ok b0 c \<longleftrightarrow> second_lo b0 \<le> byte c \<and> byte c \<le> second_hi b0"

fun decode_rune :: "bytes \<Rightarrow> nat \<times> nat" where
  "decode_rune [] = (rune_error, 0)"
| "decode_rune (c0 # s) =
    (let b0 = byte c0 in
     if b0 < 0x80 then (b0, 1)
     else if b0 < 0xC2 then (rune_error, 1)
     else if b0 < 0xE0 then
       (case s of
          c1 # _ \<Rightarrow> if second_ok b0 c1 then ((b0 - 0xC0) * 64 + (byte c1 - 0x80), 2)
                    else (rune_error, 1)
        | _ \<Rightarrow> (rune_error, 1))
     else if b0 < 0xF0 then
       (case s of
          c1 # c2 # _ \<Rightarrow>
            if second_ok b0 c1 \<and> cont c2
            then ((b0 - 0xE0) * 4096 + (byte c1 - 0x80) * 64 + (byte c2 - 0x80), 3)
            else (rune_error, 1)
        | _ \<Rightarrow> (rune_error, 1))
     else if b0 < 0xF5 then
       (case s of
          c1 # c2 # c3 # _ \<Rightarrow>
            if second_ok b0 c1 \<and> cont c2 \<and> cont c3
            then ((b0 - 0xF0) * 262144 + (byte c1 - 0x80) * 4096 + (byte c2 - 0x80) * 64
                    + (byte c3 - 0x80), 4)
            else (rune_error, 1)
        | _ \<Rightarrow> (rune_error, 1))
     else (rune_error, 1))"

definition valid_rune :: "nat \<Rightarrow> bool" where
  "valid_rune r \<longleftrightarrow> r < 0xD800 \<or> (0xE000 \<le> r \<and> r < 0x110000)"

fun encode_rune :: "nat \<Rightarrow> bytes" where
  "encode_rune r =
    (if r < 0x80 then [byte_of r]
     else if r < 0x800 then [byte_of (0xC0 + r div 64), byte_of (0x80 + r mod 64)]
     else if \<not> valid_rune r then [byte_of 0xEF, byte_of 0xBF, byte_of 0xBD]
     else if r < 0x10000 then
       [byte_of (0xE0 + r div 4096), byte_of (0x80 + r div 64 mod 64), byte_of (0x80 + r mod 64)]
     else
       [byte_of (0xF0 + r div 262144), byte_of (0x80 + r div 4096 mod 64),
        byte_of (0x80 + r div 64 mod 64), byte_of (0x80 + r mod 64)])"

text \<open>The runes a \<^verbatim>\<open>for _, r := range s\<close> loop delivers.\<close>

fun runes :: "bytes \<Rightarrow> nat list" where
  "runes [] = []"
| "runes (c # s) = (case decode_rune (c # s) of (r, n) \<Rightarrow> r # runes (drop (n - 1) s))"

definition encode_all :: "nat list \<Rightarrow> bytes" where
  "encode_all rs = concat (map encode_rune rs)"

definition valid_utf8 :: "bytes \<Rightarrow> bool" where
  "valid_utf8 s \<longleftrightarrow> encode_all (runes s) = s"

lemma byte_less [simp]: "byte c < 256"
  by (metis of_char_mod_256 mod_less_divisor zero_less_numeral)

lemma byte_of_byte: "n < 256 \<Longrightarrow> byte (byte_of n) = (n :: nat)"
  by simp

lemma encode_all_simps [simp]:
  "encode_all [] = []"
  "encode_all (r # rs) = encode_rune r @ encode_all rs"
  "encode_all (rs @ rs') = encode_all rs @ encode_all rs'"
  by (simp_all add: encode_all_def)

lemma decode_rune_size: "s \<noteq> [] \<Longrightarrow> 1 \<le> snd (decode_rune s) \<and> snd (decode_rune s) \<le> length s"
  by (cases s) (auto simp: Let_def split: list.splits)

lemma second_ok_le: "second_ok b0 c \<Longrightarrow> byte c - 0x80 \<le> 63"
  by (auto simp: second_ok_def second_hi_def split: if_splits)

lemma cont_le: "cont c \<Longrightarrow> byte c - 0x80 \<le> 63"
  unfolding cont_def by linarith

lemma valid_rune_2:
  assumes "b0 < 0xE0" "x \<le> 63"
  shows "valid_rune ((b0 - 0xC0) * 64 + x)"
proof -
  have "(b0 - 0xC0) * 64 + x < 0xD800" using assms by linarith
  then show ?thesis by (simp add: valid_rune_def)
qed

lemma valid_rune_3:
  assumes "b0 < 0xF0" "second_ok b0 c1" "y \<le> 63"
  shows "valid_rune ((b0 - 0xE0) * 4096 + (byte c1 - 0x80) * 64 + y)"
proof (cases "b0 = 0xED")
  case True
  then have "byte c1 \<le> 0x9F" using assms by (simp add: second_ok_def second_hi_def)
  with True assms(3) show ?thesis unfolding valid_rune_def by (intro disjI1) simp
next
  case False
  have "byte c1 - 0x80 \<le> 63" using assms(2) by (rule second_ok_le)
  then show ?thesis using assms False unfolding valid_rune_def
    by (cases "b0 < 0xED") (intro disjI1, linarith, intro disjI2, linarith)
qed

lemma valid_rune_4:
  assumes "b0 < 0xF5" "0xF0 \<le> b0" "second_ok b0 c1" "y \<le> 63" "z \<le> 63"
  shows "valid_rune ((b0 - 0xF0) * 262144 + (byte c1 - 0x80) * 4096 + y * 64 + z)"
proof -
  have c1: "byte c1 - 0x80 \<le> 63" using assms(3) by (rule second_ok_le)
  have lo: "b0 = 0xF0 \<Longrightarrow> 16 \<le> byte c1 - 0x80" using assms(3)
    by (auto simp: second_ok_def second_lo_def)
  have hi: "b0 = 0xF4 \<Longrightarrow> byte c1 - 0x80 \<le> 15" using assms(3)
    by (auto simp: second_ok_def second_hi_def)
  show ?thesis using assms c1 lo hi unfolding valid_rune_def
    by (intro disjI2 conjI; cases "b0 = 0xF0"; cases "b0 = 0xF4"; linarith)
qed

lemma valid_rune_ascii: "b0 < 0x80 \<Longrightarrow> valid_rune b0"
  by (simp add: valid_rune_def)

lemma valid_rune_error [simp]: "valid_rune rune_error"
  by (simp add: valid_rune_def rune_error_def)

lemma decode_rune_valid: "valid_rune (fst (decode_rune s))"
proof (cases s)
  case Nil
  then show ?thesis by simp
next
  case (Cons c s')
  show ?thesis
    unfolding Cons decode_rune.simps Let_def
    by (simp add: valid_rune_ascii valid_rune_2 valid_rune_3 valid_rune_4 second_ok_le cont_le
        split: list.split)
qed

declare decode_rune.simps(2) [simp del] encode_rune.simps [simp del]

lemma decode_ascii: "byte c < 0x80 \<Longrightarrow> decode_rune (c # s) = (byte c, 1)"
  by (subst decode_rune.simps) (simp add: Let_def)

lemma runes_Cons:
  "runes (c # s) = fst (decode_rune (c # s)) # runes (drop (snd (decode_rune (c # s))) (c # s))"
proof -
  have "1 \<le> snd (decode_rune (c # s))" using decode_rune_size [of "c # s"] by simp
  then show ?thesis by (cases "snd (decode_rune (c # s))") (auto split: prod.splits)
qed

lemma runes_step:
  "s \<noteq> [] \<Longrightarrow> runes s = fst (decode_rune s) # runes (drop (snd (decode_rune s)) s)"
  by (cases s) (simp_all only: runes_Cons)

declare runes.simps(2) [simp del]

lemma runes_valid: "r \<in> set (runes s) \<Longrightarrow> valid_rune r"
proof (induction s rule: runes.induct)
  case (2 c s)
  have v: "valid_rune (fst (decode_rune (c # s)))" by (rule decode_rune_valid)
  obtain x n where d: "decode_rune (c # s) = (x, n)" by (cases "decode_rune (c # s)")
  from 2 v show ?case by (auto simp: runes.simps(2) d)
qed simp

section \<open>Decoding inverts encoding\<close>

lemma encode_rune_nonempty [simp]: "encode_rune r \<noteq> []"
  by (simp add: encode_rune.simps)

lemma decode_encode_ascii: "r < 0x80 \<Longrightarrow> decode_rune (encode_rune r @ s) = (r, 1)"
  by (simp add: encode_rune.simps decode_rune.simps(2))

lemma cont_byte_of: "b < 64 \<Longrightarrow> cont (byte_of (0x80 + b))"
  by (simp add: cont_def)

lemma second_ok_byte_of:
  assumes "b < 64" "b0 = 0xE0 \<Longrightarrow> 32 \<le> b" "b0 = 0xED \<Longrightarrow> b < 32"
    "b0 = 0xF0 \<Longrightarrow> 16 \<le> b" "b0 = 0xF4 \<Longrightarrow> b < 16"
  shows "second_ok b0 (byte_of (0x80 + b))"
  using assms by (auto simp: second_ok_def second_lo_def second_hi_def)

lemma decode_2:
  assumes "2 \<le> a" "a < 32" "b < 64"
  shows "decode_rune (byte_of (0xC0 + a) # byte_of (0x80 + b) # s) = (a * 64 + b, 2)"
proof -
  have "byte (byte_of (0xC0 + a)) = 0xC0 + a" using assms by simp
  moreover have "second_ok (0xC0 + a) (byte_of (0x80 + b))"
    using assms by (intro second_ok_byte_of) auto
  ultimately show ?thesis using assms
    by (simp only: decode_rune.simps(2) Let_def list.case if_True) simp
qed

lemma decode_encode_2:
  assumes "0x80 \<le> r" "r < 0x800"
  shows "decode_rune (encode_rune r @ s) = (r, 2)"
proof -
  define a b where "a = r div 64" and "b = r mod 64"
  have r: "r = a * 64 + b" by (simp add: a_def b_def)
  have b: "b < 64" by (simp add: b_def)
  have a: "2 \<le> a" "a < 32" using assms r b by linarith+
  have e: "encode_rune r = [byte_of (0xC0 + a), byte_of (0x80 + b)]"
    using assms by (simp add: encode_rune.simps a_def b_def)
  show ?thesis using decode_2 [OF a b, of s] unfolding e by (simp add: r)
qed

lemma decode_3:
  assumes "a < 16" "b < 64" "c < 64" and so: "second_ok (0xE0 + a) (byte_of (0x80 + b))"
  shows "decode_rune (byte_of (0xE0 + a) # byte_of (0x80 + b) # byte_of (0x80 + c) # s) =
    (a * 4096 + b * 64 + c, 3)"
proof -
  have "byte (byte_of (0xE0 + a)) = 0xE0 + a" using assms by simp
  moreover have "cont (byte_of (0x80 + c))" using assms by (simp only: cont_byte_of)
  ultimately show ?thesis using assms
    by (simp only: decode_rune.simps(2) Let_def list.case so if_True) simp
qed

lemma decode_4:
  assumes "a < 5" "b < 64" "c < 64" "d < 64" and so: "second_ok (0xF0 + a) (byte_of (0x80 + b))"
  shows "decode_rune (byte_of (0xF0 + a) # byte_of (0x80 + b) # byte_of (0x80 + c)
      # byte_of (0x80 + d) # s) = (a * 262144 + b * 4096 + c * 64 + d, 4)"
proof -
  have "byte (byte_of (0xF0 + a)) = 0xF0 + a" using assms by simp
  moreover have "cont (byte_of (0x80 + c))" "cont (byte_of (0x80 + d))"
    using assms by (simp_all only: cont_byte_of)
  ultimately show ?thesis using assms
    by (simp only: decode_rune.simps(2) Let_def list.case so if_True) simp
qed

lemma decode_encode_3:
  assumes "0x800 \<le> r" "r < 0x10000" "valid_rune r"
  shows "decode_rune (encode_rune r @ s) = (r, 3)"
proof -
  define q where "q = r div 64"
  define a b c where "a = q div 64" and "b = q mod 64" and "c = r mod 64"
  have r: "r = q * 64 + c" and q: "q = a * 64 + b"
    by (simp_all add: a_def b_def c_def q_def)
  have b: "b < 64" and c: "c < 64" by (simp_all add: b_def c_def)
  have a: "a < 16" using assms r q by linarith
  have aq: "r div 4096 = a" by (simp add: a_def q_def flip: div_mult2_eq)
  have e: "encode_rune r = [byte_of (0xE0 + a), byte_of (0x80 + b), byte_of (0x80 + c)]"
    using assms by (simp add: encode_rune.simps aq) (simp add: b_def c_def q_def)
  have lo: "a = 0 \<Longrightarrow> 32 \<le> b" using assms(1) r q c by linarith
  have hi: "a = 13 \<Longrightarrow> b < 32" using assms(3) r q b c unfolding valid_rune_def by linarith
  have "second_ok (0xE0 + a) (byte_of (0x80 + b))"
    using a b lo hi by (intro second_ok_byte_of) auto
  then show ?thesis using decode_3 [OF a b c, of s] unfolding e by (simp add: r q add_mult_distrib)
qed

lemma decode_encode_4:
  assumes "0x10000 \<le> r" "valid_rune r"
  shows "decode_rune (encode_rune r @ s) = (r, 4)"
proof -
  define q where "q = r div 64"
  define p where "p = q div 64"
  define a b c d where "a = p div 64" and "b = p mod 64" and "c = q mod 64" and "d = r mod 64"
  have r: "r = q * 64 + d" and q: "q = p * 64 + c" and p: "p = a * 64 + b"
    by (simp_all add: a_def b_def c_def d_def p_def q_def)
  have b: "b < 64" and c: "c < 64" and d: "d < 64" by (simp_all add: b_def c_def d_def)
  have up: "r < 0x110000" using assms unfolding valid_rune_def by linarith
  have a: "a < 5" using up r q p by linarith
  have aq: "r div 262144 = a" "r div 4096 = p"
    by (simp_all add: a_def p_def q_def flip: div_mult2_eq)
  have e: "encode_rune r =
      [byte_of (0xF0 + a), byte_of (0x80 + b), byte_of (0x80 + c), byte_of (0x80 + d)]"
    using assms by (simp add: encode_rune.simps aq) (simp add: b_def c_def d_def q_def)
  have lo: "a = 0 \<Longrightarrow> 16 \<le> b" using assms(1) r q p c d by linarith
  have hi: "a = 4 \<Longrightarrow> b < 16" using up r q p by linarith
  have "second_ok (0xF0 + a) (byte_of (0x80 + b))"
    using a b lo hi by (intro second_ok_byte_of) auto
  then show ?thesis using decode_4 [OF a b c d, of s] unfolding e by (simp add: r q p add_mult_distrib)
qed

lemma length_encode_rune:
  "valid_rune r \<Longrightarrow> length (encode_rune r) =
     (if r < 0x80 then 1 else if r < 0x800 then 2 else if r < 0x10000 then 3 else 4)"
  by (simp add: encode_rune.simps)

lemma decode_encode:
  assumes "valid_rune r"
  shows "decode_rune (encode_rune r @ s) = (r, length (encode_rune r))"
  using assms decode_encode_ascii [of r s] decode_encode_2 [of r s] decode_encode_3 [of r s]
    decode_encode_4 [of r s]
  by (cases "r < 0x80"; cases "r < 0x800"; cases "r < 0x10000")
    (simp_all add: length_encode_rune)

lemma runes_encode_rune: "valid_rune r \<Longrightarrow> runes (encode_rune r @ s) = r # runes s"
  by (simp add: runes_step decode_encode)

lemma runes_encode_all:
  "(\<And>r. r \<in> set rs \<Longrightarrow> valid_rune r) \<Longrightarrow> runes (encode_all rs @ s) = rs @ runes s"
  by (induction rs) (simp_all add: runes_encode_rune)

lemma runes_encode_all_only:
  "(\<And>r. r \<in> set rs \<Longrightarrow> valid_rune r) \<Longrightarrow> runes (encode_all rs) = rs"
  using runes_encode_all [of rs "[]"] by simp

lemma valid_utf8_encode_all:
  "(\<And>r. r \<in> set rs \<Longrightarrow> valid_rune r) \<Longrightarrow> valid_utf8 (encode_all rs)"
  by (simp add: valid_utf8_def runes_encode_all_only)

lemma byte_in_encode_rune:
  assumes "c \<in> set (encode_rune r)" "byte c < 0x80"
  shows "r = byte c"
  using assms by (auto simp: encode_rune.simps valid_rune_def split: if_splits)

section \<open>White space\<close>

text \<open>unicode.IsSpace: the Latin-1 cases, then the White_Space table.\<close>

definition is_space :: "nat \<Rightarrow> bool" where
  "is_space r \<longleftrightarrow> r \<in> {0x09, 0x0A, 0x0B, 0x0C, 0x0D, 0x20, 0x85, 0xA0, 0x1680, 0x2028, 0x2029,
     0x202F, 0x205F, 0x3000} \<or> (0x2000 \<le> r \<and> r \<le> 0x200A)"

definition rune_start :: "char \<Rightarrow> bool" where
  "rune_start c \<longleftrightarrow> \<not> cont c"

text \<open>
  utf8.DecodeLastRune: the last byte alone when it is ASCII, otherwise the rune that starts at the
  nearest rune start two to four bytes from the end, provided it ends where the string ends.
\<close>

definition decode_last_rune :: "bytes \<Rightarrow> nat \<times> nat" where
  "decode_last_rune s =
    (if s = [] then (rune_error, 0)
     else if byte (last s) < 0x80 then (byte (last s), 1)
     else (case List.find (\<lambda>k. k \<le> length s \<and> rune_start (s ! (length s - k))) [2, 3, 4] of
             None \<Rightarrow> (rune_error, 1)
           | Some k \<Rightarrow> (let (r, n) = decode_rune (drop (length s - k) s) in
                        if n = k then (r, n) else (rune_error, 1))))"

lemma decode_last_rune_size:
  "s \<noteq> [] \<Longrightarrow> 1 \<le> snd (decode_last_rune s) \<and> snd (decode_last_rune s) \<le> length s"
  by (auto simp: decode_last_rune_def Let_def Suc_le_eq split: option.split prod.split
      dest!: find_Some_prefix)

function trim_left_space :: "bytes \<Rightarrow> bytes" where
  "trim_left_space s =
    (if s \<noteq> [] \<and> is_space (fst (decode_rune s))
     then trim_left_space (drop (snd (decode_rune s)) s) else s)"
  by pat_completeness auto
termination
  by (relation "measure length") (use decode_rune_size in \<open>fastforce simp: Suc_le_eq\<close>)+

function trim_right_space :: "bytes \<Rightarrow> bytes" where
  "trim_right_space s =
    (if s \<noteq> [] \<and> is_space (fst (decode_last_rune s))
     then trim_right_space (take (length s - snd (decode_last_rune s)) s) else s)"
  by pat_completeness auto
termination
  by (relation "measure length") (use decode_last_rune_size in \<open>fastforce simp: Suc_le_eq\<close>)+

declare trim_left_space.simps [simp del] trim_right_space.simps [simp del]

definition trim_space :: "bytes \<Rightarrow> bytes" where
  "trim_space s = trim_right_space (trim_left_space s)"

text \<open>strings.TrimRight with a cutset of ASCII bytes works byte by byte.\<close>

definition trim_right :: "bytes \<Rightarrow> char set \<Rightarrow> bytes" where
  "trim_right s cs = rev (dropWhile (\<lambda>c. c \<in> cs) (rev s))"

lemma trim_left_space_suffix: "suffix (trim_left_space s) s"
proof (induction s rule: trim_left_space.induct)
  case (1 s)
  then show ?case
    by (subst trim_left_space.simps)
      (auto intro: suffix_order.trans [OF _ suffix_drop])
qed

lemma trim_right_space_prefix: "prefix (trim_right_space s) s"
proof (induction s rule: trim_right_space.induct)
  case (1 s)
  then show ?case
    by (subst trim_right_space.simps)
      (auto intro: prefix_order.trans [OF _ take_is_prefix])
qed

lemma trim_space_sublist: "sublist (trim_space s) s"
  unfolding trim_space_def
  by (meson prefix_imp_sublist suffix_imp_sublist sublist_order.order.trans trim_left_space_suffix
      trim_right_space_prefix)

lemma length_trim_space: "length (trim_space s) \<le> length s"
  using trim_space_sublist sublist_length_le by blast

lemma trim_right_prefix: "prefix (trim_right s cs) s"
  by (metis prefix_def rev_append rev_rev_ident takeWhile_dropWhile_id trim_right_def)

lemma trim_right_last: "trim_right s cs \<noteq> [] \<Longrightarrow> last (trim_right s cs) \<notin> cs"
  using hd_dropWhile [of "\<lambda>c. c \<in> cs" "rev s"] by (auto simp: trim_right_def last_rev)

section \<open>Replacement, splitting and numbers\<close>

text \<open>strings.ReplaceAll with a non-empty pattern: leftmost, non-overlapping matches.\<close>

function replace_all :: "bytes \<Rightarrow> bytes \<Rightarrow> bytes \<Rightarrow> bytes" where
  "replace_all old new s =
    (if s = [] \<or> old = [] then s
     else if take (length old) s = old then new @ replace_all old new (drop (length old) s)
     else hd s # replace_all old new (tl s))"
  by pat_completeness auto
termination
  by (relation "measure (\<lambda>(old, new, s). length s)") auto

declare replace_all.simps [simp del]

fun nat_dec :: "nat \<Rightarrow> bytes" where
  "nat_dec n = (if n < 10 then [byte_of (48 + n)] else nat_dec (n div 10) @ [byte_of (48 + n mod 10)])"

declare nat_dec.simps [simp del]

definition itoa :: "int \<Rightarrow> bytes" where
  "itoa i = (if i < 0 then CHR ''-'' # nat_dec (nat (- i)) else nat_dec (nat i))"

definition hexd :: "nat \<Rightarrow> char" where
  "hexd n = ''0123456789abcdef'' ! (n mod 16)"

text \<open>The verbs %02x and %04x on numbers that fit two and four hexadecimal digits.\<close>

definition hex2 :: "nat \<Rightarrow> bytes" where
  "hex2 n = [hexd (n div 16), hexd n]"

definition hex4 :: "nat \<Rightarrow> bytes" where
  "hex4 n = [hexd (n div 4096), hexd (n div 256), hexd (n div 16), hexd n]"

fun join :: "bytes \<Rightarrow> bytes list \<Rightarrow> bytes" where
  "join sep [] = []"
| "join sep [x] = x"
| "join sep (x # y # ys) = x @ sep @ join sep (y # ys)"

text \<open>strings.Split with a one-byte separator.\<close>

fun split_on :: "char \<Rightarrow> bytes \<Rightarrow> bytes list" where
  "split_on c [] = [[]]"
| "split_on c (x # s) =
    (if x = c then [] # split_on c s
     else (case split_on c s of [] \<Rightarrow> [[x]] | p # ps \<Rightarrow> (x # p) # ps))"

lemma split_on_nonempty [simp]: "split_on c s \<noteq> []"
  by (cases s) (auto split: list.split)

lemma join_split_on: "join [c] (split_on c s) = s"
proof (induction s)
  case Nil
  then show ?case by simp
next
  case (Cons x s)
  obtain p ps where "split_on c s = p # ps" by (cases "split_on c s") auto
  with Cons show ?case by (cases ps) auto
qed

lemma split_on_no_sep: "p \<in> set (split_on c s) \<Longrightarrow> c \<notin> set p"
  by (induction s arbitrary: p) (force split: if_splits list.splits)+

section \<open>Durations\<close>

text \<open>
  \<^verbatim>\<open>time.Duration.String\<close>: sub-second values in ns, microseconds or ms, others in h, m, s with
  up to nine decimals; trailing zeros of a fraction are dropped.
\<close>

fun digits_pad :: "nat \<Rightarrow> nat \<Rightarrow> bytes" where
  "digits_pad 0 v = []"
| "digits_pad (Suc p) v = digits_pad p (v div 10) @ [byte_of (48 + v mod 10)]"

definition frac_String :: "nat \<Rightarrow> nat \<Rightarrow> bytes" where
  "frac_String v prec =
    (let ds = rev (dropWhile (\<lambda>c. c = CHR ''0'') (rev (digits_pad prec v)))
     in if ds = [] then [] else CHR ''.'' # ds)"

definition micro_sign :: bytes where
  "micro_sign = encode_rune 0xB5"

definition duration_String :: "duration \<Rightarrow> bytes" where
  "duration_String d =
    (let u = nat \<bar>d\<bar>; sgn_s = (if d < 0 then ''-'' else []);
         unit_s = (\<lambda>prec. nat_dec (u div 10 ^ prec) @ frac_String u prec)
     in if u = 0 then ''0s''
        else if u < 1000 then sgn_s @ unit_s 0 @ ''ns''
        else if u < 1000000 then sgn_s @ unit_s 3 @ micro_sign @ ''s''
        else if u < 1000000000 then sgn_s @ unit_s 6 @ ''ms''
        else
          (let secs = u div 1000000000; mins = secs div 60; hours = mins div 60
           in sgn_s
              @ (if 0 < hours then nat_dec hours @ ''h'' else [])
              @ (if 0 < mins then nat_dec (mins mod 60) @ ''m'' else [])
              @ nat_dec (secs mod 60) @ frac_String u 9 @ ''s''))"

text \<open>\<^verbatim>\<open>Duration.Milliseconds\<close> divides by a million, rounding towards zero.\<close>

definition milliseconds :: "duration \<Rightarrow> int" where
  "milliseconds d = sgn d * (\<bar>d\<bar> div 1000000)"

end
