(* ===== verification/Outcome.thy ===== *)
theory Outcome
  imports GoText
begin

text \<open>
  How a run ended, and what a run captured (\<^verbatim>\<open>result.go\<close>, \<^verbatim>\<open>outcome_unix.go\<close>,
  \<^verbatim>\<open>outcome_windows.go\<close>, \<^verbatim>\<open>mechanism.go\<close>).  An outcome is the source's struct of kind, code and
  signal; a result is the source's struct with the captured streams.  A pair \<^verbatim>\<open>(value, ok)\<close> is an
  option.  The lemmas characterise the accessors on every kind of outcome, success of a result,
  and the newline normalisation of the text accessors, which is shown equal to a one-pass
  reference function.
\<close>

section \<open>Mechanisms\<close>

datatype mechanism =
  MechanismUnknown | MechanismJobObject | MechanismProcessGroup | MechanismCgroupV2

fun mechanism_String :: "mechanism \<Rightarrow> bytes" where
  "mechanism_String MechanismJobObject = ''JobObject''"
| "mechanism_String MechanismProcessGroup = ''ProcessGroup''"
| "mechanism_String MechanismCgroupV2 = ''CgroupV2''"
| "mechanism_String MechanismUnknown = ''Unknown''"

section \<open>Outcomes\<close>

datatype outcomeKind = OutcomeExited | OutcomeSignalled | OutcomeTimedOut

record outcome =
  o_kind :: outcomeKind
  o_code :: int
  o_signal :: int
  o_hasSignal :: bool

definition exited :: "int \<Rightarrow> outcome" where
  "exited code = \<lparr>o_kind = OutcomeExited, o_code = code, o_signal = 0, o_hasSignal = False\<rparr>"

definition signalled :: "int option \<Rightarrow> outcome" where
  "signalled sig =
    (let o0 = \<lparr>o_kind = OutcomeSignalled, o_code = 0, o_signal = 0, o_hasSignal = False\<rparr>
     in case sig of None \<Rightarrow> o0 | Some s \<Rightarrow> o0\<lparr>o_signal := s, o_hasSignal := True\<rparr>)"

definition timedOut :: outcome where
  "timedOut = \<lparr>o_kind = OutcomeTimedOut, o_code = 0, o_signal = 0, o_hasSignal = False\<rparr>"

text \<open>The exported constructors for fakes (\<^verbatim>\<open>Exited\<close>, \<^verbatim>\<open>Signalled\<close>, \<^verbatim>\<open>TimedOut\<close>).\<close>

definition mk_Exited :: "int \<Rightarrow> outcome" where
  "mk_Exited code = exited code"

definition mk_Signalled :: "int \<Rightarrow> outcome" where
  "mk_Signalled sig = signalled (Some sig)"

definition mk_TimedOut :: outcome where
  "mk_TimedOut = timedOut"

definition outcome_Code :: "outcome \<Rightarrow> int option" where
  "outcome_Code oc = (if o_kind oc = OutcomeExited then Some (o_code oc) else None)"

definition outcome_Signal :: "outcome \<Rightarrow> int option" where
  "outcome_Signal oc =
    (if o_kind oc = OutcomeSignalled \<and> o_hasSignal oc then Some (o_signal oc) else None)"

definition outcome_TimedOut :: "outcome \<Rightarrow> bool" where
  "outcome_TimedOut oc \<longleftrightarrow> o_kind oc = OutcomeTimedOut"

definition outcome_String :: "outcome \<Rightarrow> bytes" where
  "outcome_String oc = (case o_kind oc of
      OutcomeExited \<Rightarrow> ''exited('' @ itoa (o_code oc) @ '')''
    | OutcomeSignalled \<Rightarrow>
        (if o_hasSignal oc then ''signalled('' @ itoa (o_signal oc) @ '')'' else ''signalled'')
    | OutcomeTimedOut \<Rightarrow> ''timedOut'')"

text \<open>
  What the code reads of an \<^verbatim>\<open>os.ProcessState\<close>: whether the wait status says the process was
  signalled, by which signal, and the exit code.
\<close>

record processState =
  ps_signaled :: bool
  ps_signal :: int
  ps_exitCode :: int

definition outcomeOf_unix :: "processState \<Rightarrow> outcome" where
  "outcomeOf_unix ps =
    (if ps_signaled ps then signalled (Some (ps_signal ps)) else exited (ps_exitCode ps))"

definition outcomeOf_windows :: "processState \<Rightarrow> outcome" where
  "outcomeOf_windows ps = exited (ps_exitCode ps)"

lemma outcome_accessors [simp, outcome_simps]:
  "outcome_Code (exited c) = Some c"
  "outcome_Code (signalled s) = None"
  "outcome_Code timedOut = None"
  "outcome_Signal (exited c) = None"
  "outcome_Signal (signalled s) = s"
  "outcome_Signal timedOut = None"
  "\<not> outcome_TimedOut (exited c)"
  "\<not> outcome_TimedOut (signalled s)"
  "outcome_TimedOut timedOut"
  by (auto simp: outcome_Code_def outcome_Signal_def outcome_TimedOut_def exited_def
      signalled_def timedOut_def Let_def split: option.split)

lemma outcome_distinct [simp]:
  "exited c \<noteq> signalled s" "signalled s \<noteq> exited c" "exited c \<noteq> timedOut" "timedOut \<noteq> exited c"
  "signalled s \<noteq> timedOut" "timedOut \<noteq> signalled s"
  by (auto simp: exited_def signalled_def timedOut_def Let_def split: option.splits)

lemma exited_inject [simp]: "exited c = exited d \<longleftrightarrow> c = d"
  by (simp add: exited_def)

text \<open>
  Outcomes the package can build: only through the three constructors.  On these the three
  accessors tell every outcome apart.
\<close>

definition built :: "outcome \<Rightarrow> bool" where
  "built oc \<longleftrightarrow> (\<exists>c. oc = exited c) \<or> (\<exists>s. oc = signalled s) \<or> oc = timedOut"

lemma built_intros [simp, intro]:
  "built (exited c)" "built (signalled s)" "built timedOut"
  by (auto simp: built_def)

lemma built_cases:
  assumes "built oc"
  obtains (exited) c where "oc = exited c"
  | (signalled) s where "oc = signalled s"
  | (timedOut) "oc = timedOut"
  using assms by (auto simp: built_def)

lemma built_outcomeOf [simp]: "built (outcomeOf_unix ps)" "built (outcomeOf_windows ps)"
  by (auto simp: outcomeOf_unix_def outcomeOf_windows_def)

section \<open>Newline normalisation\<close>

definition CR :: char where
  "CR = byte_of 13"

definition LF :: char where
  "LF = byte_of 10"

lemma CR_neq_LF [simp]: "CR \<noteq> LF" "LF \<noteq> CR"
  by (simp_all add: CR_def LF_def char_of_eq_iff)

lemma ws_chars: "byte_of 9 = CHR 0x09" "CR = CHR 0x0D" "LF = CHR 0x0A"
  by code_simp+

definition normalizeNewlines :: "bytes \<Rightarrow> bytes" where
  "normalizeNewlines s =
    (if CR \<notin> set s then s
     else replace_all [CR] [LF] (replace_all [CR, LF] [LF] s))"

text \<open>The one-pass reference: a CR, with the LF after it if there is one, becomes one LF.\<close>

fun normalize_ref :: "bytes \<Rightarrow> bytes" where
  "normalize_ref [] = []"
| "normalize_ref (c # s) =
    (if c = CR then LF # (case s of d # s' \<Rightarrow> if d = LF then normalize_ref s' else normalize_ref s
                          | [] \<Rightarrow> [])
     else c # normalize_ref s)"

lemma replace_all_Nil [simp]: "replace_all old new [] = []"
  by (simp add: replace_all.simps)

lemma replace_all_single: "replace_all [a] [b] s = map (\<lambda>c. if c = a then b else c) s"
proof (induction s)
  case (Cons c s)
  then show ?case by (subst replace_all.simps) simp
qed simp

lemma replace_all_pair_Cons:
  "replace_all [a, b] new (c # s) =
    (case s of d # s' \<Rightarrow> if c = a \<and> d = b then new @ replace_all [a, b] new s'
                         else c # replace_all [a, b] new s
     | [] \<Rightarrow> [c])"
  by (subst replace_all.simps) (auto split: list.split)

lemma normalize_two_pass:
  "replace_all [CR] [LF] (replace_all [CR, LF] [LF] s) = normalize_ref s"
proof (induction s rule: normalize_ref.induct)
  case (2 c s)
  then show ?case
    by (cases s) (auto simp: replace_all_pair_Cons replace_all_single)
qed simp

lemma normalize_ref_no_CR: "CR \<notin> set s \<Longrightarrow> normalize_ref s = s"
  by (induction s) auto

lemma normalizeNewlines_eq_ref: "normalizeNewlines s = normalize_ref s"
  by (simp add: normalizeNewlines_def normalize_two_pass normalize_ref_no_CR)

lemma CR_notin_normalize_ref: "CR \<notin> set (normalize_ref s)"
  by (induction s rule: normalize_ref.induct) (auto split: list.split)

lemma length_normalize_ref: "length (normalize_ref s) \<le> length s"
  by (induction s rule: normalize_ref.induct) (auto split: list.split)

section \<open>Results\<close>

record result =
  r_program :: bytes
  r_args :: "bytes list"
  r_outcome :: outcome
  r_stdout :: bytes
  r_stderr :: bytes
  r_duration :: duration
  r_okCodes :: "int list"
  r_mechanism :: mechanism

definition result_Stdout :: "result \<Rightarrow> bytes" where
  "result_Stdout r = normalizeNewlines (r_stdout r)"

definition result_Code :: "result \<Rightarrow> int option" where
  "result_Code r = outcome_Code (r_outcome r)"

definition result_TimedOut :: "result \<Rightarrow> bool" where
  "result_TimedOut r = outcome_TimedOut (r_outcome r)"

text \<open>The test shared by \<^verbatim>\<open>Result.Success\<close> and \<^verbatim>\<open>stageOutcome.clean\<close>, each written out in the source.\<close>

fun code_in :: "int \<Rightarrow> int list \<Rightarrow> bool" where
  "code_in code [] = False"
| "code_in code (c # cs) = (if code = c then True else code_in code cs)"

lemma code_in_iff [simp]: "code_in code cs \<longleftrightarrow> code \<in> set cs"
  by (induction cs) auto

definition Success :: "result \<Rightarrow> bool" where
  "Success r = (case outcome_Code (r_outcome r) of
      None \<Rightarrow> False
    | Some code \<Rightarrow> if code = 0 then True else code_in code (r_okCodes r))"

lemma Success_iff:
  "Success r \<longleftrightarrow> (\<exists>c. outcome_Code (r_outcome r) = Some c \<and> (c = 0 \<or> c \<in> set (r_okCodes r)))"
  by (auto simp: Success_def split: option.split)

end
