(* ===== verification/Errors.thy ===== *)
theory Errors
  imports Outcome
begin

text \<open>
  The error values of the package (\<^verbatim>\<open>errors.go\<close>, the cassette errors of
  \<^verbatim>\<open>processkittest/cassette.go\<close>) and the two walks over an error chain the code performs:
  \<^verbatim>\<open>errors.Is\<close> against a sentinel or an errno, and \<^verbatim>\<open>errors.As\<close> for an errno
  (\<^verbatim>\<open>classify.go\<close>).  Each error type keeps its source fields; \<open>err_Is\<close> is its \<^verbatim>\<open>Is\<close> method
  and \<open>err_Unwrap\<close> its \<^verbatim>\<open>Unwrap\<close> method.  The lemmas give the sentinels each type matches.
\<close>

section \<open>Error values\<close>

datatype sentinel =
    ErrCancelled | ErrTimeout | ErrUnsupported | ErrNotReady | ErrResourceLimit
  | ErrNotFound | ErrStart | ErrTooFewStages
  | ErrGroupClosed | ErrStreamNotEnabled | ErrCassetteMiss
  | Sys_ErrUnsupported | Exec_ErrNotFound
  | Context_Canceled | Context_DeadlineExceeded
  | Os_ErrNotExist | Os_ErrExist

datatype errno =
    EINTR | EAGAIN | ETXTBSY | EBUSY | ESRCH | EPERM | EACCES | ENOENT | EEXIST | EROFS
  | Errno_other nat

text \<open>
  \<open>Plain\<close> is an error with a text and nothing else (\<^verbatim>\<open>errors.New\<close> inside a function, or an OS
  error without an errno); \<open>Wrapped\<close> is \<^verbatim>\<open>fmt.Errorf\<close> with a \<^verbatim>\<open>%w\<close> at its end, or one of the
  standard library's wrappers (\<^verbatim>\<open>*exec.Error\<close>, \<^verbatim>\<open>*fs.PathError\<close>), which print a prefix and the cause;
  \<open>WrappedIn\<close> has the \<^verbatim>\<open>%w\<close> between two texts.
\<close>

datatype goerr =
    Sentinel sentinel
  | Errno errno
  | Plain bytes
  | Wrapped bytes goerr
  | WrappedIn bytes goerr bytes
  | ExitError bytes outcome bytes bytes mechanism
  | CancelError bytes "goerr option"
  | NotFoundError bytes "bytes list"
  | StartError bytes goerr
  | NotReadyError bytes bytes duration "goerr option"
  | ResourceLimitError bytes bytes "goerr option"
  | CassetteMissError bytes "bytes list" bytes

datatype target = TSentinel sentinel | TErrno errno

section \<open>Is and Unwrap\<close>

text \<open>The comparison \<^verbatim>\<open>err == target\<close> that \<^verbatim>\<open>errors.Is\<close> makes first.\<close>

fun err_eq :: "goerr \<Rightarrow> target \<Rightarrow> bool" where
  "err_eq (Sentinel s) tgt = (tgt = TSentinel s)"
| "err_eq (Errno n) tgt = (tgt = TErrno n)"
| "err_eq _ _ = False"

fun ExitError_Is :: "outcome \<Rightarrow> target \<Rightarrow> bool" where
  "ExitError_Is oc tgt = (tgt = TSentinel ErrTimeout \<and> outcome_TimedOut oc)"

text \<open>
  The \<^verbatim>\<open>Is\<close> methods; the one of \<^verbatim>\<open>syscall.Errno\<close> relates errnos to the os sentinels the code
  asks about.
\<close>

fun err_Is :: "goerr \<Rightarrow> target \<Rightarrow> bool" where
  "err_Is (ExitError p oc so se m) tgt = ExitError_Is oc tgt"
| "err_Is (CancelError p c) tgt = (tgt = TSentinel ErrCancelled)"
| "err_Is (NotFoundError p ds) tgt = (tgt = TSentinel ErrNotFound)"
| "err_Is (StartError p e) tgt = (tgt = TSentinel ErrStart)"
| "err_Is (NotReadyError p pr d c) tgt = (tgt = TSentinel ErrNotReady)"
| "err_Is (ResourceLimitError l r c) tgt = (tgt = TSentinel ErrResourceLimit)"
| "err_Is (CassetteMissError p as d) tgt = (tgt = TSentinel ErrCassetteMiss)"
| "err_Is (Errno e) tgt =
    ((e = ENOENT \<and> tgt = TSentinel Os_ErrNotExist) \<or> (e = EEXIST \<and> tgt = TSentinel Os_ErrExist))"
| "err_Is _ _ = False"

fun err_Unwrap :: "goerr \<Rightarrow> goerr option" where
  "err_Unwrap (CancelError p c) = c"
| "err_Unwrap (StartError p e) = Some e"
| "err_Unwrap (NotReadyError p pr d c) = c"
| "err_Unwrap (ResourceLimitError l r c) = c"
| "err_Unwrap (Wrapped s e) = Some e"
| "err_Unwrap (WrappedIn s e t) = Some e"
| "err_Unwrap _ = None"

lemma err_Unwrap_size: "err_Unwrap e = Some e' \<Longrightarrow> size e' < size e"
  by (cases e) auto

function errors_Is :: "goerr \<Rightarrow> target \<Rightarrow> bool" where
  "errors_Is e tgt =
    (if err_eq e tgt then True
     else if err_Is e tgt then True
     else (case err_Unwrap e of None \<Rightarrow> False | Some e' \<Rightarrow> errors_Is e' tgt))"
  by pat_completeness auto
termination
  by (relation "measure (\<lambda>(e, t). size e)") (auto simp: err_Unwrap_size)

declare errors_Is.simps [simp del]

lemma errors_Is_simps [simp, err_simps]:
  "errors_Is (Sentinel s) tgt = (tgt = TSentinel s)"
  "errors_Is (Errno n) tgt =
     (tgt = TErrno n \<or> (n = ENOENT \<and> tgt = TSentinel Os_ErrNotExist)
        \<or> (n = EEXIST \<and> tgt = TSentinel Os_ErrExist))"
  "errors_Is (Plain t) tgt = False"
  "errors_Is (Wrapped t e) tgt = errors_Is e tgt"
  "errors_Is (WrappedIn t e u) tgt = errors_Is e tgt"
  "errors_Is (ExitError p oc so se m) tgt = (tgt = TSentinel ErrTimeout \<and> outcome_TimedOut oc)"
  "errors_Is (CancelError p c) tgt =
     (tgt = TSentinel ErrCancelled \<or> (\<exists>e. c = Some e \<and> errors_Is e tgt))"
  "errors_Is (NotFoundError p ds) tgt = (tgt = TSentinel ErrNotFound)"
  "errors_Is (StartError p e) tgt = (tgt = TSentinel ErrStart \<or> errors_Is e tgt)"
  "errors_Is (NotReadyError p pr d c) tgt =
     (tgt = TSentinel ErrNotReady \<or> (\<exists>e. c = Some e \<and> errors_Is e tgt))"
  "errors_Is (ResourceLimitError l r c) tgt =
     (tgt = TSentinel ErrResourceLimit \<or> (\<exists>e. c = Some e \<and> errors_Is e tgt))"
  "errors_Is (CassetteMissError p as dir) tgt = (tgt = TSentinel ErrCassetteMiss)"
  by (subst errors_Is.simps, (auto split: option.split)[1])+

abbreviation is_err :: "goerr \<Rightarrow> sentinel \<Rightarrow> bool" where
  "is_err e s \<equiv> errors_Is e (TSentinel s)"

section \<open>Classification of transient failures\<close>

text \<open>
  \<^verbatim>\<open>errors.As(err, &errno)\<close>: the first errno of the chain; a nil error has none.
\<close>

function errors_As_errno :: "goerr \<Rightarrow> errno option" where
  "errors_As_errno e =
    (case e of Errno n \<Rightarrow> Some n
     | _ \<Rightarrow> (case err_Unwrap e of None \<Rightarrow> None | Some e' \<Rightarrow> errors_As_errno e'))"
  by pat_completeness auto
termination
  by (relation "measure size") (auto simp: err_Unwrap_size)

declare errors_As_errno.simps [simp del]

fun isTransientErrno_unix :: "errno \<Rightarrow> bool" where
  "isTransientErrno_unix e = (e \<in> {EINTR, EAGAIN, ETXTBSY, EBUSY})"

fun isTransientErrno_windows :: "errno \<Rightarrow> bool" where
  "isTransientErrno_windows e = (e = Errno_other 32 \<or> e = Errno_other 33)"

definition IsTransient :: "(errno \<Rightarrow> bool) \<Rightarrow> goerr option \<Rightarrow> bool" where
  "IsTransient isTransientErrno err =
    (case Option.bind err errors_As_errno of None \<Rightarrow> False | Some n \<Rightarrow> isTransientErrno n)"

lemma errors_As_errno_simps [simp, err_simps]:
  "errors_As_errno (Sentinel s) = None"
  "errors_As_errno (Errno n) = Some n"
  "errors_As_errno (Plain t) = None"
  "errors_As_errno (Wrapped t e) = errors_As_errno e"
  "errors_As_errno (WrappedIn t e u) = errors_As_errno e"
  "errors_As_errno (ExitError p oc so se m) = None"
  "errors_As_errno (CancelError p c) = Option.bind c errors_As_errno"
  "errors_As_errno (NotFoundError p ds) = None"
  "errors_As_errno (StartError p e) = errors_As_errno e"
  "errors_As_errno (NotReadyError p pr d c) = Option.bind c errors_As_errno"
  "errors_As_errno (ResourceLimitError l r c) = Option.bind c errors_As_errno"
  "errors_As_errno (CassetteMissError p as dir) = None"
  by (subst errors_As_errno.simps, (auto split: option.split)[1])+

section \<open>Verb interpretations of a result\<close>

text \<open>
  The success-requiring interpretations behind Run, ExitCode and Probe (\<^verbatim>\<open>result.go\<close>).
\<close>

definition toExitError :: "result \<Rightarrow> goerr" where
  "toExitError r =
    ExitError (r_program r) (r_outcome r) (normalizeNewlines (r_stdout r)) (r_stderr r)
      (r_mechanism r)"

definition result_Err :: "result \<Rightarrow> goerr option" where
  "result_Err r = (if Success r then None else Some (toExitError r))"

definition resultRun :: "result \<Rightarrow> goerr + bytes" where
  "resultRun res =
    (case result_Err res of Some err \<Rightarrow> Inl err
     | None \<Rightarrow> Inr (trim_right (result_Stdout res) {CHR '' '', byte_of 9, CR, LF}))"

definition resultExitCode :: "result \<Rightarrow> goerr + int" where
  "resultExitCode res =
    (case result_Code res of None \<Rightarrow> Inl (toExitError res) | Some code \<Rightarrow> Inr code)"

definition resultProbe :: "result \<Rightarrow> goerr + bool" where
  "resultProbe res =
    (case result_Code res of None \<Rightarrow> Inl (toExitError res)
     | Some code \<Rightarrow> if code = 0 then Inr True else if code = 1 then Inr False
                    else Inl (toExitError res))"

lemma toExitError_Is [simp, err_simps]:
  "errors_Is (toExitError r) tgt \<longleftrightarrow> tgt = TSentinel ErrTimeout \<and> outcome_TimedOut (r_outcome r)"
  by (simp add: toExitError_def)

lemma toExitError_not_cancelled [simp]: "\<not> is_err (toExitError r) ErrCancelled"
  by simp

section \<open>Properties\<close>

text \<open>
  Newline normalisation is the one-pass function that turns every CR, with the LF after
  it if there is one, into a single LF: its output has no CR and is never longer, text without a CR
  is unchanged, and normalising twice is normalising once.
\<close>

theorem newline_normalisation:
  "normalizeNewlines s = normalize_ref s \<and> CR \<notin> set (normalizeNewlines s)
   \<and> length (normalizeNewlines s) \<le> length s
   \<and> normalizeNewlines (normalizeNewlines s) = normalizeNewlines s"
  by (simp add: normalizeNewlines_eq_ref CR_notin_normalize_ref length_normalize_ref
      normalize_ref_no_CR)

text \<open>
  The verbs read a result without fabricating a code: Run succeeds exactly on an exit
  with 0 or an ok-code; ExitCode returns the code of every exit, success or not; Probe answers only
  for codes 0 and 1 whatever the ok-codes are.  Every other result is an ExitError of that program
  and outcome, which matches ErrTimeout exactly when the run timed out and never ErrCancelled.
\<close>

theorem verbs_read_results:
  assumes "built (r_outcome r)"
  shows "((\<exists>s. resultRun r = Inr s) \<longleftrightarrow>
      (\<exists>c. r_outcome r = exited c \<and> (c = 0 \<or> c \<in> set (r_okCodes r))))
    \<and> (resultExitCode r = Inr code \<longleftrightarrow> r_outcome r = exited code)
    \<and> (resultProbe r = Inr b \<longleftrightarrow> r_outcome r = exited (if b then 0 else 1))
    \<and> (\<forall>e. Inl e \<in> {map_sum id Inl (resultRun r), map_sum id (Inr \<circ> Inl) (resultExitCode r),
            map_sum id (Inr \<circ> Inr) (resultProbe r)} \<longrightarrow>
        (\<exists>out. e = ExitError (r_program r) (r_outcome r) out (r_stderr r) (r_mechanism r))
        \<and> (is_err e ErrTimeout \<longleftrightarrow> r_outcome r = timedOut) \<and> \<not> is_err e ErrCancelled)"
  using assms
proof (cases rule: built_cases)
  case (exited c)
  then show ?thesis
    by (auto simp: resultRun_def resultExitCode_def resultProbe_def result_Err_def Success_def
        result_Code_def toExitError_def split: if_splits)
next
  case (signalled s)
  then show ?thesis
    by (auto simp: resultRun_def resultExitCode_def resultProbe_def result_Err_def Success_def
        result_Code_def toExitError_def)
next
  case timedOut
  then show ?thesis
    by (auto simp: resultRun_def resultExitCode_def resultProbe_def result_Err_def Success_def
        result_Code_def toExitError_def)
qed

theorem verbs_read_results_witness:
  "resultExitCode \<lparr>r_program = ''git'', r_args = [], r_outcome = exited 3, r_stdout = [],
      r_stderr = [], r_duration = 0, r_okCodes = [], r_mechanism = MechanismUnknown\<rparr> = Inr 3"
  using verbs_read_results [of "\<lparr>r_program = ''git'', r_args = [], r_outcome = exited 3,
      r_stdout = [], r_stderr = [], r_duration = 0, r_okCodes = [],
      r_mechanism = MechanismUnknown\<rparr>" 3]
  by (simp add:)

text \<open>
  A failure is transient exactly when the first errno of its chain is one of the four
  the platform lists, through any number of wrappers; a nil error, a result-carrying error and a
  not-found error never are.
\<close>

theorem transient_classification:
  "IsTransient isTransientErrno_unix None = False
   \<and> \<not> IsTransient isTransientErrno_unix (Some (toExitError r))
   \<and> \<not> IsTransient isTransientErrno_unix (Some (NotFoundError p ds))
   \<and> (IsTransient isTransientErrno_unix (Some (StartError p (foldr Wrapped ws (Errno n))))
        \<longleftrightarrow> n \<in> {EINTR, EAGAIN, ETXTBSY, EBUSY})
   \<and> (IsTransient isTransientErrno_windows (Some (StartError p (foldr Wrapped ws (Errno n))))
        \<longleftrightarrow> n \<in> {Errno_other 32, Errno_other 33})
   \<and> (IsTransient isTransientErrno_unix (Some (CancelError p c))
        \<longleftrightarrow> IsTransient isTransientErrno_unix c)"
proof -
  have "errors_As_errno (foldr Wrapped ws (Errno n)) = Some n" by (induction ws) auto
  then show ?thesis by (cases c) (auto simp: IsTransient_def toExitError_def)
qed

end
