(* ===== verification/Render.thy ===== *)
theory Render
  imports Errors
begin

text \<open>
  Rendering of errors (the second half of \<^verbatim>\<open>errors.go\<close>): the bounded preview of a captured
  stream, the escaping of control and directional-override characters, the quoting of a program
  name, and the \<^verbatim>\<open>Error()\<close> method of every error type.  The lemmas describe the output of
  \<^verbatim>\<open>sanitize\<close> rune by rune, the length and the rune boundary of a preview, and which error texts
  are free of unsafe runes.
\<close>

section \<open>Preview and sanitising\<close>

definition previewLimit :: nat where
  "previewLimit = 200"

definition ellipsis :: bytes where
  "ellipsis = encode_rune 0x2026"

text \<open>The loop \<^verbatim>\<open>for cut > 0 && !utf8.RuneStart(s[cut]) { cut-- }\<close>.\<close>

fun rune_cut :: "bytes \<Rightarrow> nat \<Rightarrow> nat" where
  "rune_cut s 0 = 0"
| "rune_cut s (Suc n) = (if rune_start (s ! Suc n) then Suc n else rune_cut s n)"

definition preview :: "bytes \<Rightarrow> bytes" where
  "preview s =
    (if length s \<le> previewLimit then s
     else take (rune_cut s previewLimit) s @ ellipsis)"

definition bidi_control :: "nat \<Rightarrow> bool" where
  "bidi_control r \<longleftrightarrow>
    (0x202A \<le> r \<and> r \<le> 0x202E) \<or> (0x2066 \<le> r \<and> r \<le> 0x2069) \<or> r = 0x200E \<or> r = 0x200F"

definition sanitize_rune :: "nat \<Rightarrow> bytes" where
  "sanitize_rune r =
    (if r = 0x0A \<or> r = 0x09 then encode_rune r
     else if r < 0x20 \<or> r = 0x7F then CHR 0x5C # ''x'' @ hex2 r
     else if bidi_control r then CHR 0x5C # ''u'' @ hex4 r
     else encode_rune r)"

definition sanitize :: "bytes \<Rightarrow> bytes" where
  "sanitize s = concat (map sanitize_rune (runes s))"

definition diagnostic :: "bytes \<Rightarrow> bytes \<Rightarrow> bytes" where
  "diagnostic stderr stdout =
    (let s1 = trim_space stderr;
         s = (if s1 = [] then trim_space stdout else s1)
     in if s = [] then [] else sanitize (preview s))"

definition quoteProgram :: "bytes \<Rightarrow> bytes" where
  "quoteProgram p = (if p = [] then ''`<command>`'' else ''`'' @ sanitize p @ ''`'')"

definition plural :: "nat \<Rightarrow> bytes \<Rightarrow> bytes \<Rightarrow> bytes" where
  "plural n one many = (if n = 1 then one else many)"

section \<open>The Error methods\<close>

definition ExitError_text :: "bytes \<Rightarrow> outcome \<Rightarrow> bytes \<Rightarrow> bytes \<Rightarrow> bytes" where
  "ExitError_text program oc stdout stderr =
    ''processkit: '' @ quoteProgram program
    @ (if outcome_TimedOut oc then '' timed out''
       else (case outcome_Signal oc of
               Some s \<Rightarrow> '' killed by signal '' @ itoa s
             | None \<Rightarrow> (case outcome_Code oc of
                 Some c \<Rightarrow> '' exited with code '' @ itoa c
               | None \<Rightarrow> '' terminated abnormally'')))
    @ (let d = diagnostic stderr stdout in if d \<noteq> [] then '': '' @ d else [])"

fun sentinel_text :: "sentinel \<Rightarrow> bytes" where
  "sentinel_text ErrCancelled = ''processkit: run cancelled''"
| "sentinel_text ErrTimeout = ''processkit: run timed out''"
| "sentinel_text ErrUnsupported = ''processkit: operation not supported on this platform''"
| "sentinel_text ErrNotReady = ''processkit: readiness probe did not pass''"
| "sentinel_text ErrResourceLimit = ''processkit: resource limit could not be enforced''"
| "sentinel_text ErrNotFound = ''processkit: program not found''"
| "sentinel_text ErrStart = ''processkit: failed to start the process''"
| "sentinel_text ErrTooFewStages = ''processkit: a pipeline needs at least two stages''"
| "sentinel_text ErrGroupClosed = ''processkit: Start on a closed group''"
| "sentinel_text ErrStreamNotEnabled =
     ''processkit: WaitForLine requires Group.Start with StreamLines()''"
| "sentinel_text ErrCassetteMiss = ''processkittest: no cassette entry matches the command''"
| "sentinel_text Sys_ErrUnsupported = ''sys: operation not supported on this platform''"
| "sentinel_text Exec_ErrNotFound = ''executable file not found in $PATH''"
| "sentinel_text Context_Canceled = ''context canceled''"
| "sentinel_text Context_DeadlineExceeded = ''context deadline exceeded''"
| "sentinel_text Os_ErrNotExist = ''file does not exist''"
| "sentinel_text Os_ErrExist = ''file already exists''"

text \<open>
  The text of an error.  The messages of the operating system's errnos are the parameter
  \<open>strerror\<close>; the cassette miss is rendered with \<^verbatim>\<open>%q\<close> and \<^verbatim>\<open>%v\<close>, whose texts are the
  parameters \<open>quote\<close> and \<open>list_text\<close>.
\<close>

record err_fmt =
  strerror :: "errno \<Rightarrow> bytes"
  quote_text :: "bytes \<Rightarrow> bytes"
  list_text :: "bytes list \<Rightarrow> bytes"

fun Error :: "err_fmt \<Rightarrow> goerr \<Rightarrow> bytes" where
  "Error F (Sentinel s) = sentinel_text s"
| "Error F (Errno n) = strerror F n"
| "Error F (Plain t) = t"
| "Error F (Wrapped t e) = t @ Error F e"
| "Error F (WrappedIn t e u) = t @ Error F e @ u"
| "Error F (ExitError p oc so se m) = ExitError_text p oc so se"
| "Error F (CancelError p c) =
     ''processkit: '' @ quoteProgram p @ '' ''
     @ (case c of
          Some e \<Rightarrow> if is_err e Context_DeadlineExceeded then ''context deadline exceeded''
                    else ''cancelled''
        | None \<Rightarrow> ''cancelled'')"
| "Error F (NotFoundError p ds) =
     (if 0 < length ds
      then ''processkit: '' @ quoteProgram p @ '' not found on PATH (searched ''
           @ itoa (int (length ds)) @ '' director'' @ plural (length ds) ''y'' ''ies'' @ '')''
      else ''processkit: '' @ quoteProgram p @ '' not found'')"
| "Error F (StartError p e) =
     ''processkit: failed to start '' @ quoteProgram p @ '': '' @ Error F e"
| "Error F (NotReadyError p pr d c) =
     ''processkit: '' @ quoteProgram p @ '' not ready ('' @ pr @ '' probe) after ''
     @ duration_String d @ (case c of Some e \<Rightarrow> '': '' @ Error F e | None \<Rightarrow> [])"
| "Error F (ResourceLimitError l reason c) =
     (if l \<noteq> []
      then ''processkit: could not enforce '' @ l @ '' limit: '' @ sanitize reason
      else ''processkit: could not enforce resource limits: '' @ sanitize reason)"
| "Error F (CassetteMissError p as dir) =
     ''processkittest: no cassette entry for '' @ quote_text F p @ '' (args '' @ list_text F as
     @ '', dir '' @ quote_text F dir @ '') '' @ encode_rune 0x2014
     @ '' record one, or check program/args/dir''"

section \<open>Clean text\<close>

definition safe_rune :: "nat \<Rightarrow> bool" where
  "safe_rune r \<longleftrightarrow> r = 0x0A \<or> r = 0x09 \<or> (0x20 \<le> r \<and> r \<noteq> 0x7F \<and> \<not> bidi_control r)"

text \<open>Well-formed UTF-8 without control characters or directional overrides.\<close>

definition clean :: "bytes \<Rightarrow> bool" where
  "clean s \<longleftrightarrow> valid_utf8 s \<and> list_all safe_rune (runes s)"

lemma clean_encode_all:
  "(\<And>r. r \<in> set rs \<Longrightarrow> valid_rune r \<and> safe_rune r) \<Longrightarrow> clean (encode_all rs)"
  by (simp add: clean_def valid_utf8_encode_all runes_encode_all_only list_all_iff)

lemma clean_Nil [simp, intro]: "clean []"
  using clean_encode_all [of "[]"] by simp

lemma runes_append_valid: "valid_utf8 s \<Longrightarrow> runes (s @ t) = runes s @ runes t"
  by (metis runes_encode_all runes_valid valid_utf8_def)

lemma valid_utf8_append: "valid_utf8 s \<Longrightarrow> valid_utf8 t \<Longrightarrow> valid_utf8 (s @ t)"
  by (simp add: valid_utf8_def runes_append_valid)

lemma clean_append [intro]: "clean s \<Longrightarrow> clean t \<Longrightarrow> clean (s @ t)"
  by (simp add: clean_def valid_utf8_append runes_append_valid)

lemma clean_concat: "(\<And>s. s \<in> set ss \<Longrightarrow> clean s) \<Longrightarrow> clean (concat ss)"
  by (induction ss) auto

lemma clean_rune: "valid_rune r \<Longrightarrow> safe_rune r \<Longrightarrow> clean (encode_rune r)"
  using clean_encode_all [of "[r]"] by simp

text \<open>
  Text a terminal takes as text, stated apart from the code: well-formed UTF-8 without any control
  character, the C1 ones included, but newline and tab, and without the directional marks, overrides
  and isolates.
\<close>

definition terminal_rune :: "nat \<Rightarrow> bool" where
  "terminal_rune r \<longleftrightarrow> r \<in> {0x09, 0x0A}
    \<or> (0x20 \<le> r \<and> r \<notin> {0x7F..0x9F} \<and> r \<notin> {0x200E, 0x200F} \<and> r \<notin> {0x202A..0x202E} \<and> r \<notin> {0x2066..0x2069})"

definition terminal_safe :: "bytes \<Rightarrow> bool" where
  "terminal_safe s \<longleftrightarrow> valid_utf8 s \<and> (\<forall>r \<in> set (runes s). terminal_rune r)"

text \<open>Bytes in which no C1 control is encoded.\<close>

fun no_C1 :: "bytes \<Rightarrow> bool" where
  "no_C1 (c # d # s) = (\<not> (byte c = 0xC2 \<and> 0x80 \<le> byte d \<and> byte d \<le> 0x9F) \<and> no_C1 (d # s))"
| "no_C1 _ = True"

lemma terminal_safe_iff:
  "terminal_safe s \<longleftrightarrow> clean s \<and> (\<forall>r \<in> set (runes s). r \<notin> {0x80..0x9F})"
  by (auto simp: terminal_safe_def clean_def list_all_iff terminal_rune_def safe_rune_def bidi_control_def)

lemma no_C1_append: "no_C1 (a @ b) \<Longrightarrow> no_C1 a \<and> no_C1 b"
proof (induction a)
  case (Cons c a)
  then show ?case by (cases a; cases b) auto
qed simp

lemma no_C1_sublist: "sublist t s \<Longrightarrow> no_C1 s \<Longrightarrow> no_C1 t"
  by (auto simp: sublist_def dest: no_C1_append)

lemma decode_C1:
  assumes "fst (decode_rune (c # s)) \<in> {0x80..0x9F}"
  shows "\<exists>d t. s = d # t \<and> byte c = 0xC2 \<and> 0x80 \<le> byte d \<and> byte d \<le> 0x9F"
proof -
  have two: "\<lbrakk>0xC2 \<le> b; second_ok b d; b < 0xE0; (b - 0xC0) * 64 + (byte d - 0x80) \<le> 0x9F\<rbrakk>
      \<Longrightarrow> b = 0xC2 \<and> 0x80 \<le> byte d \<and> byte d \<le> 0x9F" for b d
    by (auto simp: second_ok_def second_lo_def second_hi_def)
  have three: "\<lbrakk>0xE0 \<le> b; second_ok b d\<rbrakk> \<Longrightarrow> \<not> (b - 0xE0) * 4096 + (byte d - 0x80) * 64 + x \<le> 0x9F" for b d x
    by (cases "b = 0xE0") (auto simp: second_ok_def second_lo_def)
  have four: "\<lbrakk>0xF0 \<le> b; second_ok b d\<rbrakk>
      \<Longrightarrow> \<not> (b - 0xF0) * 262144 + (byte d - 0x80) * 4096 + x + y \<le> 0x9F" for b d x y
    by (cases "b = 0xF0") (auto simp: second_ok_def second_lo_def)
  show ?thesis
    using assms unfolding decode_rune.simps Let_def
    by (auto simp: rune_error_def not_less not_le split: if_splits list.splits dest: two three four)
qed

lemma no_C1_runes:
  assumes "no_C1 s"
  shows "r \<in> set (runes s) \<Longrightarrow> r \<notin> {0x80..0x9F}"
  using assms
proof (induction "length s" arbitrary: s rule: less_induct)
  case less
  show ?case
  proof (cases s)
    case Nil
    with less.prems show ?thesis by simp
  next
    case (Cons c t)
    let ?n = "snd (decode_rune s)"
    have n: "1 \<le> ?n" using decode_rune_size [of s] Cons by simp
    from less.prems(1) consider "r = fst (decode_rune s)" | "r \<in> set (runes (drop ?n s))"
      by (auto simp: Cons runes_Cons)
    then show ?thesis
    proof cases
      case 1
      then show ?thesis using less.prems(2) decode_C1 [of c t] Cons by (cases t) auto
    next
      case 2
      have "no_C1 (drop ?n s)" using less.prems(2) no_C1_append [of "take ?n s" "drop ?n s"] by simp
      with 2 less.hyps [of "drop ?n s"] n Cons show ?thesis by simp
    qed
  qed
qed

text \<open>Printable ASCII is clean, byte by byte.\<close>

definition printable :: "char \<Rightarrow> bool" where
  "printable c \<longleftrightarrow> 0x20 \<le> byte c \<and> byte c < 0x7F"

lemma clean_printable: "list_all printable s \<Longrightarrow> clean s"
proof (induction s)
  case Nil
  then show ?case by simp
next
  case (Cons c s)
  then have c: "0x20 \<le> byte c" "byte c < 0x7F" by (simp_all add: printable_def)
  then have "encode_rune (byte c) = [c]" by (simp add: encode_rune.simps)
  moreover have "clean (encode_rune (byte c))"
    using c by (intro clean_rune) (auto simp: valid_rune_def safe_rune_def bidi_control_def)
  ultimately show ?case using Cons clean_append [of "[c]" s] by simp
qed

lemma byte_of_digit: "n < 10 \<Longrightarrow> printable (byte_of (48 + n))"
  by (simp add: printable_def)

lemma printable_nat_dec: "list_all printable (nat_dec n)"
proof (induction n rule: nat_dec.induct)
  case (1 n)
  then show ?case
    by (subst nat_dec.simps) (auto simp: byte_of_digit)
qed

lemma clean_itoa [intro]: "clean (itoa i)"
  by (rule clean_printable) (simp add: itoa_def printable_nat_dec printable_def)

lemma all_nat_less_16: "(\<forall>n < 16. P n) \<longleftrightarrow> list_all P [0..<(16::nat)]"
  by (auto simp: list_all_iff)

lemma printable_hexd: "printable (hexd n)"
proof -
  have "\<forall>n < 16. printable (hexd n)"
    unfolding all_nat_less_16 by (simp add: hexd_def printable_def upt_rec)
  then have "printable (hexd (n mod 16))" by simp
  then show ?thesis by (simp add: hexd_def)
qed

section \<open>Sanitised text\<close>

lemma clean_sanitize_rune:
  assumes "valid_rune r"
  shows "clean (sanitize_rune r)"
proof -
  have "safe_rune r \<or> ((r < 0x20 \<or> r = 0x7F) \<and> \<not> safe_rune r) \<or> (bidi_control r \<and> \<not> safe_rune r)"
    by (auto simp: safe_rune_def)
  then consider "safe_rune r" | "r < 0x20 \<or> r = 0x7F" "\<not> safe_rune r"
    | "bidi_control r" "\<not> safe_rune r" by blast
  then show ?thesis
  proof cases
    case 1
    then have "sanitize_rune r = encode_rune r"
      by (auto simp: sanitize_rune_def safe_rune_def)
    then show ?thesis using 1 assms by (simp add: clean_rune)
  next
    case 2
    then have "sanitize_rune r = CHR 0x5C # ''x'' @ hex2 r"
      by (auto simp: sanitize_rune_def safe_rune_def)
    then show ?thesis
      by (auto intro!: clean_printable simp: hex2_def printable_hexd) (simp_all add: printable_def)
  next
    case 3
    then have "sanitize_rune r = CHR 0x5C # ''u'' @ hex4 r"
      by (auto simp: sanitize_rune_def safe_rune_def bidi_control_def)
    then show ?thesis
      by (auto intro!: clean_printable simp: hex4_def printable_hexd) (simp_all add: printable_def)
  qed
qed

lemma clean_sanitize [intro]: "clean (sanitize s)"
  unfolding sanitize_def
  by (rule clean_concat) (auto simp: clean_sanitize_rune dest: runes_valid)

lemma sanitize_clean_id:
  assumes "clean s"
  shows "sanitize s = s"
proof -
  have "map sanitize_rune (runes s) = map encode_rune (runes s)"
    using assms by (auto simp: clean_def list_all_iff sanitize_rune_def safe_rune_def)
  then have "sanitize s = encode_all (runes s)" unfolding sanitize_def encode_all_def by (simp only:)
  then show ?thesis using assms by (simp add: clean_def valid_utf8_def)
qed

lemma length_encode_rune_le: "length (encode_rune r) \<le> 4"
  by (simp add: encode_rune.simps)

lemma decode_rune_size_1:
  "snd (decode_rune s) = 1 \<longrightarrow> fst (decode_rune s) < 0x80 \<or> fst (decode_rune s) = rune_error"
  by (cases s) (simp_all add: decode_rune.simps(2) Let_def split: list.split)

lemma length_sanitize_rune:
  assumes "s \<noteq> []"
  shows "length (sanitize_rune (fst (decode_rune s))) \<le> 4 * snd (decode_rune s)"
proof -
  define r n where "r = fst (decode_rune s)" and "n = snd (decode_rune s)"
  have n: "1 \<le> n" using decode_rune_size [OF assms] by (simp add: n_def)
  have "2 \<le> n" if "bidi_control r"
  proof (rule ccontr)
    assume "\<not> 2 \<le> n"
    with n have "n = 1" by simp
    then have "r < 0x80 \<or> r = rune_error" using decode_rune_size_1 [of s] by (simp add: r_def n_def)
    with that show False by (auto simp: bidi_control_def rune_error_def)
  qed
  then have "length (sanitize_rune r) \<le> 4 * n"
    using n length_encode_rune_le [of r] by (auto simp: sanitize_rune_def hex2_def hex4_def)
  then show ?thesis by (simp add: r_def n_def)
qed

lemma length_sanitize: "length (sanitize s) \<le> 4 * length s"
proof (induction "length s" arbitrary: s rule: less_induct)
  case less
  show ?case
  proof (cases "s = []")
    case True
    then show ?thesis by (simp add: sanitize_def)
  next
    case False
    define n where "n = snd (decode_rune s)"
    have n: "1 \<le> n" "n \<le> length s" using decode_rune_size [OF False] by (auto simp: n_def)
    have "sanitize s = sanitize_rune (fst (decode_rune s)) @ sanitize (drop n s)"
      using False by (simp add: sanitize_def runes_step n_def)
    moreover have "length (sanitize (drop n s)) \<le> 4 * length (drop n s)"
      using less [of "drop n s"] n False by simp
    ultimately show ?thesis
      using length_sanitize_rune [OF False] n by (simp add: n_def [symmetric])
  qed
qed

section \<open>Previews\<close>

lemma rune_cut_le: "rune_cut s n \<le> n"
  by (induction n) auto

lemma rune_cut_start: "rune_cut s n = 0 \<or> rune_start (s ! rune_cut s n)"
  by (induction n) auto

lemma length_preview: "length (preview s) \<le> previewLimit + length ellipsis"
  using rune_cut_le [of s previewLimit] by (auto simp: preview_def)

lemma ellipsis_length [simp]: "length ellipsis = 3"
  by (simp add: ellipsis_def length_encode_rune valid_rune_def)

lemma cont_tail_encode_rune:
  assumes "0 < n" "n < length (encode_rune r)"
  shows "cont (encode_rune r ! n)"
proof -
  have c: "cont (byte_of (0x80 + x mod 64))" for x by (simp add: cont_byte_of)
  have e: "cont (byte_of 0xBF)" "cont (byte_of 0xBD)" by (simp_all add: cont_def)
  have "n = 1 \<or> n = 2 \<or> n = 3" using assms length_encode_rune_le [of r] by linarith
  then show ?thesis using assms(2)
    by (elim disjE) (simp_all add: encode_rune.simps c e split: if_splits)
qed

text \<open>A cut of well-formed text at a rune start is well formed, and keeps whole runes.\<close>

lemma take_encode_all:
  assumes "n < length (encode_all rs)" "n = 0 \<or> rune_start (encode_all rs ! n)"
  shows "\<exists>k. take n (encode_all rs) = encode_all (take k rs)"
  using assms
proof (induction rs arbitrary: n)
  case Nil
  then show ?case by simp
next
  case (Cons r rs)
  show ?case
  proof (cases "n < length (encode_rune r)")
    case True
    have "n = 0"
    proof (rule ccontr)
      assume "n \<noteq> 0"
      then have "cont (encode_rune r ! n)" using True by (simp add: cont_tail_encode_rune)
      then show False using Cons.prems(2) True \<open>n \<noteq> 0\<close>
        by (simp add: nth_append rune_start_def)
    qed
    then show ?thesis by (intro exI [of _ 0]) simp
  next
    case False
    define m where "m = n - length (encode_rune r)"
    have "m < length (encode_all rs)" "m = 0 \<or> rune_start (encode_all rs ! m)"
      using Cons.prems False by (auto simp: m_def nth_append)
    then obtain k where "take m (encode_all rs) = encode_all (take k rs)"
      using Cons.IH by blast
    then show ?thesis using False by (intro exI [of _ "Suc k"]) (simp add: m_def)
  qed
qed

lemma preview_runes:
  assumes "valid_utf8 s" "previewLimit < length s"
  shows "\<exists>k. preview s = encode_all (take k (runes s) @ [0x2026])"
proof -
  have eq: "encode_all (runes s) = s" using assms(1) by (simp add: valid_utf8_def)
  have "rune_cut s previewLimit < length s" using assms(2) rune_cut_le [of s previewLimit] by simp
  then obtain k where "take (rune_cut s previewLimit) s = encode_all (take k (runes s))"
    using take_encode_all [of "rune_cut s previewLimit" "runes s"] rune_cut_start [of s previewLimit]
    unfolding eq by blast
  then show ?thesis using assms(2) by (intro exI [of _ k]) (simp add: preview_def ellipsis_def)
qed

lemma no_C1_preview: "no_C1 s \<Longrightarrow> no_C1 (preview s)"
proof -
  assume s: "no_C1 s"
  have "no_C1 (t @ ellipsis)" if "no_C1 t" for t
    using that by (induction t rule: no_C1.induct) (simp_all add: ellipsis_def encode_rune.simps)
  moreover have "no_C1 (take n s)" for n
    using s no_C1_append [of "take n s" "drop n s"] by simp
  ultimately show ?thesis using s by (simp add: preview_def)
qed

lemma terminal_safe_append: "terminal_safe s \<Longrightarrow> terminal_safe t \<Longrightarrow> terminal_safe (s @ t)"
  by (auto simp: terminal_safe_def valid_utf8_append runes_append_valid)

lemma terminal_safe_printable: "list_all printable s \<Longrightarrow> terminal_safe s"
proof (induction s)
  case Nil
  then show ?case by (simp add: terminal_safe_iff)
next
  case (Cons c s)
  then have c: "0x20 \<le> byte c" "byte c < 0x7F" by (simp_all add: printable_def)
  have e: "encode_rune (byte c) = [c]" using c by (simp add: encode_rune.simps)
  have "clean [c]" using clean_printable [of "[c]"] Cons by simp
  moreover have "runes [c] = [byte c]"
    using runes_encode_all_only [of "[byte c]"] c e by (simp add: valid_rune_def)
  ultimately have "terminal_safe [c]" using c by (simp add: terminal_safe_iff)
  with Cons terminal_safe_append [of "[c]" s] show ?case by simp
qed

lemma runes_sanitize_rune:
  assumes "valid_rune r" "r \<notin> {0x80..0x9F}"
  shows "terminal_safe (sanitize_rune r)"
proof (cases "safe_rune r")
  case True
  then have "sanitize_rune r = encode_rune r" by (auto simp: sanitize_rune_def safe_rune_def)
  moreover have "runes (encode_rune r) = [r]" using runes_encode_all_only [of "[r]"] assms(1) by simp
  ultimately show ?thesis using assms clean_rune [OF assms(1) True] by (simp add: terminal_safe_iff)
next
  case False
  then have "list_all printable (sanitize_rune r)"
    by (auto simp: sanitize_rune_def safe_rune_def bidi_control_def hex2_def hex4_def printable_hexd)
      (simp_all add: printable_def)
  then show ?thesis by (rule terminal_safe_printable)
qed

lemma terminal_safe_concat: "(\<And>s. s \<in> set ss \<Longrightarrow> terminal_safe s) \<Longrightarrow> terminal_safe (concat ss)"
proof (induction ss)
  case Nil
  then show ?case by (simp add: terminal_safe_iff)
next
  case (Cons t ss)
  then show ?case by (auto intro: terminal_safe_append)
qed

lemma terminal_safe_sanitize: "no_C1 s \<Longrightarrow> terminal_safe (sanitize s)"
  unfolding sanitize_def
  by (rule terminal_safe_concat) (auto intro!: runes_sanitize_rune dest: runes_valid no_C1_runes)

lemma terminal_safe_diagnostic: "no_C1 stderr \<Longrightarrow> no_C1 stdout \<Longrightarrow> terminal_safe (diagnostic stderr stdout)"
  using no_C1_sublist [OF trim_space_sublist]
  by (auto simp: diagnostic_def Let_def terminal_safe_printable intro!: terminal_safe_sanitize no_C1_preview)

lemma terminal_safe_itoa: "terminal_safe (itoa i)"
  by (rule terminal_safe_printable) (simp add: itoa_def printable_nat_dec printable_def)

lemma terminal_safe_ascii:
  "terminal_safe ''processkit: ''" "terminal_safe '' timed out''" "terminal_safe '' killed by signal ''"
  "terminal_safe '' exited with code ''" "terminal_safe '' terminated abnormally''" "terminal_safe '': ''"
  "terminal_safe '' ''" "terminal_safe ''context deadline exceeded''" "terminal_safe ''cancelled''"
  "terminal_safe '' not found on PATH (searched ''" "terminal_safe '' director''" "terminal_safe '')''"
  "terminal_safe '' not found''" "terminal_safe ''y''" "terminal_safe ''ies''" "terminal_safe []"
  "terminal_safe ''`<command>`''" "terminal_safe ''`''"
  by (rule terminal_safe_printable, simp add: printable_def)+

lemma terminal_safe_quoteProgram: "no_C1 p \<Longrightarrow> terminal_safe (quoteProgram p)"
  by (auto simp: quoteProgram_def terminal_safe_ascii simp del: append_Cons
      intro!: terminal_safe_append terminal_safe_sanitize)

lemma terminal_safe_ExitError:
  "no_C1 p \<Longrightarrow> no_C1 so \<Longrightarrow> no_C1 se \<Longrightarrow> terminal_safe (ExitError_text p oc so se)"
  unfolding ExitError_text_def Let_def
  by (intro terminal_safe_append)
    (auto simp: terminal_safe_ascii terminal_safe_itoa terminal_safe_quoteProgram terminal_safe_diagnostic
      split: option.split intro!: terminal_safe_append simp del: append_Cons)

lemma length_sanitize_preview: "length (sanitize (preview s)) \<le> 4 * (previewLimit + 3)"
  using length_sanitize [of "preview s"] length_preview [of s] by simp

lemma length_diagnostic: "length (diagnostic stderr stdout) \<le> 4 * (previewLimit + 3)"
  using length_sanitize_preview by (simp add: diagnostic_def Let_def del: distrib_left_numeral)

section \<open>Properties\<close>

text \<open>
  The escaping of errors.go: the output of sanitize is well-formed UTF-8 with no C0
  control character other than newline and tab, no DEL and no bidi override, text that already
  has this form (and only such text) is left as it is, and the output is at most four times as
  long as the input.
\<close>

theorem sanitize_output_clean:
  "clean (sanitize s) \<and> (sanitize s = s \<longleftrightarrow> clean s) \<and> length (sanitize s) \<le> 4 * length s"
  using clean_sanitize [of s] sanitize_clean_id [of s] length_sanitize [of s] by metis

text \<open>
  The preview of a captured stream that is well-formed UTF-8 is well-formed, keeps a
  prefix of whole runes (it never cuts a rune), and is at most 203 bytes long.
\<close>

theorem preview_whole_runes:
  assumes "valid_utf8 s"
  shows "valid_utf8 (preview s) \<and> length (preview s) \<le> 203 \<and>
    (\<exists>k. runes (preview s) = take k (runes s) \<or> runes (preview s) = take k (runes s) @ [0x2026])"
proof (cases "length s \<le> previewLimit")
  case True
  then have "preview s = s" by (simp add: preview_def)
  then show ?thesis using assms True
    by (auto simp: previewLimit_def intro: exI [of _ "length (runes s)"])
next
  case False
  then obtain k where k: "preview s = encode_all (take k (runes s) @ [0x2026])"
    using preview_runes [OF assms] by auto
  have v: "valid_rune r" if "r \<in> set (take k (runes s) @ [0x2026])" for r
    using that by (auto simp: valid_rune_def dest!: in_set_takeD runes_valid)
  have "runes (preview s) = take k (runes s) @ [0x2026]"
    unfolding k by (rule runes_encode_all_only) (rule v)
  moreover have "valid_utf8 (preview s)"
    unfolding k by (rule valid_utf8_encode_all) (rule v)
  ultimately show ?thesis using length_preview [of s] by (auto simp: previewLimit_def)
qed

theorem preview_whole_runes_witness:
  "valid_utf8 (replicate 201 (CHR ''a'')) \<and> length (preview (replicate 201 (CHR ''a''))) \<le> 203"
proof -
  have "encode_all (replicate n 97) = replicate n (CHR ''a'')" for n
    by (induction n) (simp_all add: encode_rune.simps char_of_eq_iff)
  moreover have "valid_utf8 (encode_all (replicate 201 97))"
    by (rule valid_utf8_encode_all) (simp add: valid_rune_def)
  ultimately have v: "valid_utf8 (replicate 201 (CHR ''a''))" by simp
  then show ?thesis using preview_whole_runes [OF v] by blast
qed



section \<open>Where the comments promise more\<close>

lemma clean_no_control:
  assumes "clean s" "c \<in> set s" "byte c < 0x20"
  shows "byte c = 9 \<or> byte c = 10"
proof -
  have s: "s = encode_all (runes s)" using assms(1) by (simp add: clean_def valid_utf8_def)
  then have "c \<in> set (encode_all (runes s))" using assms(2) by simp
  then obtain r where r: "r \<in> set (runes s)" "c \<in> set (encode_rune r)"
    by (auto simp: encode_all_def)
  then have "r = byte c" using assms(3) by (auto intro: byte_in_encode_rune)
  moreover have "safe_rune r" using assms(1) r(1) by (simp add: clean_def list_all_iff)
  ultimately show ?thesis using assms(3) by (auto simp: safe_rune_def)
qed

lemma sanitize_keeps_csi: "sanitize (encode_rune 0x9B) = encode_rune 0x9B"
proof -
  have "runes (encode_rune 0x9B) = [0x9B]"
    using runes_encode_all_only [of "[0x9B]"] by (simp add: valid_rune_def)
  then show ?thesis by (simp add: sanitize_def sanitize_rune_def bidi_control_def)
qed

text \<open>
  Two limits of the rendering.  \<^verbatim>\<open>log.go\<close> calls every error text of the package
  sanitised, but a start error prints its cause verbatim, so an escape byte in it reaches the log;
  and the comment of \<^verbatim>\<open>sanitize\<close> speaks of control characters, but the C1 control U+009B, the
  eight-bit form of the escape sequence introducer, is kept.
\<close>

theorem rendering_limits:
  "\<not> clean (Error F (StartError p (Plain [byte_of 27])))
   \<and> sanitize (encode_rune 0x9B) = encode_rune 0x9B"
proof (intro conjI notI)
  assume "clean (Error F (StartError p (Plain [byte_of 27])))"
  moreover have "byte_of 27 \<in> set (Error F (StartError p (Plain [byte_of 27])))" by simp
  ultimately show False using clean_no_control [of _ "byte_of 27"] by fastforce
qed (rule sanitize_keeps_csi)

end
