(* ===== verification/Log.thy ===== *)
theory Log
  imports Render
begin

text \<open>
  The event catalogue of \<^verbatim>\<open>log.go\<close>.  A logger is present or absent; each method returns the
  events it emits, which is none for an absent logger.  An event is a level, a message and the
  attributes in their order.
\<close>

datatype level = LDebug | LWarn

datatype attr = AString bytes bytes | AInt bytes int

record event =
  ev_level :: level
  ev_msg :: bytes
  ev_attrs :: "attr list"

text \<open>\<^verbatim>\<open>runLog{l}\<close>: whether \<^verbatim>\<open>l\<close> is non-nil.\<close>

type_synonym runLog = bool

definition emit_event :: "runLog \<Rightarrow> level \<Rightarrow> bytes \<Rightarrow> attr list \<Rightarrow> event list" where
  "emit_event l lv msg as =
    (if \<not> l then [] else [\<lparr>ev_level = lv, ev_msg = msg, ev_attrs = as\<rparr>])"

definition errAttr :: "err_fmt \<Rightarrow> goerr option \<Rightarrow> attr" where
  "errAttr F err =
    (case err of None \<Rightarrow> AString ''error'' [] | Some e \<Rightarrow> AString ''error'' (Error F e))"

definition log_spawned :: "runLog \<Rightarrow> bytes \<Rightarrow> int \<Rightarrow> mechanism \<Rightarrow> event list" where
  "log_spawned l program pid mech = emit_event l LDebug ''child spawned''
    [AString ''program'' program, AInt ''pid'' pid, AString ''mechanism'' (mechanism_String mech)]"

definition log_exited :: "runLog \<Rightarrow> bytes \<Rightarrow> outcome \<Rightarrow> duration \<Rightarrow> event list" where
  "log_exited l program oc elapsed = emit_event l LDebug ''process exited''
    [AString ''program'' program, AString ''outcome'' (outcome_String oc),
     AInt ''elapsed_ms'' (milliseconds elapsed)]"

definition log_reapFailed :: "err_fmt \<Rightarrow> runLog \<Rightarrow> bytes \<Rightarrow> goerr \<Rightarrow> event list" where
  "log_reapFailed F l program cause = emit_event l LWarn ''process wait failed; no exit status''
    [AString ''program'' program, errAttr F (Some cause)]"

definition log_cancelled :: "runLog \<Rightarrow> bytes \<Rightarrow> event list" where
  "log_cancelled l program = emit_event l LDebug ''cancellation fired; killing the tree''
    [AString ''program'' program]"

definition log_retrying ::
    "err_fmt \<Rightarrow> runLog \<Rightarrow> bytes \<Rightarrow> int \<Rightarrow> int \<Rightarrow> duration \<Rightarrow> goerr \<Rightarrow> event list" where
  "log_retrying F l program attempt maxAttempts backoff cause =
    emit_event l LDebug ''retrying after a retryable failure''
      [AString ''program'' program, AInt ''attempt'' attempt, AInt ''max_attempts'' maxAttempts,
       AInt ''backoff_ms'' (milliseconds backoff), errAttr F (Some cause)]"

definition log_adopted :: "runLog \<Rightarrow> int \<Rightarrow> mechanism \<Rightarrow> event list" where
  "log_adopted l pid mech = emit_event l LDebug ''adopted an externally spawned child''
    [AInt ''pid'' pid, AString ''mechanism'' (mechanism_String mech)]"

definition log_terminating :: "runLog \<Rightarrow> mechanism \<Rightarrow> event list" where
  "log_terminating l mech = emit_event l LDebug ''terminating every process in the group''
    [AString ''mechanism'' (mechanism_String mech)]"

definition log_shuttingDown :: "runLog \<Rightarrow> mechanism \<Rightarrow> duration \<Rightarrow> event list" where
  "log_shuttingDown l mech grace =
    emit_event l LDebug ''graceful shutdown: signal, grace, then kill''
      [AString ''mechanism'' (mechanism_String mech), AInt ''grace_ms'' (milliseconds grace)]"

definition log_supervisorRestart :: "runLog \<Rightarrow> bytes \<Rightarrow> int \<Rightarrow> duration \<Rightarrow> event list" where
  "log_supervisorRestart l program restart backoff =
    emit_event l LDebug ''supervisor restarting child''
      [AString ''program'' program, AInt ''restart'' restart,
       AInt ''backoff_ms'' (milliseconds backoff)]"

definition log_pipelineStarted :: "runLog \<Rightarrow> bytes \<Rightarrow> int \<Rightarrow> event list" where
  "log_pipelineStarted l program stages = emit_event l LDebug ''pipeline started''
    [AString ''program'' program, AInt ''stages'' stages]"

definition log_pipelineFinished :: "runLog \<Rightarrow> bytes \<Rightarrow> outcome \<Rightarrow> duration \<Rightarrow> event list" where
  "log_pipelineFinished l program oc elapsed = emit_event l LDebug ''pipeline finished''
    [AString ''program'' program, AString ''outcome'' (outcome_String oc),
     AInt ''elapsed_ms'' (milliseconds elapsed)]"

definition log_timedOut :: "runLog \<Rightarrow> bytes \<Rightarrow> duration \<Rightarrow> event list" where
  "log_timedOut l program timeout = emit_event l LWarn ''timeout elapsed; killing the tree''
    [AString ''program'' program, AInt ''timeout_ms'' (milliseconds timeout)]"

definition log_supervisorStorm :: "runLog \<Rightarrow> bytes \<Rightarrow> duration \<Rightarrow> event list" where
  "log_supervisorStorm l program pause =
    emit_event l LWarn ''supervisor failure storm; pausing restarts''
      [AString ''program'' program, AInt ''pause_ms'' (milliseconds pause)]"

section \<open>What an event may carry\<close>

text \<open>
  The catalogue: the level, the fixed message and the attribute keys of each event, but for those that
  carry an error text.
\<close>

definition event_catalogue :: "(level \<times> bytes \<times> bytes list) list" where
  "event_catalogue =
    [(LDebug, ''child spawned'', [''program'', ''pid'', ''mechanism'']),
     (LDebug, ''process exited'', [''program'', ''outcome'', ''elapsed_ms'']),
     (LDebug, ''cancellation fired; killing the tree'', [''program'']),
     (LDebug, ''adopted an externally spawned child'', [''pid'', ''mechanism'']),
     (LDebug, ''terminating every process in the group'', [''mechanism'']),
     (LDebug, ''graceful shutdown: signal, grace, then kill'', [''mechanism'', ''grace_ms'']),
     (LDebug, ''supervisor restarting child'', [''program'', ''restart'', ''backoff_ms'']),
     (LDebug, ''pipeline started'', [''program'', ''stages'']),
     (LDebug, ''pipeline finished'', [''program'', ''outcome'', ''elapsed_ms'']),
     (LWarn, ''timeout elapsed; killing the tree'', [''program'', ''timeout_ms'']),
     (LWarn, ''supervisor failure storm; pausing restarts'', [''program'', ''pause_ms''])]"

fun attr_key :: "attr \<Rightarrow> bytes" where
  "attr_key (AInt k i) = k"
| "attr_key (AString k v) = k"

text \<open>
  The strings the documentation allows as values in an event about a program: its name, the rendering
  of a mechanism and the rendering of an outcome.  Numbers are always allowed.
\<close>

fun attr_allowed :: "bytes \<Rightarrow> attr \<Rightarrow> bool" where
  "attr_allowed program (AInt k i) = True"
| "attr_allowed program (AString k v) =
    ((k = ''program'' \<and> v = program) \<or> (k = ''mechanism'' \<and> (\<exists>m. v = mechanism_String m))
     \<or> (k = ''outcome'' \<and> (\<exists>oc. v = outcome_String oc)))"

definition event_allowed :: "bytes \<Rightarrow> event \<Rightarrow> bool" where
  "event_allowed program ev \<longleftrightarrow>
    (ev_level ev, ev_msg ev, map attr_key (ev_attrs ev)) \<in> set event_catalogue
    \<and> list_all (attr_allowed program) (ev_attrs ev)"

lemma lifecycle_events_allowed [simp, intro]:
  "list_all (event_allowed program) (log_spawned l program pid mech)"
  "list_all (event_allowed program) (log_exited l program oc elapsed)"
  "list_all (event_allowed program) (log_cancelled l program)"
  "list_all (event_allowed program) (log_adopted l pid mech)"
  "list_all (event_allowed program) (log_terminating l mech)"
  "list_all (event_allowed program) (log_shuttingDown l mech grace)"
  "list_all (event_allowed program) (log_supervisorRestart l program restart backoff)"
  "list_all (event_allowed program) (log_supervisorStorm l program pause)"
  "list_all (event_allowed program) (log_pipelineStarted l program n)"
  "list_all (event_allowed program) (log_pipelineFinished l program oc elapsed)"
  "list_all (event_allowed program) (log_timedOut l program timeout)"
  by (auto simp: emit_event_def event_allowed_def event_catalogue_def log_spawned_def log_exited_def
      log_cancelled_def log_adopted_def log_terminating_def log_shuttingDown_def
      log_supervisorRestart_def log_supervisorStorm_def log_pipelineStarted_def
      log_pipelineFinished_def log_timedOut_def)

end
