(* ===== verification/Machine.thy ===== *)
theory Machine
  imports Log "HOL-Library.State_Monad"
begin

text \<open>
  The stateful setting the orchestration code runs in.  The machine state is the outside world, a
  parameter of the model, with two ghost fields: the operating-system calls made so far and the
  log events emitted so far.  Everything the code asks of the operating system, of a context or
  of the containment job is a field of a platform record: a function from the world to a result
  and a new world, so that every failure, every duration and every moment at which a context may
  be cancelled is a choice of the platform.  Programs are written in the state monad of the
  library; \<open>wp\<close> is its weakest-precondition transformer, with a simplification rule per operation.
\<close>

section \<open>Invocations\<close>

text \<open>
  A standard input is a one-shot reader (a reference to an \<^verbatim>\<open>io.Reader\<close>), a fresh reader over
  a byte buffer, or the read end of one of a pipeline's pipes.  A standard output goes to a capture
  buffer, to the write end of such a pipe, to nowhere, or to a pipe read by a drain.
\<close>

datatype stdin_src = ReaderRef nat | BytesReader bytes | PipeRead nat

datatype stdout_dst = ToBuffer | ToPipe nat | ToNull | ToDrain

record invocation =
  inv_Program :: bytes
  inv_Args :: "bytes list"
  inv_Dir :: bytes
  inv_Env :: "bytes list option"
  inv_OkCodes :: "int list"
  inv_Timeout :: duration
  inv_Stdin :: "stdin_src option"

section \<open>The platform and the machine state\<close>

type_synonym ctx = nat
type_synonym pid = int

text \<open>\<^verbatim>\<open>sys.Mechanism\<close>, in the order of its constants.\<close>

datatype sys_mechanism = Sys_Unknown | Sys_JobObject | Sys_CgroupV2 | Sys_ProcessGroup

datatype call =
    CNewJob bool
  | CConfigure bool
  | CPipe bool
  | CStart "stdin_src option" stdout_dst "pid option"
  | CAssign pid bool
  | CClosePipes nat
  | CWait pid
  | CKillProc pid
  | CKill
  | CClose
  | CRunOutput invocation
  | CSleep duration bool
  | CStdPipe bool bool
  | CCloseReader bool
  | CAdopt pid bool
  | CSignal int bool
  | CSuspend bool
  | CResume bool
  | CTimer duration
  | CAwait pid bool

record 'w platform =
  p_unix :: bool
  p_fmt :: err_fmt
  p_ctxErr :: "ctx \<Rightarrow> 'w \<Rightarrow> goerr option \<times> 'w"
  p_withTimeout :: "ctx \<Rightarrow> duration \<Rightarrow> 'w \<Rightarrow> ctx \<times> 'w"
  p_now :: "'w \<Rightarrow> int \<times> 'w"
  p_timer :: "ctx \<Rightarrow> duration \<Rightarrow> 'w \<Rightarrow> bool \<times> 'w"
  p_PATH :: "'w \<Rightarrow> bytes"
  p_newJob :: "'w \<Rightarrow> (goerr + sys_mechanism) \<times> 'w"
  p_configure :: "invocation \<Rightarrow> 'w \<Rightarrow> goerr option \<times> 'w"
  p_pipe :: "'w \<Rightarrow> goerr option \<times> 'w"
  p_start :: "ctx \<Rightarrow> invocation \<Rightarrow> stdout_dst \<Rightarrow> 'w \<Rightarrow> (goerr + pid) \<times> 'w"
  p_assign :: "pid \<Rightarrow> 'w \<Rightarrow> goerr option \<times> 'w"
  p_closePipes :: "nat \<Rightarrow> 'w \<Rightarrow> 'w"
  p_wait :: "pid \<Rightarrow> 'w \<Rightarrow> (processState option \<times> goerr option) \<times> 'w"
  p_killProc :: "pid \<Rightarrow> 'w \<Rightarrow> 'w"
  p_stdout :: "pid \<Rightarrow> 'w \<Rightarrow> bytes"
  p_stderr :: "pid \<Rightarrow> 'w \<Rightarrow> bytes"
  p_kill :: "'w \<Rightarrow> goerr option \<times> 'w"
  p_close :: "'w \<Rightarrow> goerr option \<times> 'w"

record 'w mach =
  m_world :: 'w
  m_calls :: "call list"
  m_logs :: "event list"

definition os_call :: "('w \<Rightarrow> 'a \<times> 'w) \<Rightarrow> ('a \<Rightarrow> call list) \<Rightarrow> ('w mach, 'a) state" where
  "os_call f c = State (\<lambda>m. case f (m_world m) of
     (a, w') \<Rightarrow> (a, m\<lparr>m_world := w', m_calls := m_calls m @ c a\<rparr>))"

definition log_events :: "event list \<Rightarrow> ('w mach, unit) state" where
  "log_events evs = State (\<lambda>m. ((), m\<lparr>m_logs := m_logs m @ evs\<rparr>))"

definition read_world :: "('w \<Rightarrow> 'a) \<Rightarrow> ('w mach, 'a) state" where
  "read_world f = State (\<lambda>m. (f (m_world m), m))"

definition ctxErr :: "'w platform \<Rightarrow> ctx \<Rightarrow> ('w mach, goerr option) state" where
  "ctxErr P ctx = os_call (p_ctxErr P ctx) (\<lambda>_. [])"

definition withTimeout :: "'w platform \<Rightarrow> ctx \<Rightarrow> duration \<Rightarrow> ('w mach, ctx) state" where
  "withTimeout P ctx d = os_call (p_withTimeout P ctx d) (\<lambda>_. [])"

definition time_now :: "'w platform \<Rightarrow> ('w mach, int) state" where
  "time_now P = os_call (p_now P) (\<lambda>_. [])"

definition newJob :: "'w platform \<Rightarrow> ('w mach, goerr + sys_mechanism) state" where
  "newJob P = os_call (p_newJob P) (\<lambda>r. [CNewJob (\<not> isl r)])"

definition configure :: "'w platform \<Rightarrow> invocation \<Rightarrow> ('w mach, goerr option) state" where
  "configure P iv = os_call (p_configure P iv) (\<lambda>r. [CConfigure (r = None)])"

definition os_Pipe :: "'w platform \<Rightarrow> ('w mach, goerr option) state" where
  "os_Pipe P = os_call (p_pipe P) (\<lambda>r. [CPipe (r = None)])"

definition cmd_Start ::
    "'w platform \<Rightarrow> ctx \<Rightarrow> invocation \<Rightarrow> stdout_dst \<Rightarrow> ('w mach, goerr + pid) state" where
  "cmd_Start P ctx iv out =
    os_call (p_start P ctx iv out)
      (\<lambda>r. [CStart (inv_Stdin iv) out (case r of Inl _ \<Rightarrow> None | Inr p \<Rightarrow> Some p)])"

definition job_Assign :: "'w platform \<Rightarrow> pid \<Rightarrow> ('w mach, goerr option) state" where
  "job_Assign P p = os_call (p_assign P p) (\<lambda>r. [CAssign p (r = None)])"

definition close_Pipes :: "'w platform \<Rightarrow> nat \<Rightarrow> ('w mach, unit) state" where
  "close_Pipes P n = os_call (\<lambda>w. ((), p_closePipes P n w)) (\<lambda>_. [CClosePipes n])"

definition cmd_Wait ::
    "'w platform \<Rightarrow> pid \<Rightarrow> ('w mach, processState option \<times> goerr option) state" where
  "cmd_Wait P p = os_call (p_wait P p) (\<lambda>_. [CWait p])"

definition kill_Proc :: "'w platform \<Rightarrow> pid \<Rightarrow> ('w mach, unit) state" where
  "kill_Proc P p = os_call (\<lambda>w. ((), p_killProc P p w)) (\<lambda>_. [CKillProc p])"

definition job_Kill :: "'w platform \<Rightarrow> ('w mach, goerr option) state" where
  "job_Kill P = os_call (p_kill P) (\<lambda>_. [CKill])"

definition job_Close :: "'w platform \<Rightarrow> ('w mach, goerr option) state" where
  "job_Close P = os_call (p_close P) (\<lambda>_. [CClose])"

definition outcomeOf :: "'w platform \<Rightarrow> processState \<Rightarrow> outcome" where
  "outcomeOf P ps = (if p_unix P then outcomeOf_unix ps else outcomeOf_windows ps)"

lemma built_outcomeOf_platform [simp]: "built (outcomeOf P ps)"
  by (simp add: outcomeOf_def)

section \<open>Weakest preconditions\<close>

definition wp :: "('s, 'a) state \<Rightarrow> ('a \<Rightarrow> 's \<Rightarrow> bool) \<Rightarrow> 's \<Rightarrow> bool" where
  "wp c Q s = (case run_state c s of (a, s') \<Rightarrow> Q a s')"

named_theorems wp_simps \<open>weakest preconditions of the machine's operations\<close>

lemma wp_run: "wp c Q s \<Longrightarrow> run_state c s = (a, s') \<Longrightarrow> Q a s'"
  by (simp add: wp_def)

lemma wp_mono: "wp c Q s \<Longrightarrow> (\<And>a s'. Q a s' \<Longrightarrow> R a s') \<Longrightarrow> wp c R s"
  by (auto simp: wp_def)

lemma wp_conj: "wp c Q s \<Longrightarrow> wp c R s \<Longrightarrow> wp c (\<lambda>a s'. Q a s' \<and> R a s') s"
  by (auto simp: wp_def)

lemma wp_return [wp_simps]: "wp (State_Monad.return a) Q s = Q a s"
  by (simp add: wp_def)

lemma wp_bind [wp_simps]: "wp (State_Monad.bind c f) Q s = wp c (\<lambda>a. wp (f a) Q) s"
  by (auto simp: wp_def split: prod.split)

lemma wp_bindI: "wp c (\<lambda>a. wp (f a) Q) s \<Longrightarrow> wp (State_Monad.bind c f) Q s"
  by (simp add: wp_bind)

lemma wp_os_call [wp_simps]:
  "wp (os_call f c) Q m \<longleftrightarrow>
    (\<forall>a w'. f (m_world m) = (a, w') \<longrightarrow> Q a (m\<lparr>m_world := w', m_calls := m_calls m @ c a\<rparr>))"
  by (auto simp: wp_def os_call_def split: prod.split)

lemma wp_log_events [wp_simps]:
  "wp (log_events evs) Q m = Q () (m\<lparr>m_logs := m_logs m @ evs\<rparr>)"
  by (simp add: wp_def log_events_def)

lemma wp_read_world [wp_simps]: "wp (read_world f) Q m = Q (f (m_world m)) m"
  by (simp add: wp_def read_world_def)

lemma run_state_os_call [simp]:
  "run_state (os_call f c) m =
    (fst (f (m_world m)),
     m\<lparr>m_world := snd (f (m_world m)), m_calls := m_calls m @ c (fst (f (m_world m)))\<rparr>)"
  by (simp add: os_call_def split: prod.split)

lemma run_state_log_events [simp]:
  "run_state (log_events evs) m = ((), m\<lparr>m_logs := m_logs m @ evs\<rparr>)"
  by (simp add: log_events_def)

lemma run_state_read_world [simp]: "run_state (read_world f) m = (f (m_world m), m)"
  by (simp add: read_world_def)

lemmas os_defs = ctxErr_def withTimeout_def time_now_def newJob_def configure_def os_Pipe_def
  cmd_Start_def job_Assign_def close_Pipes_def cmd_Wait_def kill_Proc_def job_Kill_def
  job_Close_def

section \<open>Traces\<close>

text \<open>
  \<open>emits_on calls c m P\<close>: the run of \<open>c\<close> from \<open>m\<close> appends some calls to the trace \<open>calls\<close> reads, which
  together with the answer satisfy \<open>P\<close>.
\<close>

definition emits_on ::
    "('s \<Rightarrow> 'c list) \<Rightarrow> ('s, 'a) state \<Rightarrow> 's \<Rightarrow> ('c list \<Rightarrow> 'a \<Rightarrow> bool) \<Rightarrow> bool" where
  "emits_on calls c m P = wp c (\<lambda>r m'. \<exists>tr. calls m' = calls m @ tr \<and> P tr r) m"

lemma emits_return [intro]: "P [] a \<Longrightarrow> emits_on calls (State_Monad.return a) m P"
  by (simp add: emits_on_def wp_return)

lemma emits_bind:
  assumes "emits_on calls c m P" "\<And>tr a m'. P tr a \<Longrightarrow> emits_on calls (f a) m' (\<lambda>tr' r. Q (tr @ tr') r)"
  shows "emits_on calls (State_Monad.bind c f) m Q"
  using assms(1) unfolding emits_on_def wp_bind
proof (rule wp_mono)
  fix a m'
  assume "\<exists>tr. calls m' = calls m @ tr \<and> P tr a"
  then obtain tr where tr: "calls m' = calls m @ tr" "P tr a" by blast
  from assms(2) [OF tr(2), of m'] show "wp (f a) (\<lambda>r m'. \<exists>tr. calls m' = calls m @ tr \<and> Q tr r) m'"
    unfolding emits_on_def by (rule wp_mono) (use tr(1) in auto)
qed

lemma emits_mono: "emits_on calls c m P \<Longrightarrow> (\<And>tr r. P tr r \<Longrightarrow> Q tr r) \<Longrightarrow> emits_on calls c m Q"
  unfolding emits_on_def by (erule wp_mono) blast

lemma emits_if:
  "(b \<Longrightarrow> emits_on calls c m P) \<Longrightarrow> (\<not> b \<Longrightarrow> emits_on calls d m P) \<Longrightarrow>
    emits_on calls (if b then c else d) m P"
  by simp

lemma emits_run: "emits_on calls c m P \<Longrightarrow> run_state c m = (r, m') \<Longrightarrow> \<exists>tr. calls m' = calls m @ tr \<and> P tr r"
  unfolding emits_on_def by (drule wp_run)

lemma emits_os_call: "(\<And>a. P (c a) a) \<Longrightarrow> emits_on m_calls (os_call f c) m P"
  by (auto simp: emits_on_def wp_os_call)

lemma emits_log: "P [] () \<Longrightarrow> emits_on m_calls (log_events evs) m P"
  by (auto simp: emits_on_def wp_log_events)

lemma emits_read: "(\<And>a. P [] a) \<Longrightarrow> emits_on m_calls (read_world f) m P"
  by (auto simp: emits_on_def wp_read_world)

text \<open>
  A trace of calls leaves no orphan if after each successful start the process is waited for, the
  job is killed and the job is closed.
\<close>

fun no_orphan :: "call list \<Rightarrow> bool" where
  "no_orphan [] = True"
| "no_orphan (CStart si so (Some p) # tr) =
    (CWait p \<in> set tr \<and> CKill \<in> set tr \<and> CClose \<in> set tr \<and> no_orphan tr)"
| "no_orphan (_ # tr) = no_orphan tr"

lemma no_orphan_no_start:
  "(\<And>si so p. CStart si so (Some p) \<notin> set tr) \<Longrightarrow> no_orphan tr"
  by (induction tr rule: no_orphan.induct) auto

lemma no_orphan_appendI:
  assumes "no_orphan tr'" "\<And>si so p. CStart si so (Some p) \<in> set tr \<Longrightarrow> CWait p \<in> set tr'"
    "CKill \<in> set tr'" "CClose \<in> set tr'"
  shows "no_orphan (tr @ tr')"
  using assms(2)
proof (induction tr rule: no_orphan.induct)
  case (2 si so p tr)
  then have "CWait p \<in> set tr'" by (metis list.set_intros(1))
  with 2 show ?case using assms by (auto simp: image_iff)
qed (use assms in \<open>simp_all, (blast)?\<close>)

lemma no_orphan_drop: "no_orphan (xs @ ys) \<Longrightarrow> no_orphan ys"
  by (induction xs rule: no_orphan.induct) auto

lemma no_orphanD:
  "no_orphan (xs @ CStart si so (Some p) # ys) \<Longrightarrow>
    CWait p \<in> set ys \<and> CKill \<in> set ys \<and> CClose \<in> set ys"
  by (drule no_orphan_drop) simp

section \<open>A quiet platform\<close>

text \<open>
  A concrete platform on which every call succeeds and the child exits with the given status,
  used to exhibit runs: the world is the list of starts so far.
\<close>

definition quiet_platform :: "processState \<Rightarrow> goerr option \<Rightarrow> nat platform" where
  "quiet_platform ps ctx_error =
    \<lparr>p_unix = True,
     p_fmt = \<lparr>strerror = (\<lambda>_. []), quote_text = (\<lambda>s. s), list_text = concat\<rparr>,
     p_ctxErr = (\<lambda>c w. (if w = 0 then None else ctx_error, w)),
     p_withTimeout = (\<lambda>c d w. (Suc c, w)),
     p_now = (\<lambda>w. (int w, w)),
     p_timer = (\<lambda>c d w. (True, w)),
     p_PATH = (\<lambda>w. []),
     p_newJob = (\<lambda>w. (Inr Sys_ProcessGroup, w)),
     p_configure = (\<lambda>iv w. (None, w)),
     p_pipe = (\<lambda>w. (None, w)),
     p_start = (\<lambda>c iv out w. (Inr (int w + 100), Suc w)),
     p_assign = (\<lambda>p w. (None, w)),
     p_closePipes = (\<lambda>n w. w),
     p_wait = (\<lambda>p w. ((Some ps, None), w)),
     p_killProc = (\<lambda>p w. w),
     p_stdout = (\<lambda>p w. ''out''),
     p_stderr = (\<lambda>p w. ''err''),
     p_kill = (\<lambda>w. (None, w)),
     p_close = (\<lambda>w. (None, w))\<rparr>"

definition mach0 :: "'w \<Rightarrow> 'w mach" where
  "mach0 w = \<lparr>m_world = w, m_calls = [], m_logs = []\<rparr>"

definition inv0 :: invocation where
  "inv0 = \<lparr>inv_Program = ''git'', inv_Args = [''status''], inv_Dir = [], inv_Env = None,
     inv_OkCodes = [], inv_Timeout = 0, inv_Stdin = None\<rparr>"

end
