(* ===== verification/Runner.thy ===== *)
theory Runner
  imports Machine
begin

text \<open>
  One contained run (\<^verbatim>\<open>runner.go\<close>): the real runner \<^verbatim>\<open>JobRunner.Output\<close> with its deferred
  close, the precedence of cancellation over timeout over exit status, and the classification of
  start failures.  \<open>process_runner\<close> is the interface \<^verbatim>\<open>ProcessRunner\<close> the verbs, retries and
  supervision rest on, with the law every runner of the repository keeps: a result speaks about
  the invocation it was made for.
\<close>

type_synonym 'w runner = "ctx \<Rightarrow> invocation \<Rightarrow> ('w mach, goerr + result) state"

fun toMechanism :: "sys_mechanism \<Rightarrow> mechanism" where
  "toMechanism Sys_JobObject = MechanismJobObject"
| "toMechanism Sys_ProcessGroup = MechanismProcessGroup"
| "toMechanism Sys_CgroupV2 = MechanismCgroupV2"
| "toMechanism Sys_Unknown = MechanismUnknown"

section \<open>Precedence of outcomes\<close>

definition resolveOutcome :: "'w platform \<Rightarrow> processState option \<Rightarrow> bool \<Rightarrow> outcome" where
  "resolveOutcome P ps deadlineFired =
    (if deadlineFired then timedOut
     else (case ps of Some st \<Rightarrow> outcomeOf P st | None \<Rightarrow> exited 0))"

text \<open>
  \<^verbatim>\<open>cancelledBy\<close> reads the parent context twice: once for the test, once for the cause.
\<close>

definition cancelledBy :: "'w platform \<Rightarrow> ctx \<Rightarrow> bytes \<Rightarrow> ('w mach, goerr option) state" where
  "cancelledBy P parent program = do {
     e \<leftarrow> ctxErr P parent;
     if e \<noteq> None then do {
       cause \<leftarrow> ctxErr P parent;
       State_Monad.return (Some (CancelError program cause))
     } else State_Monad.return None
   }"

text \<open>\<^verbatim>\<open>searchedPath\<close>, with the Unix list separator.\<close>

definition searchedPath :: "'w platform \<Rightarrow> bytes \<Rightarrow> 'w \<Rightarrow> bytes list" where
  "searchedPath P program w =
    (if CHR ''/'' \<in> set program \<or> CHR 0x5C \<in> set program then []
     else if p_PATH P w = [] then []
     else split_on (CHR '':'') (p_PATH P w))"

definition startErr :: "'w platform \<Rightarrow> bytes \<Rightarrow> goerr \<Rightarrow> ('w mach, goerr) state" where
  "startErr P program err =
    (if is_err err Exec_ErrNotFound
     then do {
       ds \<leftarrow> read_world (searchedPath P program);
       State_Monad.return (NotFoundError program ds)
     }
     else State_Monad.return (StartError program err))"

definition deadlineFired :: "'w platform \<Rightarrow> ctx \<Rightarrow> ('w mach, bool) state" where
  "deadlineFired P runCtx = do {
     e \<leftarrow> ctxErr P runCtx;
     State_Monad.return (case e of None \<Rightarrow> False | Some err \<Rightarrow> is_err err Context_DeadlineExceeded)
   }"

section \<open>JobRunner.Output\<close>

text \<open>The part after a successful assignment: wait, reap, decide.\<close>

definition JobRunner_finish ::
    "'w platform \<Rightarrow> runLog \<Rightarrow> ctx \<Rightarrow> ctx \<Rightarrow> mechanism \<Rightarrow> invocation \<Rightarrow> int \<Rightarrow> pid
     \<Rightarrow> ('w mach, goerr + result) state" where
  "JobRunner_finish P l parent runCtx mech iv start p = do {
     log_events (log_spawned l (inv_Program iv) p mech);
     (ps, waitErr) \<leftarrow> cmd_Wait P p;
     now \<leftarrow> time_now P;
     _ \<leftarrow> job_Kill P;
     cerr \<leftarrow> cancelledBy P parent (inv_Program iv);
     case cerr of
       Some e \<Rightarrow> do {
         log_events (log_cancelled l (inv_Program iv));
         State_Monad.return (Inl e)
       }
     | None \<Rightarrow> do {
         fired \<leftarrow> (if 0 < inv_Timeout iv then deadlineFired P runCtx else State_Monad.return False);
         (if fired then log_events (log_timedOut l (inv_Program iv) (inv_Timeout iv))
          else State_Monad.return ());
         if \<not> fired \<and> ps = None \<and> waitErr \<noteq> None
         then State_Monad.return (Inl (StartError (inv_Program iv) (the waitErr)))
         else do {
           log_events (log_exited l (inv_Program iv) (resolveOutcome P ps fired) (now - start));
           so \<leftarrow> read_world (p_stdout P p);
           se \<leftarrow> read_world (p_stderr P p);
           State_Monad.return (Inr
             \<lparr>r_program = inv_Program iv, r_args = inv_Args iv,
              r_outcome = resolveOutcome P ps fired, r_stdout = so,
              r_stderr = normalizeNewlines se, r_duration = now - start,
              r_okCodes = inv_OkCodes iv, r_mechanism = mech\<rparr>)
         }
       }
   }"

text \<open>The part between the creation of the job and its deferred close.\<close>

definition JobRunner_contained ::
    "'w platform \<Rightarrow> runLog \<Rightarrow> ctx \<Rightarrow> ctx \<Rightarrow> mechanism \<Rightarrow> invocation
     \<Rightarrow> ('w mach, goerr + result) state" where
  "JobRunner_contained P l parent runCtx mech iv = do {
     cfg \<leftarrow> configure P iv;
     case cfg of
       Some err \<Rightarrow> State_Monad.return (Inl (StartError (inv_Program iv) err))
     | None \<Rightarrow> do {
         start \<leftarrow> time_now P;
         st \<leftarrow> cmd_Start P runCtx iv ToBuffer;
         case st of
           Inl err \<Rightarrow> do {
             cerr \<leftarrow> cancelledBy P parent (inv_Program iv);
             case cerr of
               Some e \<Rightarrow> State_Monad.return (Inl e)
             | None \<Rightarrow> do {
                 e \<leftarrow> startErr P (inv_Program iv) err;
                 State_Monad.return (Inl e)
               }
           }
         | Inr p \<Rightarrow> do {
             asg \<leftarrow> job_Assign P p;
             case asg of
               Some err \<Rightarrow> do {
                 _ \<leftarrow> job_Kill P;
                 _ \<leftarrow> cmd_Wait P p;
                 cerr \<leftarrow> cancelledBy P parent (inv_Program iv);
                 State_Monad.return (Inl (case cerr of Some e \<Rightarrow> e
                   | None \<Rightarrow> StartError (inv_Program iv) err))
               }
             | None \<Rightarrow> JobRunner_finish P l parent runCtx mech iv start p
           }
       }
   }"

definition JobRunner_Output :: "'w platform \<Rightarrow> runLog \<Rightarrow> 'w runner" where
  "JobRunner_Output P l parent iv = do {
     runCtx \<leftarrow> (if 0 < inv_Timeout iv then withTimeout P parent (inv_Timeout iv)
                else State_Monad.return parent);
     c \<leftarrow> cancelledBy P parent (inv_Program iv);
     case c of
       Some e \<Rightarrow> State_Monad.return (Inl e)
     | None \<Rightarrow> do {
         j \<leftarrow> newJob P;
         case j of
           Inl err \<Rightarrow> State_Monad.return (Inl (StartError (inv_Program iv) err))
         | Inr mech \<Rightarrow> do {
             r \<leftarrow> JobRunner_contained P l parent runCtx (toMechanism mech) iv;
             _ \<leftarrow> job_Close P;
             State_Monad.return r
           }
       }
   }"

text \<open>The exported constructor of results for fake runners (\<^verbatim>\<open>NewResult\<close>).\<close>

definition newResult :: "invocation \<Rightarrow> outcome \<Rightarrow> bytes \<Rightarrow> bytes \<Rightarrow> result" where
  "newResult iv oc stdout stderr =
    \<lparr>r_program = inv_Program iv, r_args = inv_Args iv, r_outcome = oc, r_stdout = stdout,
     r_stderr = normalizeNewlines stderr, r_duration = 0, r_okCodes = inv_OkCodes iv,
     r_mechanism = MechanismUnknown\<rparr>"

section \<open>Lemmas on the parts\<close>

lemma wp_cancelledBy [wp_simps]:
  "wp (cancelledBy P parent program) Q m \<longleftrightarrow>
    (\<forall>e w1. p_ctxErr P parent (m_world m) = (e, w1) \<longrightarrow>
      (if e = None then Q None (m\<lparr>m_world := w1\<rparr>)
       else (\<forall>c w2. p_ctxErr P parent w1 = (c, w2) \<longrightarrow>
               Q (Some (CancelError program c)) (m\<lparr>m_world := w2\<rparr>))))"
  by (auto simp: cancelledBy_def ctxErr_def wp_simps)

lemma wp_deadlineFired [wp_simps]:
  "wp (deadlineFired P c) Q m \<longleftrightarrow>
    (\<forall>e w1. p_ctxErr P c (m_world m) = (e, w1) \<longrightarrow>
      Q (case e of None \<Rightarrow> False | Some err \<Rightarrow> is_err err Context_DeadlineExceeded)
        (m\<lparr>m_world := w1\<rparr>))"
  by (auto simp: deadlineFired_def ctxErr_def wp_simps)

lemma wp_startErr [wp_simps]:
  "wp (startErr P program err) Q m \<longleftrightarrow>
    (if is_err err Exec_ErrNotFound
     then Q (NotFoundError program (searchedPath P program (m_world m))) m
     else Q (StartError program err) m)"
  by (simp add: startErr_def wp_simps)

text \<open>What a run may do to the machine: extend the trace and the log.\<close>

definition run_extends :: "(call list \<Rightarrow> bool) \<Rightarrow> (event list \<Rightarrow> bool) \<Rightarrow> 'w mach \<Rightarrow> 'w mach \<Rightarrow> bool" where
  "run_extends G L m m' \<longleftrightarrow>
    (\<exists>tr evs. m_calls m' = m_calls m @ tr \<and> G tr \<and> m_logs m' = m_logs m @ evs \<and> L evs)"

lemma wp_JobRunner_finish:
  "wp (JobRunner_finish P l parent runCtx mech iv start p)
     (\<lambda>res m'. run_extends (\<lambda>tr. tr = [CWait p, CKill])
                 (list_all (event_allowed (inv_Program iv))) m m'
        \<and> (case res of Inl e \<Rightarrow> True
           | Inr r \<Rightarrow> r_program r = inv_Program iv \<and> r_args r = inv_Args iv
                \<and> r_okCodes r = inv_OkCodes iv \<and> r_mechanism r = mech \<and> built (r_outcome r))) m"
  unfolding JobRunner_finish_def
  by (simp add: wp_simps os_defs)
    (auto simp: wp_simps os_defs run_extends_def resolveOutcome_def split: option.split)

section \<open>The calls of a run\<close>

text \<open>The call sequences between the creation of a job and its close.\<close>

inductive contained_trace :: "call list \<Rightarrow> bool" where
  configure_fails: "contained_trace [CConfigure False]"
| start_fails: "contained_trace [CConfigure True, CStart si ToBuffer None]"
| assign_fails:
    "contained_trace [CConfigure True, CStart si ToBuffer (Some p), CAssign p False, CKill, CWait p]"
| runs: "contained_trace [CConfigure True, CStart si ToBuffer (Some p), CAssign p True, CWait p, CKill]"

inductive output_trace :: "call list \<Rightarrow> bool" where
  cancelled_early: "output_trace []"
| no_job: "output_trace [CNewJob False]"
| contained: "contained_trace tr \<Longrightarrow> output_trace (CNewJob True # tr @ [CClose])"

lemma output_trace_no_orphan: "output_trace tr \<Longrightarrow> no_orphan tr"
  by (auto elim!: output_trace.cases contained_trace.cases)

lemma wp_JobRunner_contained:
  "wp (JobRunner_contained P l parent runCtx mech iv)
     (\<lambda>res m'. run_extends contained_trace (list_all (event_allowed (inv_Program iv))) m m'
        \<and> (case res of Inl e \<Rightarrow> True
           | Inr r \<Rightarrow> r_program r = inv_Program iv \<and> r_args r = inv_Args iv
                \<and> r_okCodes r = inv_OkCodes iv \<and> r_mechanism r = mech \<and> built (r_outcome r))) m"
  unfolding JobRunner_contained_def
  by (simp add: wp_simps os_defs split: option.split sum.split)
    (auto simp: wp_simps os_defs run_extends_def intro: contained_trace.intros
      intro!: wp_mono [OF wp_JobRunner_finish] split: option.split)

lemma wp_JobRunner_Output:
  "wp (JobRunner_Output P l parent iv)
     (\<lambda>res m'. run_extends output_trace (list_all (event_allowed (inv_Program iv))) m m'
        \<and> (case res of Inl e \<Rightarrow> True
           | Inr r \<Rightarrow> r_program r = inv_Program iv \<and> r_args r = inv_Args iv
                \<and> r_okCodes r = inv_OkCodes iv \<and> built (r_outcome r))) m"
  unfolding JobRunner_Output_def
  by (simp add: wp_simps os_defs split: option.split sum.split)
    (auto simp: wp_simps os_defs run_extends_def intro: output_trace.intros
      intro!: wp_mono [OF wp_JobRunner_contained] split: option.split sum.split_asm)

section \<open>The runner interface\<close>

text \<open>
  \<^verbatim>\<open>ProcessRunner\<close>: one operation, and the law that a result carries the program, the arguments
  and the ok-codes of the invocation it answers.  Verbs, retries and supervision are proved
  against this law only.
\<close>

locale process_runner =
  fixes run_output :: "ctx \<Rightarrow> invocation \<Rightarrow> ('s, goerr + result) state"
  assumes answers: "run_state (run_output c iv) s = (Inr r, s') \<Longrightarrow>
    r_program r = inv_Program iv \<and> r_args r = inv_Args iv \<and> r_okCodes r = inv_OkCodes iv"
begin

lemma answers_success:
  "run_state (run_output c iv) s = (Inr r, s') \<Longrightarrow>
    Success r \<longleftrightarrow> (\<exists>code. outcome_Code (r_outcome r) = Some code
      \<and> (code = 0 \<or> code \<in> set (inv_OkCodes iv)))"
  using answers [of c iv s r s'] by (simp add: Success_iff)

lemma answers_error:
  "run_state (run_output c iv) s = (Inr r, s') \<Longrightarrow>
    toExitError r = ExitError (inv_Program iv) (r_outcome r) (normalizeNewlines (r_stdout r))
      (r_stderr r) (r_mechanism r)"
  using answers [of c iv s r s'] by (simp add: toExitError_def)

end

text \<open>
  A runner on the machine whose own calls are not verbs' ghost calls: what it appends to the trace
  contains neither a \<open>CRunOutput\<close> nor a \<open>CSleep\<close>.
\<close>

fun verb_call :: "call \<Rightarrow> bool" where
  "verb_call (CRunOutput iv) = True"
| "verb_call (CSleep d b) = True"
| "verb_call _ = False"

locale traced_runner = process_runner run_output
  for run_output :: "ctx \<Rightarrow> invocation \<Rightarrow> ('w mach, goerr + result) state" +
  assumes traces: "run_state (run_output c iv) m = (res, m') \<Longrightarrow>
    \<exists>tr. m_calls m' = m_calls m @ tr \<and> list_all (\<lambda>x. \<not> verb_call x) tr"

lemma output_trace_no_verb: "output_trace tr \<Longrightarrow> list_all (\<lambda>x. \<not> verb_call x) tr"
  by (auto elim!: output_trace.cases contained_trace.cases)

interpretation job_runner: traced_runner "JobRunner_Output P l" for P l
proof unfold_locales
  fix c iv s r s'
  assume "run_state (JobRunner_Output P l c iv) s = (Inr r, s')"
  from wp_run [OF wp_JobRunner_Output this]
  show "r_program r = inv_Program iv \<and> r_args r = inv_Args iv \<and> r_okCodes r = inv_OkCodes iv"
    by simp
next
  fix c iv m res m'
  assume "run_state (JobRunner_Output P l c iv) m = (res, m')"
  from wp_run [OF wp_JobRunner_Output this]
  show "\<exists>tr. m_calls m' = m_calls m @ tr \<and> list_all (\<lambda>x. \<not> verb_call x) tr"
    by (auto simp: run_extends_def intro: output_trace_no_verb)
qed

section \<open>Properties\<close>

text \<open>
  Claim C1. A contained run leaves no orphan on any path: whatever the platform answers, the
  calls JobRunner.Output makes are one of the admitted sequences, in which every started process
  is waited for, its job is killed after the start, and a created job is closed last.
\<close>

theorem run_leaves_no_orphan:
  "\<exists>tr. m_calls (snd (run_state (JobRunner_Output P l c iv) m)) = m_calls m @ tr
     \<and> output_trace tr \<and> no_orphan tr \<and> (tr \<in> {[], [CNewJob False]} \<or> last tr = CClose)"
proof -
  obtain res m' where r: "run_state (JobRunner_Output P l c iv) m = (res, m')" by fastforce
  from wp_run [OF wp_JobRunner_Output r] obtain tr
    where tr: "m_calls m' = m_calls m @ tr" "output_trace tr" by (auto simp: run_extends_def)
  moreover have "tr \<in> {[], [CNewJob False]} \<or> last tr = CClose"
    using tr(2) by (auto elim!: output_trace.cases)
  ultimately show ?thesis using output_trace_no_orphan by (auto simp: r)
qed

text \<open>
  Claim C39. The log of a contained run discloses no argument, environment entry, directory or
  output: every event is one of the catalogue, with its fixed level, message and attribute keys, and
  every string among its values is the program's name or the fixed rendering of a mechanism or an
  outcome.
\<close>

theorem run_log_discloses_nothing:
  "\<exists>evs. m_logs (snd (run_state (JobRunner_Output P l c iv) m)) = m_logs m @ evs
     \<and> list_all (event_allowed (inv_Program iv)) evs"
proof -
  obtain res m' where r: "run_state (JobRunner_Output P l c iv) m = (res, m')" by fastforce
  from wp_run [OF wp_JobRunner_Output r] show ?thesis by (auto simp: run_extends_def r)
qed

text \<open>The decision a finished run is meant to make from what it observed.\<close>

definition decide_run ::
    "'w platform \<Rightarrow> goerr option \<Rightarrow> bool \<Rightarrow> processState option \<Rightarrow> goerr option \<Rightarrow> goerr option
     \<Rightarrow> bytes \<Rightarrow> goerr + outcome" where
  "decide_run P cancelled timed ps waitErr cause program =
    (if cancelled \<noteq> None then Inl (CancelError program cause)
     else if timed then Inr timedOut
     else (case (ps, waitErr) of
         (Some st, _) \<Rightarrow> Inr (outcomeOf P st)
       | (None, Some e) \<Rightarrow> Inl (StartError program e)
       | (None, None) \<Rightarrow> Inr (exited 0)))"

text \<open>
  Claim C16. The caller's cancellation wins over the run's own deadline, which wins over the exit
  status, which wins over a wait error: the answer of a finished run is the decision table applied
  to the parent context read after the kill, the run context's deadline, and what wait returned.
\<close>

theorem run_outcome_precedence:
  assumes "p_wait P p (m_world m) = ((ps, werr), w1)" "p_now P w1 = (now, w2)"
    "p_kill P w2 = (k, w3)" "p_ctxErr P parent w3 = (ce, w4)" "p_ctxErr P parent w4 = (cause, w5)"
    "p_ctxErr P runCtx w4 = (de, w6)"
  shows "map_sum id r_outcome
      (fst (run_state (JobRunner_finish P l parent runCtx mech iv start p) m)) =
    decide_run P ce (0 < inv_Timeout iv \<and> (\<exists>e. de = Some e \<and> is_err e Context_DeadlineExceeded))
      ps werr cause (inv_Program iv)"
proof -
  have "wp (JobRunner_finish P l parent runCtx mech iv start p)
    (\<lambda>res m'. map_sum id r_outcome res =
      decide_run P ce (0 < inv_Timeout iv \<and> (\<exists>e. de = Some e \<and> is_err e Context_DeadlineExceeded))
        ps werr cause (inv_Program iv)) m"
    unfolding JobRunner_finish_def using assms
    by (auto simp: wp_simps os_defs decide_run_def resolveOutcome_def split: option.split)
  then show ?thesis by (simp add: wp_def split: prod.splits)
qed

theorem run_outcome_precedence_witness:
  "map_sum id r_outcome (fst (run_state
     (JobRunner_finish (quiet_platform \<lparr>ps_signaled = True, ps_signal = 9, ps_exitCode = -1\<rparr> None)
        False 0 1 MechanismProcessGroup (inv0\<lparr>inv_Timeout := 5\<rparr>) 0 100) (mach0 0))) =
   Inr (signalled (Some 9))"
proof -
  let ?P = "quiet_platform \<lparr>ps_signaled = True, ps_signal = 9, ps_exitCode = -1\<rparr> None"
  have "map_sum id r_outcome (fst (run_state
     (JobRunner_finish ?P False 0 1 MechanismProcessGroup (inv0\<lparr>inv_Timeout := 5\<rparr>) 0 100) (mach0 0))) =
    decide_run ?P None (0 < inv_Timeout (inv0\<lparr>inv_Timeout := 5\<rparr>)
        \<and> (\<exists>e. None = Some e \<and> is_err e Context_DeadlineExceeded))
      (Some \<lparr>ps_signaled = True, ps_signal = 9, ps_exitCode = -1\<rparr>) None None
      (inv_Program (inv0\<lparr>inv_Timeout := 5\<rparr>))"
    by (rule run_outcome_precedence [where ?w1.0 = 0 and ?w2.0 = 0 and ?w3.0 = 0 and ?w4.0 = 0
        and ?w5.0 = 0 and ?w6.0 = 0]) (simp_all add: quiet_platform_def mach0_def)
  then show ?thesis
    by (simp add: decide_run_def outcomeOf_def outcomeOf_unix_def quiet_platform_def)
qed

text \<open>
  A run whose context has already ended spawns nothing: it creates no job, makes no
  call, and its error matches ErrCancelled.
\<close>

theorem cancelled_before_spawn:
  assumes "inv_Timeout iv \<le> 0" "fst (p_ctxErr P c (m_world m)) \<noteq> None"
  shows "\<exists>e. fst (run_state (JobRunner_Output P l c iv) m) = Inl e \<and> is_err e ErrCancelled
    \<and> m_calls (snd (run_state (JobRunner_Output P l c iv) m)) = m_calls m"
proof -
  have "wp (JobRunner_Output P l c iv)
    (\<lambda>res m'. \<exists>e. res = Inl e \<and> is_err e ErrCancelled \<and> m_calls m' = m_calls m) m"
    unfolding JobRunner_Output_def using assms by (auto simp: wp_simps os_defs)
  then show ?thesis by (simp add: wp_def split: prod.splits)
qed

theorem cancelled_before_spawn_witness:
  "\<exists>e. fst (run_state (JobRunner_Output
        (quiet_platform \<lparr>ps_signaled = False, ps_signal = 0, ps_exitCode = 0\<rparr>
          (Some (Sentinel Context_Canceled))) True 0 inv0) (mach0 1)) = Inl e
     \<and> is_err e ErrCancelled"
  using cancelled_before_spawn [of inv0
      "quiet_platform \<lparr>ps_signaled = False, ps_signal = 0, ps_exitCode = 0\<rparr>
          (Some (Sentinel Context_Canceled))" 0 "mach0 1" True]
  by (auto simp: inv0_def quiet_platform_def mach0_def)

end
