(* ===== verification/Command.thy ===== *)
theory Command
  imports Runner
begin

text \<open>
  The command builder and its verbs (\<^verbatim>\<open>command.go\<close>), the context-aware sleep they use
  (\<^verbatim>\<open>clock.go\<close>) and the client core on top of them (\<^verbatim>\<open>client.go\<close>).  A command is the source's
  struct; every \<^verbatim>\<open>WithX\<close> returns an updated copy, which is what a record update is; that the deep
  copy made by \<^verbatim>\<open>clone\<close> justifies this view is shown in \<open>CommandSharing\<close>.  The retry loop is a function on the machine, terminating
  because each round uses up one of the attempts.
\<close>

section \<open>Commands\<close>

record retryPolicy =
  rp_maxAttempts :: int
  rp_backoff :: duration
  rp_retryIf :: "(goerr \<Rightarrow> bool) option"

record 'w cmd =
  cm_program :: bytes
  cm_args :: "bytes list"
  cm_dir :: bytes
  cm_env :: "bytes list option"
  cm_okCodes :: "int list"
  cm_timeout :: duration
  cm_runner :: "'w runner option"
  cm_retry :: "retryPolicy option"
  cm_log :: runLog
  cm_stdin :: "nat option"
  cm_stdinBytes :: bytes
  cm_hasStdinBytes :: bool
  cm_uncheckedInPipe :: bool

definition mk_Command :: "bytes \<Rightarrow> bytes list \<Rightarrow> 'w cmd" where
  "mk_Command program args =
    \<lparr>cm_program = program, cm_args = args, cm_dir = [], cm_env = None, cm_okCodes = [],
     cm_timeout = 0, cm_runner = None, cm_retry = None, cm_log = False, cm_stdin = None,
     cm_stdinBytes = [], cm_hasStdinBytes = False, cm_uncheckedInPipe = False\<rparr>"

definition WithArgs :: "bytes list \<Rightarrow> 'w cmd \<Rightarrow> 'w cmd" where
  "WithArgs as c = c\<lparr>cm_args := cm_args c @ as\<rparr>"

definition WithDir :: "bytes \<Rightarrow> 'w cmd \<Rightarrow> 'w cmd" where
  "WithDir d c = c\<lparr>cm_dir := d\<rparr>"

definition WithEnv :: "bytes list \<Rightarrow> 'w cmd \<Rightarrow> 'w cmd" where
  "WithEnv es c = c\<lparr>cm_env := Some es\<rparr>"

text \<open>\<open>environ\<close> is what \<^verbatim>\<open>os.Environ()\<close> returns at the call.\<close>

definition AppendEnv :: "bytes list \<Rightarrow> bytes list \<Rightarrow> 'w cmd \<Rightarrow> 'w cmd" where
  "AppendEnv environ es c =
    (case cm_env c of
       None \<Rightarrow> c\<lparr>cm_env := Some (environ @ es)\<rparr>
     | Some env \<Rightarrow> c\<lparr>cm_env := Some (env @ es)\<rparr>)"

definition WithTimeout :: "duration \<Rightarrow> 'w cmd \<Rightarrow> 'w cmd" where
  "WithTimeout d c = c\<lparr>cm_timeout := d\<rparr>"

definition WithOkCodes :: "int list \<Rightarrow> 'w cmd \<Rightarrow> 'w cmd" where
  "WithOkCodes codes c = c\<lparr>cm_okCodes := codes\<rparr>"

definition WithRunner :: "'w runner option \<Rightarrow> 'w cmd \<Rightarrow> 'w cmd" where
  "WithRunner r c = c\<lparr>cm_runner := r\<rparr>"

definition WithStdin :: "nat option \<Rightarrow> 'w cmd \<Rightarrow> 'w cmd" where
  "WithStdin r c = c\<lparr>cm_stdin := r, cm_stdinBytes := [], cm_hasStdinBytes := False\<rparr>"

definition WithStdinBytes :: "bytes \<Rightarrow> 'w cmd \<Rightarrow> 'w cmd" where
  "WithStdinBytes b c = c\<lparr>cm_stdinBytes := b, cm_hasStdinBytes := True, cm_stdin := None\<rparr>"

definition WithStdinString :: "bytes \<Rightarrow> 'w cmd \<Rightarrow> 'w cmd" where
  "WithStdinString s c = WithStdinBytes s c"

definition WithLogger :: "runLog \<Rightarrow> 'w cmd \<Rightarrow> 'w cmd" where
  "WithLogger l c = c\<lparr>cm_log := l\<rparr>"

definition WithUncheckedInPipe :: "'w cmd \<Rightarrow> 'w cmd" where
  "WithUncheckedInPipe c = c\<lparr>cm_uncheckedInPipe := True\<rparr>"

definition WithRetry :: "int \<Rightarrow> duration \<Rightarrow> (goerr \<Rightarrow> bool) option \<Rightarrow> 'w cmd \<Rightarrow> 'w cmd" where
  "WithRetry maxAttempts backoff retryIf c =
    c\<lparr>cm_retry := Some \<lparr>rp_maxAttempts = maxAttempts, rp_backoff = backoff, rp_retryIf = retryIf\<rparr>\<rparr>"

definition cmd_invocation :: "'w cmd \<Rightarrow> invocation" where
  "cmd_invocation c =
    \<lparr>inv_Program = cm_program c, inv_Args = cm_args c, inv_Dir = cm_dir c, inv_Env = cm_env c,
     inv_OkCodes = cm_okCodes c, inv_Timeout = cm_timeout c,
     inv_Stdin = (if cm_hasStdinBytes c then Some (BytesReader (cm_stdinBytes c))
                  else map_option ReaderRef (cm_stdin c))\<rparr>"

lemmas builder_defs = mk_Command_def WithArgs_def WithDir_def WithEnv_def AppendEnv_def
  WithTimeout_def WithOkCodes_def WithRunner_def WithStdin_def WithStdinBytes_def
  WithStdinString_def WithLogger_def WithUncheckedInPipe_def WithRetry_def

section \<open>Running\<close>

definition cmd_runner :: "'w platform \<Rightarrow> 'w cmd \<Rightarrow> 'w runner" where
  "cmd_runner P c = (case cm_runner c of None \<Rightarrow> JobRunner_Output P (cm_log c) | Some r \<Rightarrow> r)"

text \<open>\<open>CRunOutput\<close> is a ghost call: it records that the runner was asked.\<close>

definition cmd_run :: "'w platform \<Rightarrow> 'w cmd \<Rightarrow> ctx \<Rightarrow> ('w mach, goerr + result) state" where
  "cmd_run P c ctx = do {
     os_call (\<lambda>w. ((), w)) (\<lambda>_. [CRunOutput (cmd_invocation c)]);
     cmd_runner P c ctx (cmd_invocation c)
   }"

definition cmd_Output :: "'w platform \<Rightarrow> 'w cmd \<Rightarrow> ctx \<Rightarrow> ('w mach, goerr + result) state" where
  "cmd_Output P c ctx = cmd_run P c ctx"

text \<open>
  \<^verbatim>\<open>sleepCtx\<close>: a non-positive duration only reads the context; otherwise the platform decides
  whether the timer or the context fires first.
\<close>

definition sleepCtx :: "'w platform \<Rightarrow> ctx \<Rightarrow> duration \<Rightarrow> ('w mach, bool) state" where
  "sleepCtx P ctx d =
    (if d \<le> 0
     then os_call (\<lambda>w. case p_ctxErr P ctx w of (e, w') \<Rightarrow> (e = None, w')) (\<lambda>b. [CSleep d b])
     else os_call (p_timer P ctx d) (\<lambda>b. [CSleep d b]))"

definition attempt_value :: "(result \<Rightarrow> goerr + 'a) \<Rightarrow> goerr + result \<Rightarrow> goerr + 'a" where
  "attempt_value extr r = (case r of Inl err \<Rightarrow> Inl err | Inr res \<Rightarrow> extr res)"

function retry_loop ::
    "'w platform \<Rightarrow> ctx \<Rightarrow> 'w cmd \<Rightarrow> (result \<Rightarrow> goerr + 'a) \<Rightarrow> int \<Rightarrow> int
     \<Rightarrow> ('w mach, goerr + 'a) state" where
  "retry_loop P ctx c extr maxAttempts tries = do {
     r \<leftarrow> cmd_run P c ctx;
     case attempt_value extr r of
       Inr val \<Rightarrow> State_Monad.return (Inr val)
     | Inl err \<Rightarrow>
         if is_err err ErrCancelled then State_Monad.return (Inl err)
         else (case cm_retry c of
           None \<Rightarrow> State_Monad.return (Inl err)
         | Some policy \<Rightarrow>
             if tries \<ge> maxAttempts then State_Monad.return (Inl err)
             else (case rp_retryIf policy of
               None \<Rightarrow> State_Monad.return (Inl err)
             | Some retryIf \<Rightarrow>
                 if \<not> retryIf err then State_Monad.return (Inl err)
                 else do {
                   log_events (log_retrying (p_fmt P) (cm_log c) (cm_program c) (tries + 1)
                     maxAttempts (rp_backoff policy) err);
                   ok \<leftarrow> sleepCtx P ctx (rp_backoff policy);
                   if \<not> ok then do {
                     cause \<leftarrow> ctxErr P ctx;
                     State_Monad.return (Inl (CancelError (cm_program c) cause))
                   }
                   else retry_loop P ctx c extr maxAttempts (tries + 1)
                 }))
   }"
  by pat_completeness auto
termination
  by (relation "measure (\<lambda>(P, ctx, c, extr, maxAttempts, tries). nat (maxAttempts - tries))") auto

declare retry_loop.simps [simp del]

definition max_attempts :: "'w cmd \<Rightarrow> int" where
  "max_attempts c = (case cm_retry c of
      Some policy \<Rightarrow> if rp_maxAttempts policy > 1 then rp_maxAttempts policy else 1
    | None \<Rightarrow> 1)"

definition retryRun ::
    "'w platform \<Rightarrow> ctx \<Rightarrow> 'w cmd \<Rightarrow> (result \<Rightarrow> goerr + 'a) \<Rightarrow> ('w mach, goerr + 'a) state" where
  "retryRun P ctx c extr = retry_loop P ctx c extr (max_attempts c) 1"

definition cmd_Run :: "'w platform \<Rightarrow> 'w cmd \<Rightarrow> ctx \<Rightarrow> ('w mach, goerr + bytes) state" where
  "cmd_Run P c ctx = retryRun P ctx c resultRun"

definition cmd_ExitCode :: "'w platform \<Rightarrow> 'w cmd \<Rightarrow> ctx \<Rightarrow> ('w mach, goerr + int) state" where
  "cmd_ExitCode P c ctx = retryRun P ctx c resultExitCode"

definition cmd_Probe :: "'w platform \<Rightarrow> 'w cmd \<Rightarrow> ctx \<Rightarrow> ('w mach, goerr + bool) state" where
  "cmd_Probe P c ctx = retryRun P ctx c resultProbe"

section \<open>The client\<close>

record 'w cliClient =
  cl_base :: "'w cmd"

definition NewClient :: "bytes \<Rightarrow> 'w cliClient" where
  "NewClient program = \<lparr>cl_base = mk_Command program []\<rparr>"

definition client_WithRunner :: "'w runner option \<Rightarrow> 'w cliClient \<Rightarrow> 'w cliClient" where
  "client_WithRunner r cl = \<lparr>cl_base = WithRunner r (cl_base cl)\<rparr>"

definition client_WithTimeout :: "duration \<Rightarrow> 'w cliClient \<Rightarrow> 'w cliClient" where
  "client_WithTimeout d cl = \<lparr>cl_base = WithTimeout d (cl_base cl)\<rparr>"

definition client_WithEnv :: "bytes list \<Rightarrow> 'w cliClient \<Rightarrow> 'w cliClient" where
  "client_WithEnv es cl = \<lparr>cl_base = WithEnv es (cl_base cl)\<rparr>"

definition client_AppendEnv :: "bytes list \<Rightarrow> bytes list \<Rightarrow> 'w cliClient \<Rightarrow> 'w cliClient" where
  "client_AppendEnv environ es cl = \<lparr>cl_base = AppendEnv environ es (cl_base cl)\<rparr>"

definition client_WithDir :: "bytes \<Rightarrow> 'w cliClient \<Rightarrow> 'w cliClient" where
  "client_WithDir d cl = \<lparr>cl_base = WithDir d (cl_base cl)\<rparr>"

definition client_WithOkCodes :: "int list \<Rightarrow> 'w cliClient \<Rightarrow> 'w cliClient" where
  "client_WithOkCodes codes cl = \<lparr>cl_base = WithOkCodes codes (cl_base cl)\<rparr>"

definition client_WithLogger :: "runLog \<Rightarrow> 'w cliClient \<Rightarrow> 'w cliClient" where
  "client_WithLogger l cl = \<lparr>cl_base = WithLogger l (cl_base cl)\<rparr>"

definition client_Command :: "bytes list \<Rightarrow> 'w cliClient \<Rightarrow> 'w cmd" where
  "client_Command as cl = WithArgs as (cl_base cl)"

definition client_Run ::
    "'w platform \<Rightarrow> 'w cliClient \<Rightarrow> ctx \<Rightarrow> bytes list \<Rightarrow> ('w mach, goerr + bytes) state" where
  "client_Run P cl ctx as = cmd_Run P (client_Command as cl) ctx"

definition client_Output ::
    "'w platform \<Rightarrow> 'w cliClient \<Rightarrow> ctx \<Rightarrow> bytes list \<Rightarrow> ('w mach, goerr + result) state" where
  "client_Output P cl ctx as = cmd_Output P (client_Command as cl) ctx"

definition client_ExitCode ::
    "'w platform \<Rightarrow> 'w cliClient \<Rightarrow> ctx \<Rightarrow> bytes list \<Rightarrow> ('w mach, goerr + int) state" where
  "client_ExitCode P cl ctx as = cmd_ExitCode P (client_Command as cl) ctx"

definition client_Probe ::
    "'w platform \<Rightarrow> 'w cliClient \<Rightarrow> ctx \<Rightarrow> bytes list \<Rightarrow> ('w mach, goerr + bool) state" where
  "client_Probe P cl ctx as = cmd_Probe P (client_Command as cl) ctx"

section \<open>The retry loop\<close>

definition retry_backoff :: "'w cmd \<Rightarrow> duration" where
  "retry_backoff c = (case cm_retry c of None \<Rightarrow> 0 | Some policy \<Rightarrow> rp_backoff policy)"

text \<open>
  The ghost calls of a retried verb: attempts of one invocation separated by completed sleeps of one
  duration, \<open>n\<close> attempts in all, ending with an attempt or with an interrupted sleep.
\<close>

inductive retry_trace :: "invocation \<Rightarrow> duration \<Rightarrow> nat \<Rightarrow> bool \<Rightarrow> call list \<Rightarrow> bool"
  for iv d where
  last_attempt: "retry_trace iv d 1 False [CRunOutput iv]"
| aborted: "retry_trace iv d 1 True [CRunOutput iv, CSleep d False]"
| again: "retry_trace iv d n b tr \<Longrightarrow> retry_trace iv d (Suc n) b (CRunOutput iv # CSleep d True # tr)"

lemma retry_trace_pos: "retry_trace iv d n b tr \<Longrightarrow> 0 < n"
  by (induction rule: retry_trace.induct) auto

lemma retry_trace_attempts:
  "retry_trace iv d n b tr \<Longrightarrow> length (filter (\<lambda>x. x = CRunOutput iv) tr) = n"
  by (induction rule: retry_trace.induct) auto

text \<open>Why a loop stopped with an error, given the attempts it made and the budget it had.\<close>

definition retry_stops :: "'w cmd \<Rightarrow> int \<Rightarrow> nat \<Rightarrow> goerr \<Rightarrow> bool" where
  "retry_stops c budget n e \<longleftrightarrow>
    is_err e ErrCancelled \<or> int n \<ge> budget
    \<or> (\<forall>policy retryIf. cm_retry c = Some policy \<and> rp_retryIf policy = Some retryIf \<longrightarrow> \<not> retryIf e)"

text \<open>What a loop with a budget of attempts promises of its answer and its trace.\<close>

definition retry_promise ::
    "'w platform \<Rightarrow> ctx \<Rightarrow> 'w cmd \<Rightarrow> (result \<Rightarrow> goerr + 'a) \<Rightarrow> int \<Rightarrow> call list \<Rightarrow> goerr + 'a \<Rightarrow> bool" where
  "retry_promise P ctx c extr budget tr res \<longleftrightarrow>
    (\<exists>n b. retry_trace (cmd_invocation c) (retry_backoff c) n b (filter verb_call tr)
      \<and> int n \<le> max 1 budget
      \<and> (if b then \<exists>cause. res = Inl (CancelError (cm_program c) cause)
         else (\<exists>s r s'. run_state (cmd_runner P c ctx (cmd_invocation c)) s = (r, s')
                 \<and> attempt_value extr r = res
                 \<and> (\<forall>e. res = Inl e \<longrightarrow> retry_stops c budget n e))))"

lemma filter_verb_none: "list_all (\<lambda>x. \<not> verb_call x) tr \<Longrightarrow> filter verb_call tr = []"
  by (induction tr) auto

lemma wp_sleepCtx:
  "wp (sleepCtx P ctx d) (\<lambda>b m'. m_calls m' = m_calls m @ [CSleep d b]) m"
  by (auto simp: sleepCtx_def wp_simps)

lemma retry_promise_last:
  assumes "run_state (cmd_runner P c ctx (cmd_invocation c)) s = (r, s')"
    "attempt_value extr r = res" "list_all (\<lambda>x. \<not> verb_call x) tr"
    "\<And>e. res = Inl e \<Longrightarrow> retry_stops c budget 1 e"
  shows "retry_promise P ctx c extr budget (CRunOutput (cmd_invocation c) # tr) res"
  unfolding retry_promise_def
  by (rule exI [of _ 1], rule exI [of _ False])
    (use assms in \<open>auto simp: filter_verb_none intro: retry_trace.intros [unfolded One_nat_def]\<close>)

lemma retry_promise_aborted:
  assumes "list_all (\<lambda>x. \<not> verb_call x) tr"
  shows "retry_promise P ctx c extr budget
    (CRunOutput (cmd_invocation c) # tr @ [CSleep (retry_backoff c) False])
    (Inl (CancelError (cm_program c) cause))"
  unfolding retry_promise_def
  by (rule exI [of _ 1], rule exI [of _ True])
    (use assms in \<open>auto simp: filter_verb_none intro: retry_trace.intros [unfolded One_nat_def]\<close>)

lemma retry_promise_again:
  assumes "list_all (\<lambda>x. \<not> verb_call x) tr" "1 < budget"
    "retry_promise P ctx c extr (budget - 1) tr' res"
  shows "retry_promise P ctx c extr budget
    (CRunOutput (cmd_invocation c) # tr @ CSleep (retry_backoff c) True # tr') res"
proof -
  from assms(3) obtain n b where
    nb: "retry_trace (cmd_invocation c) (retry_backoff c) n b (filter verb_call tr')"
      "int n \<le> max 1 (budget - 1)"
      "if b then \<exists>cause. res = Inl (CancelError (cm_program c) cause)
       else (\<exists>s r s'. run_state (cmd_runner P c ctx (cmd_invocation c)) s = (r, s')
               \<and> attempt_value extr r = res
               \<and> (\<forall>e. res = Inl e \<longrightarrow> retry_stops c (budget - 1) n e))"
    unfolding retry_promise_def by blast
  have "retry_stops c (budget - 1) n e \<Longrightarrow> retry_stops c budget (Suc n) e" for e
    by (auto simp: retry_stops_def)
  with nb(3) have "if b then \<exists>cause. res = Inl (CancelError (cm_program c) cause)
       else (\<exists>s r s'. run_state (cmd_runner P c ctx (cmd_invocation c)) s = (r, s')
               \<and> attempt_value extr r = res
               \<and> (\<forall>e. res = Inl e \<longrightarrow> retry_stops c budget (Suc n) e))"
    by (auto split: if_splits)
  moreover have "retry_trace (cmd_invocation c) (retry_backoff c) (Suc n) b
      (filter verb_call (CRunOutput (cmd_invocation c) # tr @ CSleep (retry_backoff c) True # tr'))"
    using nb(1) assms(1) by (simp add: filter_verb_none retry_trace.again)
  moreover have "int (Suc n) \<le> max 1 budget" using nb(2) assms(2) by simp
  ultimately show ?thesis unfolding retry_promise_def by blast
qed

context traced_runner
begin

lemma wp_run_output:
  "wp (run_output c iv) (\<lambda>r m'. (\<exists>tr. m_calls m' = m_calls m @ tr
      \<and> list_all (\<lambda>x. \<not> verb_call x) tr) \<and> run_state (run_output c iv) m = (r, m')) m"
  using traces [of c iv m] by (auto simp: wp_def split: prod.split)

lemma wp_cmd_run:
  assumes "cmd_runner P c = run_output"
  shows "wp (cmd_run P c ctx)
    (\<lambda>r m'. (\<exists>tr. m_calls m' = m_calls m @ CRunOutput (cmd_invocation c) # tr
        \<and> list_all (\<lambda>x. \<not> verb_call x) tr)
      \<and> (\<exists>s. run_state (cmd_runner P c ctx (cmd_invocation c)) s = (r, m'))) m"
  unfolding cmd_run_def assms
  by (auto simp: wp_simps intro!: wp_mono [OF wp_run_output])

lemma wp_retry_loop:
  assumes "cmd_runner P c = run_output" "tries \<le> maxAttempts"
  shows "wp (retry_loop P ctx c extr maxAttempts tries)
    (\<lambda>res m'. \<exists>tr. m_calls m' = m_calls m @ tr
      \<and> retry_promise P ctx c extr (maxAttempts - tries + 1) tr res) m"
  using assms(2)
proof (induction "nat (maxAttempts - tries)" arbitrary: tries m)
  case (0 tries m)
  then show ?case
    by (subst retry_loop.simps)
      (auto simp: wp_simps intro!: wp_mono [OF wp_cmd_run [OF assms(1)]] retry_promise_last
        simp: retry_stops_def split: sum.split option.split)
next
  case (Suc k tries m)
  let ?iv = "cmd_invocation c"
  have ih: "wp (retry_loop P ctx c extr maxAttempts (tries + 1))
    (\<lambda>res m'. \<exists>tr. m_calls m' = m_calls m1 @ tr
      \<and> retry_promise P ctx c extr (maxAttempts - (tries + 1) + 1) tr res) m1" for m1
    by (rule Suc.hyps) (use Suc.hyps(2) in auto)
  have lt: "tries < maxAttempts" using Suc.hyps(2) by simp
  have step: "wp (sleepCtx P ctx (rp_backoff policy)) (\<lambda>ok. wp
      (if \<not> ok then do {
         cause \<leftarrow> ctxErr P ctx;
         State_Monad.return (Inl (CancelError (cm_program c) cause))
       } else retry_loop P ctx c extr maxAttempts (tries + 1))
      (\<lambda>res m'. \<exists>tr. m_calls m' = m_calls m @ tr
        \<and> retry_promise P ctx c extr (maxAttempts - tries + 1) tr res)) m1"
    if "m_calls m1 = m_calls m @ CRunOutput ?iv # tr" "list_all (\<lambda>x. \<not> verb_call x) tr"
      "cm_retry c = Some policy" for m1 tr policy
  proof (rule wp_mono [OF wp_sleepCtx])
    fix ok and m2 :: "'w mach"
    assume m2: "m_calls m2 = m_calls m1 @ [CSleep (rp_backoff policy) ok]"
    have d: "rp_backoff policy = retry_backoff c" by (simp add: retry_backoff_def that)
    show "wp (if \<not> ok then do {
         cause \<leftarrow> ctxErr P ctx;
         State_Monad.return (Inl (CancelError (cm_program c) cause))
       } else retry_loop P ctx c extr maxAttempts (tries + 1))
      (\<lambda>res m'. \<exists>tr. m_calls m' = m_calls m @ tr
        \<and> retry_promise P ctx c extr (maxAttempts - tries + 1) tr res) m2"
    proof (cases ok)
      case False
      then show ?thesis using m2 that(1)
        by (auto simp: wp_simps os_defs d intro: retry_promise_aborted [OF that(2)])
    next
      case True
      have "retry_promise P ctx c extr (maxAttempts - tries + 1)
          (CRunOutput ?iv # tr @ CSleep (retry_backoff c) True # tr') res"
        if "retry_promise P ctx c extr (maxAttempts - (tries + 1) + 1) tr' res" for tr' res
        by (rule retry_promise_again) (use that lt \<open>list_all _ tr\<close> in auto)
      with True m2 that(1) show ?thesis
        by (auto simp: d intro!: wp_mono [OF ih])
    qed
  qed
  show ?case
    by (subst retry_loop.simps)
      (auto simp: wp_simps intro!: wp_mono [OF wp_cmd_run [OF assms(1)]] retry_promise_last step
        simp: retry_stops_def split: sum.split option.split)
qed

end

lemma job_cmd_traced: "cm_runner c = None \<Longrightarrow> traced_runner (cmd_runner P c)"
  using job_runner.traced_runner_axioms by (simp add: cmd_runner_def)

lemma retryRun_promise:
  assumes "traced_runner (cmd_runner P c)"
  shows "\<exists>tr. m_calls (snd (run_state (retryRun P ctx c extr) m)) = m_calls m @ tr
    \<and> retry_promise P ctx c extr (max_attempts c) tr (fst (run_state (retryRun P ctx c extr) m))"
proof -
  have "1 \<le> max_attempts c" by (simp add: max_attempts_def split: option.split)
  from traced_runner.wp_retry_loop [OF assms refl this, of ctx extr m]
  show ?thesis by (auto simp: retryRun_def wp_def split: prod.splits)
qed

lemma max_attempts_pos: "1 \<le> max_attempts c"
  by (simp add: max_attempts_def split: option.split)

text \<open>A command run by the quiet platform, for the witnesses.\<close>

definition quiet_exit :: "int \<Rightarrow> nat platform" where
  "quiet_exit code = quiet_platform \<lparr>ps_signaled = False, ps_signal = 0, ps_exitCode = code\<rparr> None"

definition retrying_cmd :: "nat cmd" where
  "retrying_cmd = WithRetry 3 5 (Some (\<lambda>e. True)) (WithOkCodes [4] (mk_Command ''git'' [''fetch'']))"

lemma retrying_cmd_traced: "traced_runner (cmd_runner P retrying_cmd)"
  by (rule job_cmd_traced) (simp add: retrying_cmd_def builder_defs)

section \<open>Properties\<close>

text \<open>
  Claim C34. A retried verb runs the command at least once, and more than once only under a retry
  policy, and then at most its \<^verbatim>\<open>maxAttempts\<close> times, always on the same invocation; between any two
  attempts it completes one sleep of the configured backoff.  A sleep the context interrupts is the
  last thing it does, and its answer is then a CancelError for the program.  Otherwise the answer is
  its last attempt's, and an error is answered only for a cancellation, or when no policy is set, the
  policy's attempts are spent, or its classifier is missing or said no.
\<close>

theorem retry_bounded:
  assumes "traced_runner (cmd_runner P c)"
  shows "\<exists>tr d n b. m_calls (snd (run_state (retryRun P ctx c extr) m)) = m_calls m @ tr
    \<and> retry_trace (cmd_invocation c) d n b (filter verb_call tr)
    \<and> (\<forall>policy. cm_retry c = Some policy \<longrightarrow> d = rp_backoff policy)
    \<and> 1 \<le> n \<and> (n = 1 \<or> (\<exists>policy. cm_retry c = Some policy \<and> int n \<le> rp_maxAttempts policy))
    \<and> (if b then \<exists>cause. fst (run_state (retryRun P ctx c extr) m)
                 = Inl (CancelError (cm_program c) cause)
       else \<exists>s r s'. run_state (cmd_runner P c ctx (cmd_invocation c)) s = (r, s')
          \<and> attempt_value extr r = fst (run_state (retryRun P ctx c extr) m)
          \<and> (\<forall>e policy retryIf. fst (run_state (retryRun P ctx c extr) m) = Inl e
               \<and> cm_retry c = Some policy \<and> rp_retryIf policy = Some retryIf \<and> retryIf e \<longrightarrow>
               is_err e ErrCancelled \<or> rp_maxAttempts policy \<le> int n))"
proof -
  from retryRun_promise [OF assms, of ctx extr m] obtain tr n b where
    t: "m_calls (snd (run_state (retryRun P ctx c extr) m)) = m_calls m @ tr"
    "retry_trace (cmd_invocation c) (retry_backoff c) n b (filter verb_call tr)"
    and n: "int n \<le> max 1 (max_attempts c)"
    and b: "if b then \<exists>cause. fst (run_state (retryRun P ctx c extr) m) = Inl (CancelError (cm_program c) cause)
      else \<exists>s r s'. run_state (cmd_runner P c ctx (cmd_invocation c)) s = (r, s')
         \<and> attempt_value extr r = fst (run_state (retryRun P ctx c extr) m)
         \<and> (\<forall>e. fst (run_state (retryRun P ctx c extr) m) = Inl e \<longrightarrow> retry_stops c (max_attempts c) n e)"
    unfolding retry_promise_def by blast
  have "1 \<le> n" using retry_trace_pos [OF t(2)] by simp
  moreover have "n = 1 \<or> (\<exists>policy. cm_retry c = Some policy \<and> int n \<le> rp_maxAttempts policy)"
    using n \<open>1 \<le> n\<close> by (auto simp: max_attempts_def split: option.splits if_splits)
  moreover have stops: "is_err e ErrCancelled \<or> rp_maxAttempts policy \<le> int n"
    if "retry_stops c (max_attempts c) n e" "cm_retry c = Some policy" "rp_retryIf policy = Some retryIf" "retryIf e"
    for e policy retryIf
    using that by (auto simp: retry_stops_def max_attempts_def split: if_splits)
  ultimately show ?thesis
  proof (cases b)
    case True
    with b \<open>1 \<le> n\<close> \<open>n = 1 \<or> _\<close> show ?thesis
      by (intro exI [of _ tr] exI [of _ "retry_backoff c"] exI [of _ n] exI [of _ b] conjI t) (simp_all add: retry_backoff_def)
  next
    case False
    with b obtain s r s' where a: "run_state (cmd_runner P c ctx (cmd_invocation c)) s = (r, s')"
      "attempt_value extr r = fst (run_state (retryRun P ctx c extr) m)"
      "\<forall>e. fst (run_state (retryRun P ctx c extr) m) = Inl e \<longrightarrow> retry_stops c (max_attempts c) n e" by auto
    have "\<forall>e policy retryIf. fst (run_state (retryRun P ctx c extr) m) = Inl e
        \<and> cm_retry c = Some policy \<and> rp_retryIf policy = Some retryIf \<and> retryIf e \<longrightarrow>
        is_err e ErrCancelled \<or> rp_maxAttempts policy \<le> int n"
      using a(3) stops by blast
    with a(1,2) have "\<exists>s r s'. run_state (cmd_runner P c ctx (cmd_invocation c)) s = (r, s')
          \<and> attempt_value extr r = fst (run_state (retryRun P ctx c extr) m)
          \<and> (\<forall>e policy retryIf. fst (run_state (retryRun P ctx c extr) m) = Inl e
               \<and> cm_retry c = Some policy \<and> rp_retryIf policy = Some retryIf \<and> retryIf e \<longrightarrow>
               is_err e ErrCancelled \<or> rp_maxAttempts policy \<le> int n)"
      by (intro exI [of _ s] exI [of _ r] exI [of _ s'] conjI)
    then show ?thesis
      using \<open>1 \<le> n\<close> \<open>n = 1 \<or> _\<close> False
      by (intro exI [of _ tr] exI [of _ "retry_backoff c"] exI [of _ n] exI [of _ b] conjI t) (simp_all add: retry_backoff_def)
  qed
qed

theorem retry_bounded_witness:
  "cm_retry retrying_cmd \<noteq> None
   \<and> (\<exists>tr n b. m_calls (snd (run_state (retryRun (quiet_exit 1) 0 retrying_cmd resultRun) (mach0 0)))
        = m_calls (mach0 (0::nat)) @ tr
      \<and> retry_trace (cmd_invocation retrying_cmd) 5 n b (filter verb_call tr) \<and> 1 \<le> n \<and> n \<le> 3)"
proof
  have p: "cm_retry retrying_cmd = Some \<lparr>rp_maxAttempts = 3, rp_backoff = 5, rp_retryIf = Some (\<lambda>e. True)\<rparr>"
    by (simp add: retrying_cmd_def builder_defs)
  then show "cm_retry retrying_cmd \<noteq> None" by simp
  from retry_bounded [OF retrying_cmd_traced, of "quiet_exit 1" 0 resultRun "mach0 0"]
  show "\<exists>tr n b. m_calls (snd (run_state (retryRun (quiet_exit 1) 0 retrying_cmd resultRun) (mach0 0)))
        = m_calls (mach0 (0::nat)) @ tr
      \<and> retry_trace (cmd_invocation retrying_cmd) 5 n b (filter verb_call tr) \<and> 1 \<le> n \<and> n \<le> 3"
    by (elim exE conjE) (intro exI conjI, assumption, auto simp: p)
qed

text \<open>
  A retried verb that is not interrupted in a sleep answers with its last attempt,
  unchanged: a value is the verb's reading of a result the runner returned, and an error is an
  attempt's error that was a cancellation, or came with the attempt budget spent, or was not
  classified as retryable (no policy, no classifier, or a classifier that said no).
\<close>

theorem retry_last_answer:
  assumes "traced_runner (cmd_runner P c)"
    "fst (run_state (retryRun P ctx c extr) m) = res"
  shows "\<exists>tr. m_calls (snd (run_state (retryRun P ctx c extr) m)) = m_calls m @ tr
    \<and> ((\<exists>cause. res = Inl (CancelError (cm_program c) cause)
          \<and> CSleep (retry_backoff c) False \<in> set tr)
       \<or> (\<exists>s r s'. run_state (cmd_runner P c ctx (cmd_invocation c)) s = (r, s')
            \<and> attempt_value extr r = res
            \<and> (\<forall>e. res = Inl e \<longrightarrow>
                 is_err e ErrCancelled
                 \<or> int (length (filter (\<lambda>x. x = CRunOutput (cmd_invocation c)) tr)) = max_attempts c
                 \<or> (\<forall>policy retryIf. cm_retry c = Some policy \<and> rp_retryIf policy = Some retryIf
                       \<longrightarrow> \<not> retryIf e))))"
proof -
  from retryRun_promise [OF assms(1), of ctx extr m] obtain tr n b where
    tr: "m_calls (snd (run_state (retryRun P ctx c extr) m)) = m_calls m @ tr"
    "retry_trace (cmd_invocation c) (retry_backoff c) n b (filter verb_call tr)"
    "int n \<le> max 1 (max_attempts c)"
    and b: "if b then \<exists>cause. res = Inl (CancelError (cm_program c) cause)
         else (\<exists>s r s'. run_state (cmd_runner P c ctx (cmd_invocation c)) s = (r, s')
                 \<and> attempt_value extr r = res
                 \<and> (\<forall>e. res = Inl e \<longrightarrow> retry_stops c (max_attempts c) n e))"
    unfolding retry_promise_def assms(2) by blast
  have n: "length (filter (\<lambda>x. x = CRunOutput (cmd_invocation c)) tr) = n"
  proof -
    have "filter (\<lambda>x. x = CRunOutput (cmd_invocation c)) (filter verb_call tr)
        = filter (\<lambda>x. x = CRunOutput (cmd_invocation c)) tr"
      by (induction tr) auto
    with retry_trace_attempts [OF tr(2)] show ?thesis by simp
  qed
  have last: "b \<Longrightarrow> CSleep (retry_backoff c) False \<in> set (filter verb_call tr)"
    using tr(2) by (induction rule: retry_trace.induct) auto
  have "retry_stops c (max_attempts c) n e \<Longrightarrow> is_err e ErrCancelled \<or> int n = max_attempts c
      \<or> (\<forall>policy retryIf. cm_retry c = Some policy \<and> rp_retryIf policy = Some retryIf
            \<longrightarrow> \<not> retryIf e)" for e
    using tr(3) max_attempts_pos [of c] by (auto simp: retry_stops_def)
  with tr(1) b last n show ?thesis by (cases b) (auto, blast+)
qed

theorem retry_last_answer_witness:
  "\<exists>tr. m_calls (snd (run_state (retryRun (quiet_exit 1) 0 retrying_cmd resultProbe) (mach0 0)))
      = m_calls (mach0 (0::nat)) @ tr
    \<and> (\<exists>s r s'. run_state (cmd_runner (quiet_exit 1) retrying_cmd 0 (cmd_invocation retrying_cmd)) s
          = (r, s') \<and> attempt_value resultProbe r = Inr False)"
proof -
  have v: "fst (run_state (retryRun (quiet_exit 1) 0 retrying_cmd resultProbe) (mach0 0)) = Inr False"
    by (simp add: retryRun_def retry_loop.simps cmd_run_def cmd_runner_def retrying_cmd_def
        builder_defs JobRunner_Output_def JobRunner_contained_def JobRunner_finish_def os_defs
        quiet_exit_def quiet_platform_def mach0_def cmd_invocation_def max_attempts_def
        cancelledBy_def attempt_value_def resultProbe_def result_Code_def resolveOutcome_def
        outcomeOf_def outcomeOf_unix_def)
  from retry_last_answer [OF retrying_cmd_traced v] show ?thesis by auto
qed

text \<open>
  A cancellation is terminal: when the first attempt ends with an error matching
  ErrCancelled, the verb returns that error after this one attempt, whatever the retry policy and
  its classifier say, and does nothing more.
\<close>

theorem cancellation_not_retried:
  assumes "run_state (cmd_run P c ctx) m = (Inl e, m')" "is_err e ErrCancelled"
  shows "run_state (retryRun P ctx c extr) m = (Inl e, m')"
  using assms by (simp add: retryRun_def retry_loop.simps [of P ctx c] attempt_value_def)

theorem cancellation_not_retried_witness:
  "fst (run_state (retryRun (quiet_platform \<lparr>ps_signaled = False, ps_signal = 0, ps_exitCode = 0\<rparr>
      (Some (Sentinel Context_Canceled))) 0 retrying_cmd resultRun) (mach0 1))
    = Inl (CancelError ''git'' (Some (Sentinel Context_Canceled)))"
proof -
  let ?P = "quiet_platform \<lparr>ps_signaled = False, ps_signal = 0, ps_exitCode = 0\<rparr>
      (Some (Sentinel Context_Canceled))"
  have "fst (run_state (cmd_run ?P retrying_cmd 0) (mach0 1))
      = Inl (CancelError ''git'' (Some (Sentinel Context_Canceled)))"
    by (simp add: cmd_run_def cmd_runner_def retrying_cmd_def builder_defs JobRunner_Output_def
        cancelledBy_def os_defs quiet_platform_def mach0_def cmd_invocation_def)
  then obtain m' where "run_state (cmd_run ?P retrying_cmd 0) (mach0 1)
      = (Inl (CancelError ''git'' (Some (Sentinel Context_Canceled))), m')"
    by (metis prod.collapse)
  from cancellation_not_retried [OF this, of resultRun] show ?thesis by simp
qed

text \<open>
  A success of the Run verb means success: the text it returns is the normalised stdout,
  trimmed, of a result the runner returned for this command, whose exit code is 0 or one of the
  command's ok-codes; the text holds no carriage return and does not end in white space.
\<close>

theorem run_verb_success:
  assumes "traced_runner (cmd_runner P c)" "fst (run_state (cmd_Run P c ctx) m) = Inr s"
  shows "\<exists>s0 s1 r code. run_state (cmd_runner P c ctx (cmd_invocation c)) s0 = (Inr r, s1)
    \<and> outcome_Code (r_outcome r) = Some code \<and> (code = 0 \<or> code \<in> set (cm_okCodes c))
    \<and> s = trim_right (normalize_ref (r_stdout r)) {CHR '' '', byte_of 9, CR, LF}
    \<and> CR \<notin> set s \<and> (s \<noteq> [] \<longrightarrow> last s \<notin> {CHR '' '', byte_of 9, CR, LF})"
proof -
  from retryRun_promise [OF assms(1), of ctx resultRun m] assms(2)
  obtain s0 r0 s1 where r0: "run_state (cmd_runner P c ctx (cmd_invocation c)) s0 = (r0, s1)"
    "attempt_value resultRun r0 = Inr s"
    unfolding retry_promise_def cmd_Run_def by (auto split: if_splits)
  then obtain r where r: "r0 = Inr r" "resultRun r = Inr s"
    by (auto simp: attempt_value_def split: sum.splits)
  from r(2) have suc: "Success r" and sv: "s = trim_right (result_Stdout r) {CHR '' '', byte_of 9, CR, LF}"
    by (auto simp: resultRun_def result_Err_def split: if_splits)
  have "process_runner (cmd_runner P c)" using assms(1) by (simp add: traced_runner_def)
  from process_runner.answers_success [OF this, of ctx "cmd_invocation c" s0 r s1] r0(1) r(1) suc
  obtain code where code: "outcome_Code (r_outcome r) = Some code"
    "code = 0 \<or> code \<in> set (cm_okCodes c)" by (auto simp: cmd_invocation_def)
  have "set s \<subseteq> set (normalize_ref (r_stdout r))"
    unfolding sv result_Stdout_def normalizeNewlines_eq_ref
    using trim_right_prefix set_mono_prefix by blast
  then have "CR \<notin> set s" using CR_notin_normalize_ref by blast
  moreover have "s \<noteq> [] \<longrightarrow> last s \<notin> {CHR '' '', byte_of 9, CR, LF}"
    unfolding sv using trim_right_last by blast
  ultimately show ?thesis using r0(1) r(1) code sv
    unfolding result_Stdout_def normalizeNewlines_eq_ref by blast
qed

theorem run_verb_success_witness:
  "fst (run_state (cmd_Run (quiet_exit 4) retrying_cmd 0) (mach0 0)) = Inr ''out''
   \<and> (\<exists>s0 s1 r code. run_state (cmd_runner (quiet_exit 4) retrying_cmd 0 (cmd_invocation retrying_cmd)) s0
          = (Inr r, s1)
      \<and> outcome_Code (r_outcome r) = Some code \<and> (code = 0 \<or> code \<in> set (cm_okCodes retrying_cmd)))"
proof -
  have v: "fst (run_state (cmd_Run (quiet_exit 4) retrying_cmd 0) (mach0 0)) = Inr ''out''"
    by (simp add: cmd_Run_def retryRun_def retry_loop.simps cmd_run_def cmd_runner_def
        retrying_cmd_def builder_defs JobRunner_Output_def JobRunner_contained_def
        JobRunner_finish_def os_defs quiet_exit_def quiet_platform_def mach0_def
        cmd_invocation_def max_attempts_def cancelledBy_def attempt_value_def resolveOutcome_def
        outcomeOf_def outcomeOf_unix_def resultRun_def result_Err_def Success_def result_Stdout_def
        normalizeNewlines_def ws_chars trim_right_def)
  from run_verb_success [OF retrying_cmd_traced v] v show ?thesis by blast
qed

text \<open>
  Each builder changes what it names and nothing else of the invocation that reaches the
  runner, and a client's defaults reach the runner with the subcommand's arguments appended:
  setting a standard input replaces the other kind, and appending to the environment starts from
  the inherited one exactly when none was set.
\<close>

theorem builders_set_one_field:
  "cmd_invocation (WithArgs as c) = (cmd_invocation c)\<lparr>inv_Args := inv_Args (cmd_invocation c) @ as\<rparr>
   \<and> cmd_invocation (WithDir d c) = (cmd_invocation c)\<lparr>inv_Dir := d\<rparr>
   \<and> cmd_invocation (WithEnv es c) = (cmd_invocation c)\<lparr>inv_Env := Some es\<rparr>
   \<and> cmd_invocation (AppendEnv environ es c) = (cmd_invocation c)\<lparr>inv_Env :=
        Some ((case inv_Env (cmd_invocation c) of None \<Rightarrow> environ | Some env \<Rightarrow> env) @ es)\<rparr>
   \<and> cmd_invocation (WithTimeout t c) = (cmd_invocation c)\<lparr>inv_Timeout := t\<rparr>
   \<and> cmd_invocation (WithOkCodes oks c) = (cmd_invocation c)\<lparr>inv_OkCodes := oks\<rparr>
   \<and> cmd_invocation (WithStdin r c) = (cmd_invocation c)\<lparr>inv_Stdin := map_option ReaderRef r\<rparr>
   \<and> cmd_invocation (WithStdinBytes b c) = (cmd_invocation c)\<lparr>inv_Stdin := Some (BytesReader b)\<rparr>
   \<and> cmd_invocation (WithRetry n t f c) = cmd_invocation c
   \<and> cmd_invocation (WithUncheckedInPipe c) = cmd_invocation c
   \<and> cmd_invocation (WithLogger l c) = cmd_invocation c
   \<and> cmd_invocation (WithRunner run c) = cmd_invocation c
   \<and> cmd_invocation (client_Command as (client_WithTimeout t cl)) =
        (cmd_invocation (cl_base cl))\<lparr>inv_Args := inv_Args (cmd_invocation (cl_base cl)) @ as,
          inv_Timeout := t\<rparr>"
  by (simp add: cmd_invocation_def builder_defs client_Command_def client_WithTimeout_def
      split: option.split)

text \<open>
  The retry event carries a preview of the child's output: its error attribute is the
  ExitError's text, which ends in the preview of the captured stderr, or of stdout when stderr is
  blank, whenever there is one.  (The documentation of \<^verbatim>\<open>WithLogger\<close> and of \<^verbatim>\<open>log.go\<close> says that
  events never carry a command's output.)
\<close>

theorem retry_event_carries_output:
  "\<exists>pre. log_retrying F True prog n k d (ExitError prog oc so se mech) =
      [\<lparr>ev_level = LDebug, ev_msg = ''retrying after a retryable failure'',
        ev_attrs = [AString ''program'' prog, AInt ''attempt'' n, AInt ''max_attempts'' k,
          AInt ''backoff_ms'' (milliseconds d), AString ''error'' (pre @ diagnostic se so)]\<rparr>]"
  by (cases "diagnostic se so = []")
    (simp_all add: log_retrying_def emit_event_def errAttr_def ExitError_text_def Let_def)

end
