(* ===== verification/Pipeline.thy ===== *)
theory Pipeline
  imports Command
begin

text \<open>
  Shell-free pipelines (\<^verbatim>\<open>pipeline.go\<close>): the pure fold \<^verbatim>\<open>pipefail\<close> of the stage outcomes into one
  result, and the orchestration \<^verbatim>\<open>Pipeline.Output\<close> on the machine.  The stages are waited for
  concurrently; the model waits for them in their order, which loses no behaviour because only the
  wait results and the world after all of them are read, and the platform chooses these freely.
  The lemmas describe which stage is blamed, when a chain is a success, and the calls of a chain
  on every path.
\<close>

section \<open>Pipelines\<close>

record 'w pipeline =
  pl_stages :: "'w cmd list"
  pl_timeout :: duration
  pl_stdin :: "nat option"
  pl_log :: runLog

definition Pipe :: "'w cmd list \<Rightarrow> 'w pipeline" where
  "Pipe stages = \<lparr>pl_stages = stages, pl_timeout = 0, pl_stdin = None, pl_log = False\<rparr>"

definition pipeline_WithTimeout :: "duration \<Rightarrow> 'w pipeline \<Rightarrow> 'w pipeline" where
  "pipeline_WithTimeout d p = p\<lparr>pl_timeout := d\<rparr>"

definition pipeline_WithStdin :: "nat option \<Rightarrow> 'w pipeline \<Rightarrow> 'w pipeline" where
  "pipeline_WithStdin r p = p\<lparr>pl_stdin := r\<rparr>"

definition pipeline_WithLogger :: "runLog \<Rightarrow> 'w pipeline \<Rightarrow> 'w pipeline" where
  "pipeline_WithLogger l p = p\<lparr>pl_log := l\<rparr>"

definition pipeline_name :: "'w pipeline \<Rightarrow> bytes" where
  "pipeline_name p = join '' | '' (map cm_program (pl_stages p))"

section \<open>The fold\<close>

record stageOutcome =
  so_program :: bytes
  so_args :: "bytes list"
  so_outcome :: outcome
  so_stderr :: bytes
  so_okCodes :: "int list"
  so_unchecked :: bool

definition stage_clean :: "stageOutcome \<Rightarrow> bool" where
  "stage_clean s = (case outcome_Code (so_outcome s) of
      None \<Rightarrow> False
    | Some code \<Rightarrow> if code = 0 then True else code_in code (so_okCodes s))"

definition sigPIPE :: int where
  "sigPIPE = 13"

definition isSigpipe :: "outcome \<Rightarrow> bool" where
  "isSigpipe oc = (case outcome_Signal oc of None \<Rightarrow> False | Some sig \<Rightarrow> sig = sigPIPE)"

text \<open>The result a stage gives, with the chain's stdout, mechanism and duration.\<close>

definition stage_result ::
    "stageOutcome \<Rightarrow> int list \<Rightarrow> bytes \<Rightarrow> mechanism \<Rightarrow> duration \<Rightarrow> result" where
  "stage_result s oks lastStdout mech dur =
    \<lparr>r_program = so_program s, r_args = so_args s, r_outcome = so_outcome s,
     r_stdout = lastStdout, r_stderr = so_stderr s, r_duration = dur, r_okCodes = oks,
     r_mechanism = mech\<rparr>"

definition pipefail :: "stageOutcome list \<Rightarrow> bytes \<Rightarrow> mechanism \<Rightarrow> duration \<Rightarrow> result" where
  "pipefail stages lastStdout mech dur =
    (let lst = last stages;
         failures = filter (\<lambda>s. \<not> so_unchecked s \<and> \<not> stage_clean s) stages
     in if 0 < length failures
        then (let blamed = (case List.find (\<lambda>s. \<not> isSigpipe (so_outcome s)) failures of
                    Some s \<Rightarrow> s | None \<Rightarrow> hd failures)
              in stage_result blamed (so_okCodes blamed) lastStdout mech dur)
        else (let okCodes =
                (if so_unchecked lst
                 then (case outcome_Code (so_outcome lst) of
                         Some code \<Rightarrow> if \<not> stage_clean lst then so_okCodes lst @ [code] else so_okCodes lst
                       | None \<Rightarrow> so_okCodes lst)
                 else so_okCodes lst)
              in stage_result lst okCodes lastStdout mech dur))"

section \<open>The orchestration\<close>

text \<open>
  One round of the start loop for stage \<open>i\<close>: \<open>carry\<close> is its standard input, \<open>ends\<close> the number of
  pipe ends the parent holds, \<open>started\<close> the processes started so far.  A failure carries the pipe
  ends and the processes the \<^verbatim>\<open>fail\<close> closure has to clean up.
\<close>

definition start_stage ::
    "'w platform \<Rightarrow> ctx \<Rightarrow> stdin_src option \<Rightarrow> nat \<Rightarrow> bool \<Rightarrow> 'w cmd \<Rightarrow> nat \<Rightarrow> pid list
     \<Rightarrow> ('w mach, (goerr \<times> nat \<times> pid list) + (pid \<times> ctx \<times> nat)) state" where
  "start_stage P runCtx carry i is_last stage ends started = do {
     stageCtx \<leftarrow> (if 0 < cm_timeout stage then withTimeout P runCtx (cm_timeout stage)
                  else State_Monad.return runCtx);
     let iv = (cmd_invocation stage)\<lparr>inv_Stdin := carry\<rparr>;
     perr \<leftarrow> (if is_last then State_Monad.return None else os_Pipe P);
     case perr of
       Some err \<Rightarrow> State_Monad.return (Inl (StartError (inv_Program iv) err, ends, started))
     | None \<Rightarrow> do {
         let out = (if is_last then ToBuffer else ToPipe i);
         let ends' = (if is_last then ends else ends + 2);
         cfg \<leftarrow> configure P iv;
         case cfg of
           Some err \<Rightarrow> State_Monad.return (Inl (StartError (inv_Program iv) err, ends', started))
         | None \<Rightarrow> do {
             st \<leftarrow> cmd_Start P stageCtx iv out;
             case st of
               Inl err \<Rightarrow> do {
                 e \<leftarrow> startErr P (inv_Program iv) err;
                 State_Monad.return (Inl (e, ends', started))
               }
             | Inr p \<Rightarrow> do {
                 asg \<leftarrow> job_Assign P p;
                 case asg of
                   Some err \<Rightarrow> State_Monad.return
                     (Inl (StartError (inv_Program iv) err, ends', started @ [p]))
                 | None \<Rightarrow> State_Monad.return (Inr (p, stageCtx, ends'))
               }
           }
       }
   }"

fun start_stages ::
    "'w platform \<Rightarrow> ctx \<Rightarrow> stdin_src option \<Rightarrow> nat \<Rightarrow> 'w cmd list \<Rightarrow> nat \<Rightarrow> (pid \<times> ctx) list
     \<Rightarrow> ('w mach, (goerr \<times> nat \<times> pid list) + (nat \<times> (pid \<times> ctx) list)) state" where
  "start_stages P runCtx carry i [] ends started = State_Monad.return (Inr (ends, started))"
| "start_stages P runCtx carry i (stage # rest) ends started = do {
     r \<leftarrow> start_stage P runCtx carry i (rest = []) stage ends (map fst started);
     case r of
       Inl failure \<Rightarrow> State_Monad.return (Inl failure)
     | Inr (p, stageCtx, ends') \<Rightarrow>
         start_stages P runCtx (Some (PipeRead i)) (Suc i) rest ends' (started @ [(p, stageCtx)])
   }"

fun wait_all :: "'w platform \<Rightarrow> pid list \<Rightarrow> ('w mach, processState option list) state" where
  "wait_all P [] = State_Monad.return []"
| "wait_all P (p # ps) = do {
     (st, err) \<leftarrow> cmd_Wait P p;
     sts \<leftarrow> wait_all P ps;
     State_Monad.return (st # sts)
   }"

definition pipeline_fail ::
    "'w platform \<Rightarrow> ctx \<Rightarrow> bytes \<Rightarrow> goerr \<Rightarrow> nat \<Rightarrow> pid list \<Rightarrow> ('w mach, goerr + result) state" where
  "pipeline_fail P parent name err ends started = do {
     _ \<leftarrow> job_Kill P;
     close_Pipes P ends;
     _ \<leftarrow> wait_all P started;
     cerr \<leftarrow> cancelledBy P parent name;
     State_Monad.return (Inl (case cerr of Some e \<Rightarrow> e | None \<Rightarrow> err))
   }"

fun stage_outcomes ::
    "'w platform \<Rightarrow> 'w cmd list \<Rightarrow> (pid \<times> ctx) list \<Rightarrow> processState option list
     \<Rightarrow> ('w mach, stageOutcome list) state" where
  "stage_outcomes P (stage # rest) ((p, sctx) # procs) (st # sts) = do {
     fired \<leftarrow> (if 0 < cm_timeout stage then deadlineFired P sctx else State_Monad.return False);
     se \<leftarrow> read_world (p_stderr P p);
     sos \<leftarrow> stage_outcomes P rest procs sts;
     State_Monad.return
       (\<lparr>so_program = cm_program stage, so_args = cm_args stage,
         so_outcome = resolveOutcome P st fired, so_stderr = normalizeNewlines se,
         so_okCodes = cm_okCodes stage, so_unchecked = cm_uncheckedInPipe stage\<rparr> # sos)
   }"
| "stage_outcomes P _ _ _ = State_Monad.return []"

text \<open>The part after all stages have started.\<close>

definition pipeline_finish ::
    "'w platform \<Rightarrow> 'w pipeline \<Rightarrow> ctx \<Rightarrow> ctx \<Rightarrow> mechanism \<Rightarrow> int \<Rightarrow> nat \<Rightarrow> (pid \<times> ctx) list
     \<Rightarrow> ('w mach, goerr + result) state" where
  "pipeline_finish P pl parent runCtx mech start ends procs = do {
     log_events (log_pipelineStarted (pl_log pl) (pipeline_name pl) (int (length (pl_stages pl))));
     close_Pipes P ends;
     sts \<leftarrow> wait_all P (map fst procs);
     now \<leftarrow> time_now P;
     _ \<leftarrow> job_Kill P;
     cerr \<leftarrow> cancelledBy P parent (pipeline_name pl);
     case cerr of
       Some e \<Rightarrow> State_Monad.return (Inl e)
     | None \<Rightarrow> do {
         fired \<leftarrow> (if 0 < pl_timeout pl then deadlineFired P runCtx else State_Monad.return False);
         (if fired then do {
           log_events (log_pipelineFinished (pl_log pl) (pipeline_name pl) timedOut (now - start));
           State_Monad.return (Inr
             \<lparr>r_program = pipeline_name pl, r_args = [], r_outcome = timedOut, r_stdout = [],
              r_stderr = [], r_duration = now - start, r_okCodes = [], r_mechanism = mech\<rparr>)
         } else do {
           sos \<leftarrow> stage_outcomes P (pl_stages pl) procs sts;
           so \<leftarrow> read_world (p_stdout P (fst (last procs)));
           let res = pipefail sos so mech (now - start);
           log_events (log_pipelineFinished (pl_log pl) (r_program res) (r_outcome res) (now - start));
           State_Monad.return (Inr res)
         })
       }
   }"

definition pipeline_contained ::
    "'w platform \<Rightarrow> 'w pipeline \<Rightarrow> ctx \<Rightarrow> ctx \<Rightarrow> mechanism \<Rightarrow> ('w mach, goerr + result) state" where
  "pipeline_contained P pl parent runCtx mech = do {
     start \<leftarrow> time_now P;
     r \<leftarrow> start_stages P runCtx (map_option ReaderRef (pl_stdin pl)) 0 (pl_stages pl) 0 [];
     case r of
       Inl (err, ends, started) \<Rightarrow> pipeline_fail P parent (pipeline_name pl) err ends started
     | Inr (ends, procs) \<Rightarrow> pipeline_finish P pl parent runCtx mech start ends procs
   }"

definition pipeline_Output ::
    "'w platform \<Rightarrow> 'w pipeline \<Rightarrow> ctx \<Rightarrow> ('w mach, goerr + result) state" where
  "pipeline_Output P pl parent =
    (if length (pl_stages pl) < 2 then State_Monad.return (Inl (Sentinel ErrTooFewStages))
     else do {
       runCtx \<leftarrow> (if 0 < pl_timeout pl then withTimeout P parent (pl_timeout pl)
                  else State_Monad.return parent);
       c \<leftarrow> cancelledBy P parent (pipeline_name pl);
       case c of
         Some e \<Rightarrow> State_Monad.return (Inl e)
       | None \<Rightarrow> do {
           j \<leftarrow> newJob P;
           case j of
             Inl err \<Rightarrow> State_Monad.return (Inl (StartError (pipeline_name pl) err))
           | Inr mech \<Rightarrow> do {
               r \<leftarrow> pipeline_contained P pl parent runCtx (toMechanism mech);
               _ \<leftarrow> job_Close P;
               State_Monad.return r
             }
         }
     })"

definition pipeline_verb :: "(result \<Rightarrow> goerr + 'a) \<Rightarrow> goerr + result \<Rightarrow> goerr + 'a" where
  "pipeline_verb f r = (case r of Inl err \<Rightarrow> Inl err | Inr res \<Rightarrow> f res)"

definition pipeline_Run :: "'w platform \<Rightarrow> 'w pipeline \<Rightarrow> ctx \<Rightarrow> ('w mach, goerr + bytes) state" where
  "pipeline_Run P pl ctx = do {
     r \<leftarrow> pipeline_Output P pl ctx; State_Monad.return (pipeline_verb resultRun r) }"

definition pipeline_ExitCode ::
    "'w platform \<Rightarrow> 'w pipeline \<Rightarrow> ctx \<Rightarrow> ('w mach, goerr + int) state" where
  "pipeline_ExitCode P pl ctx = do {
     r \<leftarrow> pipeline_Output P pl ctx; State_Monad.return (pipeline_verb resultExitCode r) }"

definition pipeline_Probe ::
    "'w platform \<Rightarrow> 'w pipeline \<Rightarrow> ctx \<Rightarrow> ('w mach, goerr + bool) state" where
  "pipeline_Probe P pl ctx = do {
     r \<leftarrow> pipeline_Output P pl ctx; State_Monad.return (pipeline_verb resultProbe r) }"

section \<open>The calls of a chain\<close>

text \<open>
  The calls of the start loop for \<open>m\<close> remaining stages from stage \<open>i\<close> on, whose first one reads
  \<open>si\<close>: the processes started, the number of pipes made, and whether all stages were started.
\<close>

definition stage_out :: "nat \<Rightarrow> nat \<Rightarrow> stdout_dst" where
  "stage_out m i = (if m = 0 then ToBuffer else ToPipe i)"

definition stage_pipe :: "nat \<Rightarrow> call list" where
  "stage_pipe m = (if m = 0 then [] else [CPipe True])"

inductive stages_trace ::
    "stdin_src option \<Rightarrow> nat \<Rightarrow> nat \<Rightarrow> pid list \<Rightarrow> nat \<Rightarrow> bool \<Rightarrow> call list \<Rightarrow> bool" where
  all_started: "stages_trace si i 0 [] 0 True []"
| pipe_fails: "0 < m \<Longrightarrow> stages_trace si i (Suc m) [] 0 False [CPipe False]"
| configure_fails: "stages_trace si i (Suc m) [] (min m 1) False (stage_pipe m @ [CConfigure False])"
| start_fails: "stages_trace si i (Suc m) [] (min m 1) False
    (stage_pipe m @ [CConfigure True, CStart si (stage_out m i) None])"
| assign_fails: "stages_trace si i (Suc m) [p] (min m 1) False
    (stage_pipe m @ [CConfigure True, CStart si (stage_out m i) (Some p), CAssign p False])"
| next_stage: "stages_trace (Some (PipeRead i)) (Suc i) m pids k ok tr \<Longrightarrow>
    stages_trace si i (Suc m) (p # pids) (min m 1 + k) ok
      (stage_pipe m @ CConfigure True # CStart si (stage_out m i) (Some p) # CAssign p True # tr)"

inductive pipeline_trace :: "stdin_src option \<Rightarrow> nat \<Rightarrow> bool \<Rightarrow> call list \<Rightarrow> bool" where
  rejected: "pipeline_trace si n False []"
| no_job: "pipeline_trace si n False [CNewJob False]"
| failed: "stages_trace si 0 n pids k False tr \<Longrightarrow> pipeline_trace si n False
    (CNewJob True # tr @ [CKill, CClosePipes (2 * k)] @ map CWait pids @ [CClose])"
| ran: "stages_trace si 0 n pids k True tr \<Longrightarrow> pipeline_trace si n True
    (CNewJob True # tr @ [CClosePipes (2 * k)] @ map CWait pids @ [CKill, CClose])"

lemma stages_trace_starts:
  "stages_trace si i m pids k ok tr \<Longrightarrow> CStart si' so (Some p) \<in> set tr \<Longrightarrow> p \<in> set pids"
  by (induction rule: stages_trace.induct) (auto simp: stage_pipe_def split: if_splits)

lemma stages_trace_ok_pids: "stages_trace si i m pids k True tr \<Longrightarrow> length pids = m"
  by (induction si i m pids k True tr rule: stages_trace.induct) auto

lemma no_orphan_waits [simp]: "no_orphan (map CWait ps @ tr) = no_orphan tr"
  by (induction ps) auto

lemma pipeline_trace_no_orphan: "pipeline_trace si n ok tr \<Longrightarrow> no_orphan tr"
  by (erule pipeline_trace.cases)
    (auto intro!: no_orphan_appendI dest: stages_trace_starts simp: image_iff)

text \<open>What the start loop promises of its answer and of the calls it appends.\<close>

definition start_post ::
    "stdin_src option \<Rightarrow> nat \<Rightarrow> nat \<Rightarrow> nat \<Rightarrow> pid list \<Rightarrow> call list
     \<Rightarrow> (goerr \<times> nat \<times> pid list) + (nat \<times> (pid \<times> ctx) list) \<Rightarrow> bool" where
  "start_post carry i n ends started tr res \<longleftrightarrow>
    (case res of
       Inl (err, ends', ps) \<Rightarrow> (\<exists>pids k. stages_trace carry i n pids k False tr
         \<and> ends' = ends + 2 * k \<and> ps = started @ pids)
     | Inr (ends', procs) \<Rightarrow> (\<exists>pids k. stages_trace carry i n pids k True tr
         \<and> ends' = ends + 2 * k \<and> map fst procs = started @ pids))"

lemma start_post_failI:
  "stages_trace carry i n pids k False tr \<Longrightarrow> ends' = ends + 2 * k \<Longrightarrow> ps = started @ pids \<Longrightarrow>
    start_post carry i n ends started tr (Inl (err, ends', ps))"
  by (auto simp: start_post_def)

lemma start_post_next:
  assumes "start_post (Some (PipeRead i)) (Suc i) m (ends + 2 * min m 1) (started @ [p]) tr res"
  shows "start_post carry i (Suc m) ends started
    (stage_pipe m @ CConfigure True # CStart carry (stage_out m i) (Some p) # CAssign p True # tr) res"
proof (cases res)
  case (Inl x)
  then obtain err ends' ps where x: "res = Inl (err, ends', ps)" by (cases x) auto
  with assms obtain pids k where
    "stages_trace (Some (PipeRead i)) (Suc i) m pids k False tr" "ends' = ends + 2 * min m 1 + 2 * k"
    "ps = (started @ [p]) @ pids" by (auto simp: start_post_def)
  then show ?thesis unfolding x
    by (intro start_post_failI [OF stages_trace.next_stage]) auto
next
  case (Inr x)
  then obtain ends' procs where x: "res = Inr (ends', procs)" by (cases x) auto
  with assms obtain pids k where
    "stages_trace (Some (PipeRead i)) (Suc i) m pids k True tr" "ends' = ends + 2 * min m 1 + 2 * k"
    "map fst procs = (started @ [p]) @ pids" by (auto simp: start_post_def)
  then show ?thesis unfolding x start_post_def
    by (auto intro!: exI [of _ "p # pids"] exI [of _ "min m 1 + k"] stages_trace.next_stage)
qed

lemma wp_start_stage:
  "wp (start_stage P runCtx carry i (n = 0) stage ends started)
    (\<lambda>res m'. m_logs m' = m_logs m \<and> (\<exists>tr. m_calls m' = m_calls m @ tr \<and>
      (case res of
         Inl (err, ends', ps) \<Rightarrow> \<exists>pids k. stages_trace carry i (Suc n) pids k False tr
           \<and> ends' = ends + 2 * k \<and> ps = started @ pids
       | Inr (p, sctx, ends') \<Rightarrow> ends' = ends + 2 * min n 1
           \<and> tr = stage_pipe n @ [CConfigure True, CStart carry (stage_out n i) (Some p), CAssign p True]))) m"
  using stages_trace.pipe_fails [of n carry i] stages_trace.configure_fails [of carry i n]
    stages_trace.start_fails [of carry i n] stages_trace.assign_fails [of carry i n]
  unfolding start_stage_def
  by (cases n)
    (auto simp: wp_simps os_defs Let_def stage_pipe_def stage_out_def cmd_invocation_def
      split: option.split sum.split)

lemma wp_start_stages:
  "wp (start_stages P runCtx carry i stages ends started)
    (\<lambda>res m'. m_logs m' = m_logs m \<and> (\<exists>tr. m_calls m' = m_calls m @ tr \<and>
      start_post carry i (length stages) ends (map fst started) tr res)) m"
proof (induction stages arbitrary: carry i ends started m)
  case Nil
  then show ?case by (auto simp: wp_simps start_post_def intro: stages_trace.all_started)
next
  case (Cons stage rest)
  have e: "(rest = []) = (length rest = 0)" by simp
  show ?case
    unfolding start_stages.simps e
    by (rule wp_bindI, rule wp_mono [OF wp_start_stage])
      (auto simp: wp_simps split: sum.splits intro!: wp_mono [OF Cons.IH]
        intro: start_post_failI start_post_next [unfolded One_nat_def])
qed

lemma wp_wait_all:
  "wp (wait_all P ps) (\<lambda>sts m'. m_calls m' = m_calls m @ map CWait ps \<and> m_logs m' = m_logs m
    \<and> length sts = length ps) m"
proof (induction ps arbitrary: m)
  case (Cons p ps)
  then show ?case by (auto simp: wp_simps os_defs intro!: wp_mono [OF Cons.IH])
qed (simp add: wp_simps)

lemma wp_stage_outcomes:
  "length procs = length stages \<Longrightarrow> length sts = length stages \<Longrightarrow>
    wp (stage_outcomes P stages procs sts)
      (\<lambda>sos m'. m_calls m' = m_calls m \<and> m_logs m' = m_logs m
        \<and> map so_program sos = map cm_program stages \<and> map so_args sos = map cm_args stages
        \<and> map so_okCodes sos = map cm_okCodes stages
        \<and> map so_unchecked sos = map cm_uncheckedInPipe stages
        \<and> list_all (\<lambda>s. built (so_outcome s)) sos) m"
proof (induction P stages procs sts arbitrary: m rule: stage_outcomes.induct)
  case (1 P stage rest p sctx procs st sts)
  then show ?case
    by (auto simp: wp_simps os_defs resolveOutcome_def split: option.split intro!: wp_mono [OF "1.IH"])
qed (auto simp: wp_simps)

text \<open>
  The part between the creation of the job and its deferred close: what it appends is the start
  loop's calls and either the clean-up of a failure or the waits and the reap.
\<close>

definition contained_post :: "stdin_src option \<Rightarrow> nat \<Rightarrow> call list \<Rightarrow> goerr + result \<Rightarrow> bool" where
  "contained_post si n tr res \<longleftrightarrow>
    (\<exists>st pids k. (stages_trace si 0 n pids k False st \<and> isl res
         \<and> tr = st @ [CKill, CClosePipes (2 * k)] @ map CWait pids)
      \<or> (stages_trace si 0 n pids k True st
         \<and> tr = st @ [CClosePipes (2 * k)] @ map CWait pids @ [CKill]))"

lemma wp_pipeline_fail:
  "wp (pipeline_fail P parent name err ends started)
    (\<lambda>res m'. m_calls m' = m_calls m @ [CKill, CClosePipes ends] @ map CWait started
      \<and> m_logs m' = m_logs m \<and> isl res) m"
  unfolding pipeline_fail_def
  by (auto simp: wp_simps os_defs intro!: wp_mono [OF wp_wait_all] split: option.split)

lemma wp_pipeline_finish:
  assumes "length procs = length (pl_stages pl)"
  shows "wp (pipeline_finish P pl parent runCtx mech start ends procs)
    (\<lambda>res m'. m_calls m' = m_calls m @ [CClosePipes ends] @ map CWait (map fst procs) @ [CKill]) m"
  unfolding pipeline_finish_def
  by (auto simp: wp_simps os_defs Let_def assms intro!: wp_mono [OF wp_wait_all]
      wp_mono [OF wp_stage_outcomes] split: option.split)

lemma wp_pipeline_contained:
  "wp (pipeline_contained P pl parent runCtx mech)
    (\<lambda>res m'. \<exists>tr. m_calls m' = m_calls m @ tr
      \<and> contained_post (map_option ReaderRef (pl_stdin pl)) (length (pl_stages pl)) tr res) m"
proof -
  let ?si = "map_option ReaderRef (pl_stdin pl)" and ?n = "length (pl_stages pl)"
  have fin: "wp (pipeline_finish P pl parent runCtx mech start ends procs)
    (\<lambda>res m'. \<exists>tr. m_calls m' = m_calls m @ tr \<and> contained_post ?si ?n tr res) m1"
    if "m_calls m1 = m_calls m @ tr" "start_post ?si 0 ?n 0 [] tr (Inr (ends, procs))"
    for m1 tr start ends procs
  proof -
    from that(2) obtain k where k: "stages_trace ?si 0 ?n (map fst procs) k True tr" "ends = 2 * k"
      by (auto simp: start_post_def)
    from stages_trace_ok_pids [OF k(1)] have "length procs = length (pl_stages pl)" by simp
    have "contained_post ?si ?n (tr @ [CClosePipes ends] @ map CWait (map fst procs) @ [CKill]) res"
      for res
      unfolding contained_post_def k(2) using k(1)
      by (intro exI [of _ tr] exI [of _ "map fst procs"] exI [of _ k]) simp
    with that(1) show ?thesis
      by (intro wp_mono [OF wp_pipeline_finish [OF \<open>length procs = length (pl_stages pl)\<close>]]) auto
  qed
  have fl: "wp (pipeline_fail P parent (pipeline_name pl) err ends ps)
    (\<lambda>res m'. \<exists>tr. m_calls m' = m_calls m @ tr \<and> contained_post ?si ?n tr res) m1"
    if "m_calls m1 = m_calls m @ tr" "start_post ?si 0 ?n 0 [] tr (Inl (err, ends, ps))"
    for m1 tr err ends ps
  proof -
    from that(2) obtain k where k: "stages_trace ?si 0 ?n ps k False tr" "ends = 2 * k"
      by (auto simp: start_post_def)
    show ?thesis
      by (rule wp_mono [OF wp_pipeline_fail]) (use that k in \<open>auto simp: contained_post_def\<close>)
  qed
  show ?thesis
    unfolding pipeline_contained_def
    by (auto simp: wp_simps os_defs split: sum.split intro: fin fl intro!: wp_mono [OF wp_start_stages])
qed

lemma wp_pipeline_Output:
  "wp (pipeline_Output P pl parent)
    (\<lambda>res m'. \<exists>tr. m_calls m' = m_calls m @ tr
      \<and> (\<exists>ok. pipeline_trace (map_option ReaderRef (pl_stdin pl)) (length (pl_stages pl)) ok tr
             \<and> (\<not> ok \<longrightarrow> isl res))) m"
proof -
  let ?si = "map_option ReaderRef (pl_stdin pl)" and ?n = "length (pl_stages pl)"
  have fin: "\<exists>ok. pipeline_trace ?si ?n ok (CNewJob True # tr @ [CClose]) \<and> (\<not> ok \<longrightarrow> isl res)"
    if "contained_post ?si ?n tr res" for tr res
  proof -
    from that consider (f) st pids k where "stages_trace ?si 0 ?n pids k False st" "isl res"
        "tr = st @ [CKill, CClosePipes (2 * k)] @ map CWait pids"
      | (r) st pids k where "stages_trace ?si 0 ?n pids k True st"
        "tr = st @ [CClosePipes (2 * k)] @ map CWait pids @ [CKill]"
      unfolding contained_post_def by blast
    then show ?thesis
    proof cases
      case f
      from pipeline_trace.failed [OF f(1)] f(2,3) show ?thesis by (intro exI [of _ False]) simp
    next
      case r
      from pipeline_trace.ran [OF r(1)] r(2) show ?thesis by (intro exI [of _ True]) simp
    qed
  qed
  have "pipeline_trace ?si ?n False []" "pipeline_trace ?si ?n False [CNewJob False]"
    by (auto intro: pipeline_trace.intros)
  then show ?thesis
    unfolding pipeline_Output_def
    by (auto simp: wp_simps os_defs split: option.split sum.split
        intro!: wp_mono [OF wp_pipeline_contained] intro: fin)
qed

section \<open>Blame\<close>

definition stage_failed :: "stageOutcome \<Rightarrow> bool" where
  "stage_failed s \<longleftrightarrow> \<not> so_unchecked s \<and> \<not> stage_clean s"

lemma stage_clean_iff:
  "stage_clean s \<longleftrightarrow>
    (\<exists>c. outcome_Code (so_outcome s) = Some c \<and> (c = 0 \<or> c \<in> set (so_okCodes s)))"
  by (auto simp: stage_clean_def split: option.split)

lemma Success_stage_result:
  "Success (stage_result s (so_okCodes s) out mech dur) = stage_clean s"
  by (simp add: Success_iff stage_clean_iff stage_result_def)

text \<open>The stage the fold blames, when a checked stage failed.\<close>

definition blamed :: "stageOutcome list \<Rightarrow> stageOutcome" where
  "blamed stages =
    (case List.find (\<lambda>s. stage_failed s \<and> \<not> isSigpipe (so_outcome s)) stages of
       Some s \<Rightarrow> s | None \<Rightarrow> the (List.find stage_failed stages))"

lemma pipefail_blames:
  assumes "\<exists>s \<in> set stages. stage_failed s"
  shows "pipefail stages out mech dur = stage_result (blamed stages) (so_okCodes (blamed stages)) out mech dur"
proof -
  have f: "filter (\<lambda>s. \<not> so_unchecked s \<and> \<not> stage_clean s) stages = filter stage_failed stages"
    by (rule filter_cong) (auto simp: stage_failed_def)
  have ne: "filter stage_failed stages \<noteq> []" using assms by (auto simp: filter_empty_conv)
  show ?thesis
    unfolding pipefail_def f find_filter blamed_def filter_hd_find [OF ne] option.sel Let_def
    using ne by (auto split: option.split)
qed

lemma pipefail_last_speaks:
  assumes "\<forall>s \<in> set stages. \<not> stage_failed s"
  shows "\<exists>oks. pipefail stages out mech dur = stage_result (last stages) oks out mech dur
    \<and> set oks = set (so_okCodes (last stages)) \<union>
        {c. so_unchecked (last stages) \<and> outcome_Code (so_outcome (last stages)) = Some c
            \<and> \<not> stage_clean (last stages)}"
proof -
  have f: "filter (\<lambda>s. \<not> so_unchecked s \<and> \<not> stage_clean s) stages = []"
    using assms by (auto simp: filter_empty_conv stage_failed_def)
  show ?thesis unfolding pipefail_def f Let_def
    by (auto split: option.split)
qed

lemma blamed_failed:
  assumes "\<exists>s \<in> set stages. stage_failed s"
  shows "\<exists>pre post. stages = pre @ blamed stages # post \<and> stage_failed (blamed stages)
    \<and> (if isSigpipe (so_outcome (blamed stages))
       then (\<forall>s \<in> set pre. \<not> stage_failed s)
         \<and> (\<forall>s \<in> set post. stage_failed s \<longrightarrow> isSigpipe (so_outcome s))
       else (\<forall>s \<in> set pre. stage_failed s \<longrightarrow> isSigpipe (so_outcome s)))"
proof (cases "List.find (\<lambda>s. stage_failed s \<and> \<not> isSigpipe (so_outcome s)) stages")
  case (Some s)
  with find_Some_prefix [OF Some] show ?thesis by (auto simp: blamed_def)
next
  case None
  from assms obtain s where s: "List.find stage_failed stages = Some s"
    by (cases "List.find stage_failed stages") (auto simp: find_None_iff)
  from find_Some_prefix [OF s] obtain pre post where
    "stages = pre @ s # post" "stage_failed s" "\<forall>y \<in> set pre. \<not> stage_failed y" by blast
  moreover have "blamed stages = s" using None s by (simp add: blamed_def)
  moreover have "x \<in> set stages \<Longrightarrow> stage_failed x \<Longrightarrow> isSigpipe (so_outcome x)" for x
    using None by (auto simp: find_None_iff)
  ultimately show ?thesis by (intro exI [of _ pre] exI [of _ post]) auto
qed

lemma blamed_checked [simp]:
  "\<exists>s \<in> set stages. stage_failed s \<Longrightarrow> stage_failed (blamed stages)"
  using blamed_failed by blast

section \<open>Wiring\<close>

text \<open>The starts of a call sequence: the standard input and output of each started process.\<close>

fun starts_of :: "call list \<Rightarrow> (stdin_src option \<times> stdout_dst \<times> pid) list" where
  "starts_of [] = []"
| "starts_of (CStart si so (Some p) # tr) = (si, so, p) # starts_of tr"
| "starts_of (_ # tr) = starts_of tr"

lemma starts_of_append [simp]: "starts_of (xs @ ys) = starts_of xs @ starts_of ys"
  by (induction xs rule: starts_of.induct) auto

lemma starts_of_waits [simp]: "starts_of (map CWait ps) = []"
  by (induction ps) auto

lemma stages_trace_wiring:
  "stages_trace si i m pids k True tr \<Longrightarrow>
    starts_of tr = map (\<lambda>j. (if j = 0 then si else Some (PipeRead (i + j - 1)),
        if Suc j = m then ToBuffer else ToPipe (i + j), pids ! j)) [0..<m]"
proof (induction si i m pids k True tr rule: stages_trace.induct)
  case (next_stage i m pids k tr si p)
  have "[0..<Suc m] = 0 # map Suc [0..<m]" by (simp add: map_Suc_upt upt_conv_Cons)
  with next_stage show ?case
    by (auto simp: stage_pipe_def stage_out_def intro!: map_cong)
qed simp_all

section \<open>A platform with a clock\<close>

text \<open>
  A concrete platform whose world is the time and the number of processes started: process \<open>p\<close>
  ends at time \<open>finish p\<close> with exit code 0, a context is 0 without a deadline and its deadline
  otherwise, and a context has ended once the clock has reached its deadline.
\<close>

definition clocked_platform :: "(pid \<Rightarrow> int) \<Rightarrow> (int \<times> nat) platform" where
  "clocked_platform finish =
    \<lparr>p_unix = True,
     p_fmt = \<lparr>strerror = (\<lambda>_. []), quote_text = (\<lambda>s. s), list_text = concat\<rparr>,
     p_ctxErr = (\<lambda>c w. (if c \<noteq> 0 \<and> int c \<le> fst w then Some (Sentinel Context_DeadlineExceeded) else None, w)),
     p_withTimeout = (\<lambda>c d w. (let n = nat (fst w + d) in if c = 0 then n else min c n, w)),
     p_now = (\<lambda>w. (fst w, w)),
     p_timer = (\<lambda>c d w. (True, (fst w + d, snd w))),
     p_PATH = (\<lambda>w. []),
     p_newJob = (\<lambda>w. (Inr Sys_ProcessGroup, w)),
     p_configure = (\<lambda>iv w. (None, w)),
     p_pipe = (\<lambda>w. (None, w)),
     p_start = (\<lambda>c iv out w. (Inr (int (snd w)), (fst w, Suc (snd w)))),
     p_assign = (\<lambda>p w. (None, w)),
     p_closePipes = (\<lambda>n w. w),
     p_wait = (\<lambda>p w. ((Some \<lparr>ps_signaled = False, ps_signal = 0, ps_exitCode = 0\<rparr>, None),
       (max (fst w) (finish p), snd w))),
     p_killProc = (\<lambda>p w. w),
     p_stdout = (\<lambda>p w. ''out''),
     p_stderr = (\<lambda>p w. []),
     p_kill = (\<lambda>w. (None, w)),
     p_close = (\<lambda>w. (None, w))\<rparr>"

section \<open>Properties\<close>

text \<open>
  Claim C2. A chain leaves no orphan on any path: every process a chain started is waited for, the
  job is killed after the starts and a created job is closed last; both ends of every pipe made
  are closed before the first wait; and when a stage cannot be started the processes before it are
  killed and reaped.
\<close>

theorem pipeline_leaves_no_orphan:
  "\<exists>tr ok. m_calls (snd (run_state (pipeline_Output P pl ctx) m)) = m_calls m @ tr
     \<and> pipeline_trace (map_option ReaderRef (pl_stdin pl)) (length (pl_stages pl)) ok tr
     \<and> no_orphan tr \<and> (tr \<in> {[], [CNewJob False]} \<or> last tr = CClose)"
proof -
  from wp_pipeline_Output [of P pl ctx m] obtain tr ok where
    tr: "m_calls (snd (run_state (pipeline_Output P pl ctx) m)) = m_calls m @ tr"
    "pipeline_trace (map_option ReaderRef (pl_stdin pl)) (length (pl_stages pl)) ok tr"
    by (auto simp: wp_def split: prod.splits)
  moreover have "tr \<in> {[], [CNewJob False]} \<or> last tr = CClose"
    using tr(2) by (auto elim!: pipeline_trace.cases)
  ultimately show ?thesis using pipeline_trace_no_orphan by blast
qed

text \<open>
  A chain that answers with a result started every stage, in order, and wired it to its
  neighbours: stage 0 reads the chain's standard input, stage j reads the pipe stage j - 1 writes,
  and the last stage writes to the captured buffer.
\<close>

theorem pipeline_wires_stages:
  assumes "fst (run_state (pipeline_Output P pl ctx) m) = Inr res"
  shows "\<exists>tr pids. m_calls (snd (run_state (pipeline_Output P pl ctx) m)) = m_calls m @ tr
    \<and> starts_of tr = map (\<lambda>j.
        (if j = 0 then map_option ReaderRef (pl_stdin pl) else Some (PipeRead (j - 1)),
         if Suc j = length (pl_stages pl) then ToBuffer else ToPipe j, pids ! j))
        [0..<length (pl_stages pl)]"
proof -
  from wp_pipeline_Output [of P pl ctx m] assms obtain tr where
    tr: "m_calls (snd (run_state (pipeline_Output P pl ctx) m)) = m_calls m @ tr"
    "pipeline_trace (map_option ReaderRef (pl_stdin pl)) (length (pl_stages pl)) True tr"
    by (auto simp: wp_def split: prod.splits)
  from tr(2) obtain pids k st where
    "stages_trace (map_option ReaderRef (pl_stdin pl)) 0 (length (pl_stages pl)) pids k True st"
    "starts_of tr = starts_of st"
    by (auto elim!: pipeline_trace.cases)
  with tr(1) stages_trace_wiring show ?thesis by (intro exI [of _ tr] exI [of _ pids]) fastforce
qed

definition two_stage :: "duration \<Rightarrow> (int \<times> nat) pipeline" where
  "two_stage d = Pipe [WithTimeout d (mk_Command ''a'' []), mk_Command ''b'' []]"

lemmas pipeline_eval = two_stage_def Pipe_def builder_defs pipeline_Output_def
  pipeline_contained_def pipeline_finish_def start_stage_def cmd_invocation_def cancelledBy_def
  deadlineFired_def clocked_platform_def resolveOutcome_def outcomeOf_def outcomeOf_unix_def
  mach0_def os_defs pipeline_name_def Let_def normalizeNewlines_def

theorem pipeline_wires_stages_witness:
  "\<exists>tr pids. m_calls (snd (run_state (pipeline_Output (clocked_platform (\<lambda>p. 5)) (two_stage 0) 0)
        (mach0 (0, 0)))) = tr
    \<and> starts_of tr = [(None, ToPipe 0, pids ! 0), (Some (PipeRead 0), ToBuffer, pids ! 1)]"
proof -
  have "\<exists>res. fst (run_state (pipeline_Output (clocked_platform (\<lambda>p. 5)) (two_stage 0) 0)
        (mach0 (0, 0))) = Inr res"
    by (simp add: pipeline_eval)
  then obtain res where "fst (run_state (pipeline_Output (clocked_platform (\<lambda>p. 5)) (two_stage 0) 0)
        (mach0 (0, 0))) = Inr res" ..
  from pipeline_wires_stages [OF this] show ?thesis
    by (simp add: two_stage_def Pipe_def mach0_def upt_rec)
qed

text \<open>
  A chain succeeds exactly when every checked stage exited with 0 or one of its ok-codes
  and the last stage exited with some code (a checked last stage with a good one); an unchecked
  last stage is forgiven its code but neither a signal nor a timeout.
\<close>

theorem pipefail_success_iff:
  assumes "stages \<noteq> []"
  shows "Success (pipefail stages out mech dur) \<longleftrightarrow>
    (\<forall>s \<in> set stages. \<not> so_unchecked s \<longrightarrow> stage_clean s)
    \<and> outcome_Code (so_outcome (last stages)) \<noteq> None"
proof (cases "\<exists>s \<in> set stages. stage_failed s")
  case True
  then have "\<not> stage_clean (blamed stages)" using blamed_checked stage_failed_def by blast
  with True show ?thesis by (auto simp: pipefail_blames Success_stage_result stage_failed_def)
next
  case False
  then have "\<forall>s \<in> set stages. \<not> stage_failed s" by blast
  from pipefail_last_speaks [OF this, of out mech dur] obtain oks where
    "pipefail stages out mech dur = stage_result (last stages) oks out mech dur"
    "set oks = set (so_okCodes (last stages)) \<union>
        {c. so_unchecked (last stages) \<and> outcome_Code (so_outcome (last stages)) = Some c
            \<and> \<not> stage_clean (last stages)}" by blast
  moreover have "last stages \<in> set stages" using assms by simp
  ultimately show ?thesis using False
    by (auto simp: Success_iff stage_result_def stage_failed_def stage_clean_iff)
qed

theorem pipefail_success_iff_witness:
  "Success (pipefail
     [\<lparr>so_program = ''yes'', so_args = [], so_outcome = signalled (Some 13), so_stderr = [],
       so_okCodes = [], so_unchecked = True\<rparr>,
      \<lparr>so_program = ''head'', so_args = [], so_outcome = exited 3, so_stderr = [],
       so_okCodes = [3], so_unchecked = False\<rparr>] ''out'' MechanismProcessGroup 7)"
  by (subst pipefail_success_iff) (simp_all add: stage_clean_iff)

text \<open>
  Claim C17. A failed chain is attributed to one of its failed checked stages: the leftmost that was
  not killed by SIGPIPE, or the leftmost of all when every failure is a SIGPIPE; program,
  arguments, outcome, stderr and ok-codes are that stage's, and stdout is always the last stage's
  capture.
\<close>

theorem pipefail_leftmost_blame:
  assumes "\<exists>s \<in> set stages. \<not> so_unchecked s \<and> \<not> stage_clean s"
  shows "\<exists>pre s post. stages = pre @ s # post
    \<and> pipefail stages out mech dur =
        \<lparr>r_program = so_program s, r_args = so_args s, r_outcome = so_outcome s, r_stdout = out,
         r_stderr = so_stderr s, r_duration = dur, r_okCodes = so_okCodes s, r_mechanism = mech\<rparr>
    \<and> \<not> so_unchecked s \<and> \<not> stage_clean s
    \<and> (\<forall>t \<in> set pre. \<not> so_unchecked t \<and> \<not> stage_clean t \<longrightarrow>
          isSigpipe (so_outcome t) \<and> \<not> isSigpipe (so_outcome s))
    \<and> (isSigpipe (so_outcome s) \<longrightarrow> (\<forall>t \<in> set post. \<not> so_unchecked t \<and> \<not> stage_clean t \<longrightarrow>
          isSigpipe (so_outcome t)))"
proof -
  have "\<exists>s \<in> set stages. stage_failed s" using assms by (auto simp: stage_failed_def)
  note b = pipefail_blames [OF this] and f = blamed_failed [OF this]
  define s where s: "s = blamed stages"
  from f obtain pre post where p: "stages = pre @ s # post" "stage_failed s"
    "if isSigpipe (so_outcome s)
       then (\<forall>s \<in> set pre. \<not> stage_failed s)
         \<and> (\<forall>s \<in> set post. stage_failed s \<longrightarrow> isSigpipe (so_outcome s))
       else (\<forall>s \<in> set pre. stage_failed s \<longrightarrow> isSigpipe (so_outcome s))"
    unfolding s by (elim exE conjE)
  have r: "pipefail stages out mech dur =
        \<lparr>r_program = so_program s, r_args = so_args s, r_outcome = so_outcome s, r_stdout = out,
         r_stderr = so_stderr s, r_duration = dur, r_okCodes = so_okCodes s, r_mechanism = mech\<rparr>"
    unfolding b s by (simp add: stage_result_def)
  show ?thesis
  proof (rule exI [of _ pre], rule exI [of _ s], rule exI [of _ post], intro conjI p(1) r)
    show "\<not> so_unchecked s" "\<not> stage_clean s" using p(2) by (simp_all add: stage_failed_def)
    show "\<forall>t \<in> set pre. \<not> so_unchecked t \<and> \<not> stage_clean t \<longrightarrow>
          isSigpipe (so_outcome t) \<and> \<not> isSigpipe (so_outcome s)"
      using p(3) unfolding stage_failed_def by (cases "isSigpipe (so_outcome s)"; presburger)
    show "isSigpipe (so_outcome s) \<longrightarrow> (\<forall>t \<in> set post. \<not> so_unchecked t \<and> \<not> stage_clean t \<longrightarrow>
          isSigpipe (so_outcome t))"
      using p(3) unfolding stage_failed_def by presburger
  qed
qed

lemma two_split: "[a, b] = pre @ s # post \<Longrightarrow> (s = a \<and> post = [b]) \<or> s = b"
  by (cases pre) (auto simp: Cons_eq_append_conv)

theorem pipefail_leftmost_blame_witness:
  "\<exists>a b. isSigpipe (so_outcome a) \<and> \<not> so_unchecked a
     \<and> r_program (pipefail [a, b] ''out'' MechanismProcessGroup 7) = so_program b"
proof -
  define a b where "a = \<lparr>so_program = ''a'', so_args = [], so_outcome = signalled (Some 13),
      so_stderr = [], so_okCodes = [], so_unchecked = False\<rparr>"
    and "b = \<lparr>so_program = ''b'', so_args = [], so_outcome = exited 2, so_stderr = [],
      so_okCodes = [], so_unchecked = False\<rparr>"
  have ab: "\<not> so_unchecked a \<and> \<not> stage_clean a" "\<not> so_unchecked b \<and> \<not> stage_clean b"
    "isSigpipe (so_outcome a)" "\<not> isSigpipe (so_outcome b)"
    by (simp_all add: stage_clean_iff isSigpipe_def sigPIPE_def a_def b_def)
  then have "\<exists>s \<in> set [a, b]. \<not> so_unchecked s \<and> \<not> stage_clean s" by simp
  from pipefail_leftmost_blame [OF this, of "''out''" MechanismProcessGroup 7]
  obtain pre s post where s: "[a, b] = pre @ s # post"
    "r_program (pipefail [a, b] ''out'' MechanismProcessGroup 7) = so_program s"
    "isSigpipe (so_outcome s) \<longrightarrow> (\<forall>t \<in> set post. \<not> so_unchecked t \<and> \<not> stage_clean t
        \<longrightarrow> isSigpipe (so_outcome t))"
    by (elim exE conjE) simp
  have "s = b" using two_split [OF s(1)] s(3) ab by auto
  with s(2) ab show ?thesis by metis
qed

text \<open>
  A stage's own deadline is judged when the whole chain has ended, not when the stage
  has: a first stage that exited with 0 before its deadline is reported as timed out, and blamed,
  whenever a later stage runs past that deadline.
\<close>

theorem stage_deadline_judged_late:
  assumes "0 \<le> f0" "f0 < d" "d \<le> f1"
  shows "\<exists>res. fst (run_state (pipeline_Output (clocked_platform (\<lambda>p. if p = 0 then f0 else f1))
      (two_stage d) 0) (mach0 (0, 0))) = Inr res
    \<and> r_outcome res = timedOut \<and> r_program res = ''a'' \<and> \<not> Success res"
proof -
  have t: "max 0 f0 = f0" "max f0 f1 = f1" "0 < d" "nat d \<noteq> 0" "int (nat d) = d" "0 \<le> d" "0 \<le> f1" using assms by auto
  have "fst (run_state (pipeline_Output (clocked_platform (\<lambda>p. if p = 0 then f0 else f1))
      (two_stage d) 0) (mach0 (0, 0))) = Inr (pipefail
        [\<lparr>so_program = ''a'', so_args = [], so_outcome = timedOut, so_stderr = [],
           so_okCodes = [], so_unchecked = False\<rparr>,
         \<lparr>so_program = ''b'', so_args = [], so_outcome = exited 0, so_stderr = [],
           so_okCodes = [], so_unchecked = False\<rparr>] ''out'' MechanismProcessGroup f1)"
    using assms(3) by (simp add: pipeline_eval t)
  then show ?thesis
    by (simp add: pipefail_def stage_clean_def stage_result_def isSigpipe_def Success_def Let_def)
qed

theorem stage_deadline_judged_late_witness:
  "\<exists>res. fst (run_state (pipeline_Output (clocked_platform (\<lambda>p. if p = 0 then 1 else 50))
      (two_stage 10) 0) (mach0 (0, 0))) = Inr res \<and> r_outcome res = timedOut \<and> r_program res = ''a''"
  using stage_deadline_judged_late [of 1 10 50] by auto

end
