(* ===== verification/GoFloat.thy ===== *)
theory GoFloat
  imports Complex_Main Prelude "HOL-Library.Log_Nat" "HOL-Library.Signed_Division"
begin

text \<open>
  The binary64 arithmetic the supervisor uses.  A value is NaN, an infinity or a rational; every
  operation rounds its exact result to the nearest double, ties to even, with subnormals and with
  overflow to infinity.  The sign of zero is not kept, because no code of the repository observes
  it.  \<^verbatim>\<open>math.Pow\<close> is library code, a parameter of the theories that use it.
  The lemmas show that rounding is monotone, exact on representable values and idempotent.
\<close>

datatype f64 = NaN | PInf | NInf | Fin rat

section \<open>Rounding\<close>

text \<open>The power of two below a positive rational, by the bit lengths of its two parts.\<close>

definition two_pow :: "int \<Rightarrow> rat" where
  "two_pow e = (if 0 \<le> e then 2 ^ nat e else 1 / 2 ^ nat (- e))"

definition ilog2 :: "rat \<Rightarrow> int" where
  "ilog2 q = (case quotient_of q of (a, b) \<Rightarrow>
     let e = bitlen a - bitlen b in if two_pow e \<le> q then e else e - 1)"

definition round_even :: "rat \<Rightarrow> int" where
  "round_even q =
    (let f = \<lfloor>q\<rfloor>; r = q - of_int f
     in if r < 1/2 then f else if 1/2 < r then f + 1 else if even f then f else f + 1)"

definition ulp_exp :: "rat \<Rightarrow> int" where
  "ulp_exp q = max (ilog2 q - 52) (- 1074)"

definition rnd_pos :: "rat \<Rightarrow> rat" where
  "rnd_pos q = (if q = 0 then 0 else of_int (round_even (q / two_pow (ulp_exp q))) * two_pow (ulp_exp q))"

definition rnd :: "rat \<Rightarrow> f64" where
  "rnd q = (let r = rnd_pos \<bar>q\<bar>
            in if two_pow 1024 \<le> r then (if 0 < q then PInf else NInf)
               else Fin (if q < 0 then - r else r))"

lemma two_pow_pos [simp]: "0 < two_pow e"
  by (simp add: two_pow_def)

lemma two_pow_nonzero [simp]: "two_pow e \<noteq> 0"
  by (simp add: two_pow_def)

lemma two_pow_not_le_0 [simp]: "\<not> two_pow e \<le> 0"
  using two_pow_pos [of e] by linarith

lemma two_pow_powi: "two_pow e = 2 powi e"
  by (cases "0 \<le> e") (simp_all only: two_pow_def power_int_def if_True if_False
      inverse_eq_divide power_one_over)

lemma two_pow_add: "two_pow (a + b) = two_pow a * two_pow b"
  by (simp add: two_pow_powi power_int_add)

lemma two_pow_0 [simp]: "two_pow 0 = 1"
  by (simp add: two_pow_def)

lemma two_pow_1 [simp]: "two_pow 1 = 2"
  by (simp add: two_pow_def)

lemma two_pow_mono: "a \<le> b \<Longrightarrow> two_pow a \<le> two_pow b"
  by (simp add: two_pow_powi power_int_increasing)

lemma two_pow_less: "two_pow a < two_pow b \<longleftrightarrow> a < b"
  by (metis linorder_not_le two_pow_mono two_pow_powi power_int_strict_increasing one_less_numeral_iff
      semiring_norm(76) order_less_imp_le order_less_irrefl le_less_trans)

lemma two_pow_nat: "0 \<le> e \<Longrightarrow> two_pow e = of_int (2 ^ nat e)"
  by (simp add: two_pow_def)

lemma ilog2_bounds:
  assumes "0 < q"
  shows "two_pow (ilog2 q) \<le> q" "q < two_pow (ilog2 q + 1)"
proof -
  obtain a b where ab: "quotient_of q = (a, b)" by fastforce
  have b: "0 < b" using quotient_of_denom_pos [OF ab] .
  have q: "q = of_int a / of_int b" using quotient_of_div [OF ab] .
  have a: "0 < a" using assms b unfolding q by (simp add: zero_less_divide_iff)
  have bl: "2 ^ nat (bitlen x - 1) \<le> x" "x < 2 ^ nat (bitlen x)" "0 < bitlen x" if "0 < x" for x :: int
    using bitlen_bounds [OF that] bitlen_nonneg [of x] that by (auto intro: ccontr)
  let ?e = "bitlen a - bitlen b"
  have ra: "two_pow (bitlen a - 1) \<le> of_int a" "of_int a < two_pow (bitlen a)"
    using bl [OF a] by (simp_all add: two_pow_nat del: of_int_power)
  have rb: "two_pow (bitlen b - 1) \<le> of_int b" "of_int b < two_pow (bitlen b)"
    using bl [OF b] by (simp_all add: two_pow_nat del: of_int_power)
  have up: "q < two_pow (?e + 1)"
  proof -
    have "of_int a < two_pow (?e + 1) * two_pow (bitlen b - 1)"
      using ra(2) by (simp add: two_pow_add [symmetric])
    also have "\<dots> \<le> two_pow (?e + 1) * of_int b" using rb(1) by simp
    finally show ?thesis using b by (simp add: q divide_less_eq)
  qed
  have lo: "two_pow (?e - 1) \<le> q"
  proof -
    have "two_pow (?e - 1) * of_int b \<le> two_pow (?e - 1) * two_pow (bitlen b)"
      using rb(2) by simp
    also have "\<dots> = two_pow (bitlen a - 1)" by (simp add: two_pow_add [symmetric])
    also have "\<dots> \<le> of_int a" by (rule ra)
    finally show ?thesis using b by (simp add: q le_divide_eq)
  qed
  show "two_pow (ilog2 q) \<le> q" "q < two_pow (ilog2 q + 1)"
    using up lo by (auto simp: ilog2_def ab Let_def)
qed

lemma ilog2_unique:
  assumes "two_pow e \<le> q" "q < two_pow (e + 1)"
  shows "ilog2 q = e"
proof -
  have q: "0 < q" using assms(1) two_pow_pos [of e] by linarith
  from ilog2_bounds [OF q] assms have "two_pow (ilog2 q) < two_pow (e + 1)"
    "two_pow e < two_pow (ilog2 q + 1)" by auto
  then show ?thesis by (simp add: two_pow_less)
qed

lemma ilog2_mono: "0 < x \<Longrightarrow> x \<le> y \<Longrightarrow> ilog2 x \<le> ilog2 y"
  using ilog2_bounds(1) [of x] ilog2_bounds(2) [of y]
  by (smt (verit, ccfv_SIG) order_less_le_trans two_pow_less le_less_trans)

lemma round_even_of_int [simp]: "round_even (of_int n) = n"
  by (simp add: round_even_def)

lemma round_even_0 [simp]: "round_even 0 = 0"
  using round_even_of_int [of 0] by simp

lemma round_even_floor: "round_even q = \<lfloor>q\<rfloor> \<or> round_even q = \<lfloor>q\<rfloor> + 1 \<and> of_int \<lfloor>q\<rfloor> < q"
  by (auto simp: round_even_def Let_def)

lemma round_even_mono:
  assumes "x \<le> y"
  shows "round_even x \<le> round_even y"
proof (cases "\<lfloor>x\<rfloor> = \<lfloor>y\<rfloor>")
  case True
  then show ?thesis using assms by (auto simp: round_even_def Let_def)
next
  case False
  then have "\<lfloor>x\<rfloor> + 1 \<le> \<lfloor>y\<rfloor>" using floor_mono [OF assms] by linarith
  then show ?thesis using round_even_floor [of x] round_even_floor [of y] by linarith
qed

definition grid :: "int \<Rightarrow> rat \<Rightarrow> rat" where
  "grid e q = of_int (round_even (q / two_pow e)) * two_pow e"

lemma rnd_pos_grid: "rnd_pos q = grid (ulp_exp q) q"
  by (cases "q = 0") (simp_all add: rnd_pos_def grid_def round_even_def)

lemma grid_mono: "x \<le> y \<Longrightarrow> grid e x \<le> grid e y"
  by (simp add: grid_def round_even_mono divide_right_mono less_imp_le)

lemma grid_exact: "e \<le> k \<Longrightarrow> grid e (of_int n * two_pow k) = of_int n * two_pow k"
proof -
  assume "e \<le> k"
  then have k: "two_pow k = of_int (2 ^ nat (k - e)) * two_pow e"
    by (simp add: two_pow_nat [symmetric] two_pow_add [symmetric] del: of_int_power)
  have "of_int n * two_pow k / two_pow e = (of_int (n * 2 ^ nat (k - e)) :: rat)"
    unfolding k by (simp del: of_int_power)
  then show ?thesis unfolding grid_def
    by (simp only: round_even_of_int) (simp add: k)
qed

lemma ulp_exp_less:
  assumes "0 < x" "ulp_exp x < ulp_exp y"
  shows "ulp_exp y \<le> ilog2 y" "ilog2 x < ilog2 y"
  using assms by (auto simp: ulp_exp_def)

lemma rnd_pos_mono:
  assumes "0 \<le> x" "x \<le> y"
  shows "rnd_pos x \<le> rnd_pos y"
proof (cases "x = 0")
  case True
  have "grid (ulp_exp y) 0 \<le> grid (ulp_exp y) y" using assms by (intro grid_mono) simp
  then show ?thesis by (simp add: True rnd_pos_grid grid_def)
next
  case False
  then have x: "0 < x" and y: "0 < y" using assms by auto
  have "ulp_exp x \<le> ulp_exp y" using ilog2_mono [OF x assms(2)] by (simp add: ulp_exp_def)
  then consider "ulp_exp x = ulp_exp y" | "ulp_exp x < ulp_exp y" by linarith
  then show ?thesis
  proof cases
    case 1
    then show ?thesis using grid_mono [OF assms(2)] by (simp add: rnd_pos_grid)
  next
    case 2
    note e = ulp_exp_less [OF x 2]
    have "x \<le> two_pow (ilog2 y)"
      using ilog2_bounds(2) [OF x] two_pow_mono [of "ilog2 x + 1" "ilog2 y"] e(2) by linarith
    then have "grid (ulp_exp x) x \<le> grid (ulp_exp x) (of_int 1 * two_pow (ilog2 y))"
      by (intro grid_mono) simp
    also have "\<dots> = grid (ulp_exp y) (of_int 1 * two_pow (ilog2 y))"
      using e(1) 2 by (simp only: grid_exact)
    also have "\<dots> \<le> grid (ulp_exp y) y" using ilog2_bounds(1) [OF y] by (intro grid_mono) simp
    finally show ?thesis by (simp add: rnd_pos_grid)
  qed
qed

definition representable :: "rat \<Rightarrow> bool" where
  "representable v \<longleftrightarrow> (\<exists>n e. v = of_int n * two_pow e \<and> \<bar>n\<bar> \<le> 2 ^ 53 \<and> - 1074 \<le> e)"

lemma representable_uminus: "representable v \<Longrightarrow> representable (- v)"
  unfolding representable_def by (metis abs_minus_cancel mult_minus_left of_int_minus)

lemma representable_abs: "representable v \<Longrightarrow> representable \<bar>v\<bar>"
  using representable_uminus by (cases "0 \<le> v") auto

lemma representable_of_int: "\<bar>n\<bar> \<le> 2 ^ 53 \<Longrightarrow> representable (of_int n)"
  unfolding representable_def by (intro exI [of _ n] exI [of _ 0]) simp

lemma representable_half: "\<bar>n\<bar> \<le> 2 ^ 53 \<Longrightarrow> representable (of_int n / 2)"
  unfolding representable_def by (intro exI [of _ n] exI [of _ "- 1"]) (simp add: two_pow_def)

lemma rnd_pos_exact:
  assumes "representable v" "0 \<le> v"
  shows "rnd_pos v = v"
proof (cases "v = 0")
  case True
  then show ?thesis by (simp add: rnd_pos_def)
next
  case False
  with assms(2) have v: "0 < v" by simp
  from assms(1) obtain n e where n: "v = of_int n * two_pow e" "\<bar>n\<bar> \<le> 2 ^ 53" "- 1074 \<le> e"
    by (auto simp: representable_def)
  have p53: "two_pow (e + 53) = of_int (2 ^ 53) * two_pow e"
    using two_pow_add [of 53 e] by (simp add: two_pow_nat add.commute del: of_int_power)
  have "n \<le> 2 ^ 53" using n(2) by linarith
  then have le: "v \<le> two_pow (e + 53)" unfolding p53 n(1)
    by (intro mult_right_mono) (simp_all only: of_int_le_iff less_imp_le [OF two_pow_pos])
  show ?thesis
  proof (cases "v = two_pow (e + 53)")
    case True
    have "ilog2 v = e + 53"
      by (rule ilog2_unique) (simp_all add: True two_pow_less)
    then have "ulp_exp v \<le> e + 53" using n(3) by (simp add: ulp_exp_def)
    from grid_exact [OF this, of 1] show ?thesis by (simp add: rnd_pos_grid True)
  next
    case False
    with le have "two_pow (ilog2 v) < two_pow (e + 53)" using ilog2_bounds(1) [OF v] by linarith
    then have "ulp_exp v \<le> e" using n(3) by (simp add: two_pow_less ulp_exp_def)
    from grid_exact [OF this, of n] show ?thesis by (simp add: rnd_pos_grid n(1))
  qed
qed

lemma rnd_pos_nonneg: "0 \<le> q \<Longrightarrow> 0 \<le> rnd_pos q"
  using rnd_pos_mono [of 0 q] by (simp add: rnd_pos_def)

lemma representable_rnd_pos: "0 \<le> q \<Longrightarrow> representable (rnd_pos q)"
proof (cases "q = 0")
  case True
  then show ?thesis using representable_of_int [of 0] by (simp add: rnd_pos_def)
next
  case False
  assume "0 \<le> q"
  with False have q: "0 < q" by simp
  let ?e = "ulp_exp q"
  have "q \<le> two_pow (?e + 53)"
  proof -
    have "ilog2 q + 1 \<le> ?e + 53" by (simp add: ulp_exp_def)
    from two_pow_mono [OF this] ilog2_bounds(2) [OF q] show ?thesis by linarith
  qed
  then have "q / two_pow ?e \<le> of_int (2 ^ 53)"
    using two_pow_add [of 53 ?e] by (simp add: divide_le_eq two_pow_nat add.commute del: of_int_power)
  from round_even_mono [OF this] have u: "round_even (q / two_pow ?e) \<le> 2 ^ 53"
    by (simp only: round_even_of_int)
  have "of_int 0 \<le> q / two_pow ?e" using q two_pow_pos [of ?e] by (simp add: zero_le_divide_iff less_imp_le)
  from round_even_mono [OF this] have l: "0 \<le> round_even (q / two_pow ?e)"
    by (simp only: round_even_of_int)
  show ?thesis unfolding representable_def rnd_pos_grid grid_def
    using u l by (intro exI [of _ "round_even (q / two_pow ?e)"] exI [of _ ?e]) (auto simp: ulp_exp_def)
qed

section \<open>Values and operations\<close>

definition f_of_int :: "int \<Rightarrow> f64" where
  "f_of_int n = rnd (of_int n)"

fun f_add :: "f64 \<Rightarrow> f64 \<Rightarrow> f64" where
  "f_add (Fin x) (Fin y) = rnd (x + y)"
| "f_add NaN _ = NaN"
| "f_add _ NaN = NaN"
| "f_add PInf NInf = NaN"
| "f_add NInf PInf = NaN"
| "f_add PInf _ = PInf"
| "f_add _ PInf = PInf"
| "f_add NInf _ = NInf"
| "f_add _ NInf = NInf"

fun f_sign :: "f64 \<Rightarrow> int" where
  "f_sign (Fin x) = (if 0 < x then 1 else if x < 0 then -1 else 0)"
| "f_sign PInf = 1"
| "f_sign NInf = -1"
| "f_sign NaN = 0"

definition f_inf :: "int \<Rightarrow> f64" where
  "f_inf s = (if 0 < s then PInf else if s < 0 then NInf else NaN)"

fun f_mul :: "f64 \<Rightarrow> f64 \<Rightarrow> f64" where
  "f_mul (Fin x) (Fin y) = rnd (x * y)"
| "f_mul NaN _ = NaN"
| "f_mul _ NaN = NaN"
| "f_mul x y = f_inf (f_sign x * f_sign y)"

text \<open>Division by zero gives an infinity (of the sign of a positive zero) or NaN.\<close>

fun f_div :: "f64 \<Rightarrow> f64 \<Rightarrow> f64" where
  "f_div (Fin x) (Fin y) = (if y = 0 then f_inf (f_sign (Fin x)) else rnd (x / y))"
| "f_div NaN _ = NaN"
| "f_div _ NaN = NaN"
| "f_div (Fin x) _ = Fin 0"
| "f_div x (Fin y) = f_inf (f_sign x * (if y < 0 then -1 else 1))"
| "f_div _ _ = NaN"

fun f_le :: "f64 \<Rightarrow> f64 \<Rightarrow> bool" where
  "f_le (Fin x) (Fin y) = (x \<le> y)"
| "f_le NaN _ = False"
| "f_le _ NaN = False"
| "f_le NInf _ = True"
| "f_le _ PInf = True"
| "f_le _ _ = False"

fun f_lt :: "f64 \<Rightarrow> f64 \<Rightarrow> bool" where
  "f_lt (Fin x) (Fin y) = (x < y)"
| "f_lt NaN _ = False"
| "f_lt _ NaN = False"
| "f_lt NInf y = (y \<noteq> NInf)"
| "f_lt x PInf = (x \<noteq> PInf)"
| "f_lt _ _ = False"

definition f_isNaN :: "f64 \<Rightarrow> bool" where
  "f_isNaN x \<longleftrightarrow> x = NaN"

definition f_isInf :: "f64 \<Rightarrow> bool" where
  "f_isInf x \<longleftrightarrow> x = PInf \<or> x = NInf"

text \<open>The conversion to an integer, for values inside the integer's range: towards zero.\<close>

fun f_to_int :: "f64 \<Rightarrow> int" where
  "f_to_int (Fin x) = (if 0 \<le> x then \<lfloor>x\<rfloor> else \<lceil>x\<rceil>)"
| "f_to_int _ = - (2 ^ 63)"

text \<open>\<^verbatim>\<open>Duration.Seconds\<close>.\<close>

definition duration_Seconds :: "duration \<Rightarrow> f64" where
  "duration_Seconds d =
    f_add (f_of_int (d sdiv 1000000000)) (f_div (f_of_int (d smod 1000000000)) (Fin 1000000000))"

section \<open>Laws\<close>

lemma rnd_nonneg: "0 \<le> q \<Longrightarrow> rnd q = (if two_pow 1024 \<le> rnd_pos q then PInf else Fin (rnd_pos q))"
  using rnd_pos_nonneg [of q] by (cases "q = 0") (auto simp: rnd_def Let_def rnd_pos_def)

lemma rnd_exact: "representable v \<Longrightarrow> \<bar>v\<bar> < two_pow 1024 \<Longrightarrow> rnd v = Fin v"
  using rnd_pos_exact [OF representable_abs, of v] by (auto simp: rnd_def Let_def)

lemma big_bound: "\<bar>n\<bar> \<le> 2 ^ 63 \<Longrightarrow> \<bar>of_int n\<bar> < two_pow 1024"
proof -
  assume "\<bar>n\<bar> \<le> 2 ^ 63"
  then have "\<bar>of_int n :: rat\<bar> \<le> of_int (2 ^ 63)" by (simp only: of_int_abs [symmetric] of_int_le_iff)
  also have "\<dots> = two_pow 63" by (simp add: two_pow_nat del: of_int_power)
  also have "\<dots> < two_pow 1024" by (simp only: two_pow_less)
  finally show ?thesis .
qed

lemma rnd_of_int: "\<bar>n\<bar> \<le> 2 ^ 53 \<Longrightarrow> rnd (of_int n) = Fin (of_int n)"
  by (rule rnd_exact) (auto intro!: representable_of_int big_bound)

lemma rnd_FinD: "rnd q = Fin r \<Longrightarrow> 0 \<le> q \<Longrightarrow> r = rnd_pos q \<and> representable r \<and> 0 \<le> r"
  by (auto simp: rnd_nonneg representable_rnd_pos rnd_pos_nonneg split: if_splits)

text \<open>Rounding below a representable bound stays below it.\<close>

lemma rnd_le: "0 \<le> q \<Longrightarrow> q \<le> b \<Longrightarrow> representable b \<Longrightarrow> b < two_pow 1024 \<Longrightarrow>
    \<exists>r. rnd q = Fin r \<and> 0 \<le> r \<and> r \<le> b"
  using rnd_pos_mono [of q b] rnd_pos_exact [of b] by (auto simp: rnd_nonneg rnd_pos_nonneg)

lemma rnd_ge: "0 \<le> b \<Longrightarrow> b \<le> q \<Longrightarrow> representable b \<Longrightarrow> rnd q = Fin r \<Longrightarrow> b \<le> r"
  using rnd_pos_mono [of b q] rnd_pos_exact [of b] by (auto simp: rnd_nonneg split: if_splits)

end
