(* ===== verification/Supervisor.thy ===== *)
theory Supervisor
  imports Command GoFloat
begin

text \<open>
  Supervision (\<^verbatim>\<open>supervisor.go\<close>): the restart policies, the capped exponential backoff with its
  jitter, the decaying storm score, and the restart loop.  The loop may run forever, so the model
  gives it a number of incarnations as fuel and answers \<open>None\<close> when they are used up; a supervisor
  with a restart budget is shown to answer within that budget.  \<^verbatim>\<open>math.Pow\<close> and the default random
  source are library code and are parameters.
\<close>

section \<open>Policies and outcomes\<close>

datatype restartPolicy = RestartOnCrash | RestartAlways | RestartNever

fun restartPolicy_String :: "restartPolicy \<Rightarrow> bytes" where
  "restartPolicy_String RestartAlways = ''always''"
| "restartPolicy_String RestartNever = ''never''"
| "restartPolicy_String RestartOnCrash = ''on-crash''"

fun wantsRestart :: "restartPolicy \<Rightarrow> bool \<Rightarrow> bool" where
  "wantsRestart RestartAlways crashed = True"
| "wantsRestart RestartNever crashed = False"
| "wantsRestart RestartOnCrash crashed = crashed"

datatype stopReason = StoppedByPredicate | StoppedPolicySatisfied | StoppedRestartsExhausted

fun stopReason_String :: "stopReason \<Rightarrow> bytes" where
  "stopReason_String StoppedByPredicate = ''predicate''"
| "stopReason_String StoppedRestartsExhausted = ''restarts-exhausted''"
| "stopReason_String StoppedPolicySatisfied = ''policy-satisfied''"

record supervisionOutcome =
  sup_Final :: result
  sup_Restarts :: int
  sup_Stopped :: stopReason
  sup_StormPauses :: int

text \<open>A random source draws a number from the world; \<^verbatim>\<open>nil\<close> is the default source.\<close>

record 'w supervisor =
  sv_cmd :: "'w cmd"
  sv_runner :: "'w runner option"
  sv_policy :: restartPolicy
  sv_maxRestarts :: int
  sv_backoffBase :: duration
  sv_factor :: f64
  sv_maxBackoff :: duration
  sv_jitter :: bool
  sv_stormPause :: duration
  sv_failureDecay :: duration
  sv_failureThreshold :: f64
  sv_stopWhen :: "(result \<Rightarrow> bool) option"
  sv_rng :: "('w \<Rightarrow> f64 \<times> 'w) option"
  sv_log :: runLog

definition Supervise :: "'w cmd \<Rightarrow> 'w supervisor" where
  "Supervise c =
    \<lparr>sv_cmd = c, sv_runner = None, sv_policy = RestartOnCrash, sv_maxRestarts = -1,
     sv_backoffBase = 200000000, sv_factor = Fin 2, sv_maxBackoff = 30000000000, sv_jitter = True,
     sv_stormPause = 0, sv_failureDecay = 30000000000, sv_failureThreshold = Fin 5,
     sv_stopWhen = None, sv_rng = None, sv_log = False\<rparr>"

definition WithRestart :: "restartPolicy \<Rightarrow> 'w supervisor \<Rightarrow> 'w supervisor" where
  "WithRestart pol s = s\<lparr>sv_policy := pol\<rparr>"

definition WithMaxRestarts :: "int \<Rightarrow> 'w supervisor \<Rightarrow> 'w supervisor" where
  "WithMaxRestarts n s = s\<lparr>sv_maxRestarts := (if n < 0 then 0 else n)\<rparr>"

definition WithBackoff :: "duration \<Rightarrow> f64 \<Rightarrow> 'w supervisor \<Rightarrow> 'w supervisor" where
  "WithBackoff base factor s = s\<lparr>sv_backoffBase := base, sv_factor := factor\<rparr>"

definition WithMaxBackoff :: "duration \<Rightarrow> 'w supervisor \<Rightarrow> 'w supervisor" where
  "WithMaxBackoff limit s = s\<lparr>sv_maxBackoff := limit\<rparr>"

definition WithJitter :: "bool \<Rightarrow> 'w supervisor \<Rightarrow> 'w supervisor" where
  "WithJitter enabled s = s\<lparr>sv_jitter := enabled\<rparr>"

definition WithStormPause :: "duration \<Rightarrow> 'w supervisor \<Rightarrow> 'w supervisor" where
  "WithStormPause d s = s\<lparr>sv_stormPause := d\<rparr>"

definition WithFailureDecay :: "duration \<Rightarrow> 'w supervisor \<Rightarrow> 'w supervisor" where
  "WithFailureDecay d s = s\<lparr>sv_failureDecay := d\<rparr>"

definition WithFailureThreshold :: "f64 \<Rightarrow> 'w supervisor \<Rightarrow> 'w supervisor" where
  "WithFailureThreshold t s = s\<lparr>sv_failureThreshold := t\<rparr>"

definition supervisor_WithLogger :: "runLog \<Rightarrow> 'w supervisor \<Rightarrow> 'w supervisor" where
  "supervisor_WithLogger l s = s\<lparr>sv_log := l\<rparr>"

definition StopWhen :: "(result \<Rightarrow> bool) option \<Rightarrow> 'w supervisor \<Rightarrow> 'w supervisor" where
  "StopWhen predicate s = s\<lparr>sv_stopWhen := predicate\<rparr>"

definition supervisor_WithRunner :: "'w runner option \<Rightarrow> 'w supervisor \<Rightarrow> 'w supervisor" where
  "supervisor_WithRunner r s = s\<lparr>sv_runner := r\<rparr>"

section \<open>Backoff and jitter\<close>

type_synonym go_pow = "f64 \<Rightarrow> f64 \<Rightarrow> f64"

definition backoffDelay :: "go_pow \<Rightarrow> int \<Rightarrow> duration \<Rightarrow> f64 \<Rightarrow> duration \<Rightarrow> duration" where
  "backoffDelay pow n base factor limit =
    (if base \<le> 0 then 0
     else (let limit' = (if limit \<le> 0 then base else limit);
               factor' = (if \<not> f_le (Fin 1) factor \<or> f_isInf factor then Fin 1 else factor);
               scaled = f_mul (f_of_int base) (pow factor' (f_of_int n))
           in if f_isNaN scaled \<or> f_isInf scaled \<or> f_le (f_of_int limit') scaled then limit'
              else f_to_int scaled))"

definition maxInt64 :: int where
  "maxInt64 = 2 ^ 63 - 1"

text \<open>The scaling of \<^verbatim>\<open>applyJitter\<close> by the number it drew.\<close>

definition jitter_scale :: "duration \<Rightarrow> f64 \<Rightarrow> duration" where
  "jitter_scale d r =
    (let scaled = f_mul (f_of_int d) (f_add (Fin (1/2)) r)
     in if f_le scaled (Fin 0) \<or> f_isNaN scaled then d
        else if f_le (f_of_int maxInt64) scaled then maxInt64
        else f_to_int scaled)"

definition applyJitter ::
    "duration \<Rightarrow> ('w \<Rightarrow> f64 \<times> 'w) \<Rightarrow> bool \<Rightarrow> ('w mach, duration) state" where
  "applyJitter d rng enabled =
    (if \<not> enabled \<or> d \<le> 0 then State_Monad.return d
     else do { r \<leftarrow> os_call rng (\<lambda>_. []); State_Monad.return (jitter_scale d r) })"

section \<open>The storm score\<close>

record stormState =
  ss_score :: f64
  ss_last :: int
  ss_hasLast :: bool

definition storm_zero :: stormState where
  "storm_zero = \<lparr>ss_score = Fin 0, ss_last = 0, ss_hasLast = False\<rparr>"

text \<open>\<^verbatim>\<open>Time.Sub\<close> saturates at the range of a duration.\<close>

definition time_Sub :: "int \<Rightarrow> int \<Rightarrow> duration" where
  "time_Sub t u = max (- (2 ^ 63)) (min maxInt64 (t - u))"

definition storm_record ::
    "go_pow \<Rightarrow> int \<Rightarrow> duration \<Rightarrow> stormState \<Rightarrow> f64 \<times> stormState" where
  "storm_record pow now decay st =
    (let score0 =
       (if \<not> ss_hasLast st \<or> decay \<le> 0 \<or> f_isNaN (ss_score st) \<or> f_isInf (ss_score st) then Fin 0
        else (let dt = duration_Seconds (time_Sub now (ss_last st));
                  score = f_mul (ss_score st) (pow (Fin (1/2)) (f_div dt (duration_Seconds decay)))
              in if f_isNaN score \<or> f_isInf score then Fin 0 else score));
         score1 = f_add score0 (Fin 1)
     in (score1, \<lparr>ss_score = score1, ss_last = now, ss_hasLast = True\<rparr>))"

definition storm_reset :: "stormState \<Rightarrow> stormState" where
  "storm_reset st = st\<lparr>ss_score := Fin 0, ss_hasLast := False\<rparr>"

section \<open>The restart loop\<close>

definition supervisor_runner :: "'w platform \<Rightarrow> 'w supervisor \<Rightarrow> 'w runner" where
  "supervisor_runner P s =
    (case sv_runner s of None \<Rightarrow> JobRunner_Output P (cm_log (sv_cmd s)) | Some r \<Rightarrow> r)"

definition cancel_of ::
    "'w platform \<Rightarrow> 'w supervisor \<Rightarrow> ctx \<Rightarrow> ('w mach, goerr) state" where
  "cancel_of P s ctx = do {
     cause \<leftarrow> ctxErr P ctx;
     State_Monad.return (CancelError (cm_program (sv_cmd s)) cause)
   }"

text \<open>How a terminating incarnation concludes: with its error, or with its result.\<close>

definition conclude ::
    "goerr + result \<Rightarrow> int \<Rightarrow> stopReason \<Rightarrow> int \<Rightarrow> goerr + supervisionOutcome" where
  "conclude r restarts reason pauses = (case r of
      Inl err \<Rightarrow> Inl err
    | Inr res \<Rightarrow> Inr \<lparr>sup_Final = res, sup_Restarts = restarts, sup_Stopped = reason,
                      sup_StormPauses = pauses\<rparr>)"

text \<open>The storm guard: an error, or the new number of pauses and the new score.\<close>

definition storm_guard ::
    "'w platform \<Rightarrow> go_pow \<Rightarrow> ('w \<Rightarrow> f64 \<times> 'w) \<Rightarrow> 'w supervisor \<Rightarrow> ctx \<Rightarrow> bool \<Rightarrow> int \<Rightarrow> stormState
     \<Rightarrow> ('w mach, goerr + (int \<times> stormState)) state" where
  "storm_guard P pow rng s ctx crashed pauses storm =
    (if crashed \<and> 0 < sv_stormPause s
     then do {
       now \<leftarrow> time_now P;
       let (score, storm') = storm_record pow now (sv_failureDecay s) storm;
       (if f_lt (sv_failureThreshold s) score
        then do {
          pause \<leftarrow> applyJitter (sv_stormPause s) rng (sv_jitter s);
          log_events (log_supervisorStorm (sv_log s) (cm_program (sv_cmd s)) pause);
          ok \<leftarrow> sleepCtx P ctx pause;
          if \<not> ok then do { e \<leftarrow> cancel_of P s ctx; State_Monad.return (Inl e) }
          else State_Monad.return (Inr (pauses + 1, storm_reset storm'))
        }
        else State_Monad.return (Inr (pauses, storm')))
     }
     else State_Monad.return (Inr (pauses, storm)))"

text \<open>The part of a round after the stop predicate: policy, budget, storm guard, backoff.\<close>

definition supervise_restart ::
    "'w platform \<Rightarrow> go_pow \<Rightarrow> ('w \<Rightarrow> f64 \<times> 'w) \<Rightarrow> 'w supervisor \<Rightarrow> ctx \<Rightarrow> goerr + result \<Rightarrow> bool
     \<Rightarrow> int \<Rightarrow> int \<Rightarrow> stormState
     \<Rightarrow> ('w mach, (goerr + supervisionOutcome) + (int \<times> int \<times> stormState)) state" where
  "supervise_restart P pow rng s ctx r crashed restarts pauses storm =
    (if \<not> wantsRestart (sv_policy s) crashed
     then State_Monad.return (Inl (conclude r restarts StoppedPolicySatisfied pauses))
     else if 0 \<le> sv_maxRestarts s \<and> sv_maxRestarts s \<le> restarts
     then State_Monad.return (Inl (conclude r restarts StoppedRestartsExhausted pauses))
     else do {
       g \<leftarrow> storm_guard P pow rng s ctx crashed pauses storm;
       case g of
         Inl e \<Rightarrow> State_Monad.return (Inl (Inl e))
       | Inr (pauses', storm') \<Rightarrow> do {
           delay \<leftarrow> applyJitter
             (backoffDelay pow restarts (sv_backoffBase s) (sv_factor s) (sv_maxBackoff s))
             rng (sv_jitter s);
           log_events (log_supervisorRestart (sv_log s) (cm_program (sv_cmd s)) (restarts + 1) delay);
           ok \<leftarrow> sleepCtx P ctx delay;
           if \<not> ok then do { e \<leftarrow> cancel_of P s ctx; State_Monad.return (Inl (Inl e)) }
           else State_Monad.return (Inr (restarts + 1, pauses', storm'))
         }
     })"

definition supervise_round ::
    "'w platform \<Rightarrow> go_pow \<Rightarrow> ('w \<Rightarrow> f64 \<times> 'w) \<Rightarrow> 'w supervisor \<Rightarrow> ctx \<Rightarrow> int \<Rightarrow> int \<Rightarrow> stormState
     \<Rightarrow> ('w mach, (goerr + supervisionOutcome) + (int \<times> int \<times> stormState)) state" where
  "supervise_round P pow rng s ctx restarts pauses storm = do {
     e \<leftarrow> ctxErr P ctx;
     (if e \<noteq> None then do { ce \<leftarrow> cancel_of P s ctx; State_Monad.return (Inl (Inl ce)) }
      else do {
        os_call (\<lambda>w. ((), w)) (\<lambda>_. [CRunOutput (cmd_invocation (sv_cmd s))]);
        r \<leftarrow> supervisor_runner P s ctx (cmd_invocation (sv_cmd s));
        case r of
          Inl err \<Rightarrow>
            if is_err err ErrCancelled then State_Monad.return (Inl (Inl err))
            else supervise_restart P pow rng s ctx r True restarts pauses storm
        | Inr res \<Rightarrow>
            if (case sv_stopWhen s of None \<Rightarrow> False | Some f \<Rightarrow> f res)
            then State_Monad.return (Inl (conclude r restarts StoppedByPredicate pauses))
            else supervise_restart P pow rng s ctx r (\<not> Success res) restarts pauses storm
      })
   }"

fun supervise_loop ::
    "'w platform \<Rightarrow> go_pow \<Rightarrow> ('w \<Rightarrow> f64 \<times> 'w) \<Rightarrow> 'w supervisor \<Rightarrow> ctx \<Rightarrow> nat \<Rightarrow> int \<Rightarrow> int
     \<Rightarrow> stormState \<Rightarrow> ('w mach, (goerr + supervisionOutcome) option) state" where
  "supervise_loop P pow rng s ctx 0 restarts pauses storm = State_Monad.return None"
| "supervise_loop P pow rng s ctx (Suc fuel) restarts pauses storm = do {
     r \<leftarrow> supervise_round P pow rng s ctx restarts pauses storm;
     case r of
       Inl answer \<Rightarrow> State_Monad.return (Some answer)
     | Inr (restarts', pauses', storm') \<Rightarrow>
         supervise_loop P pow rng s ctx fuel restarts' pauses' storm'
   }"

definition supervisor_Run ::
    "'w platform \<Rightarrow> go_pow \<Rightarrow> ('w \<Rightarrow> f64 \<times> 'w) \<Rightarrow> nat \<Rightarrow> 'w supervisor \<Rightarrow> ctx
     \<Rightarrow> ('w mach, (goerr + supervisionOutcome) option) state" where
  "supervisor_Run P pow default_rng fuel s ctx =
    supervise_loop P pow (case sv_rng s of None \<Rightarrow> default_rng | Some rng \<Rightarrow> rng) s ctx fuel 0 0
      storm_zero"

section \<open>What the loop does\<close>

definition runs_of :: "invocation \<Rightarrow> call list \<Rightarrow> int" where
  "runs_of iv tr = int (length (filter (\<lambda>x. x = CRunOutput iv) tr))"

definition sleeps_of :: "call list \<Rightarrow> int" where
  "sleeps_of tr = int (length (filter (\<lambda>x. case x of CSleep d b \<Rightarrow> b | _ \<Rightarrow> False) tr))"

lemma counts_append [simp]:
  "runs_of iv (xs @ ys) = runs_of iv xs + runs_of iv ys"
  "sleeps_of (xs @ ys) = sleeps_of xs + sleeps_of ys"
  by (simp_all add: runs_of_def sleeps_of_def)

lemma counts_simps [simp]:
  "runs_of iv [] = 0" "sleeps_of [] = 0"
  "runs_of iv [CRunOutput iv] = 1" "sleeps_of [CRunOutput iv'] = 0"
  "runs_of iv [CSleep d b] = 0" "sleeps_of [CSleep d b] = (if b then 1 else 0)"
  by (simp_all add: runs_of_def sleeps_of_def)

lemma counts_silent:
  "list_all (\<lambda>x. \<not> verb_call x) tr \<Longrightarrow> runs_of iv tr = 0 \<and> sleeps_of tr = 0"
  by (induction tr) (auto simp: runs_of_def sleeps_of_def split: call.splits)

definition stop_matches :: "'w supervisor \<Rightarrow> result \<Rightarrow> bool" where
  "stop_matches s res \<longleftrightarrow> (\<exists>f. sv_stopWhen s = Some f \<and> f res)"

text \<open>Why a supervisor may conclude with a result.\<close>

definition concluded :: "'w platform \<Rightarrow> 'w supervisor \<Rightarrow> ctx \<Rightarrow> supervisionOutcome \<Rightarrow> bool" where
  "concluded P s ctx out \<longleftrightarrow>
    (\<exists>m m'. run_state (supervisor_runner P s ctx (cmd_invocation (sv_cmd s))) m = (Inr (sup_Final out), m'))
    \<and> (case sup_Stopped out of
         StoppedByPredicate \<Rightarrow> stop_matches s (sup_Final out)
       | StoppedPolicySatisfied \<Rightarrow> \<not> stop_matches s (sup_Final out)
           \<and> \<not> wantsRestart (sv_policy s) (\<not> Success (sup_Final out))
       | StoppedRestartsExhausted \<Rightarrow> \<not> stop_matches s (sup_Final out)
           \<and> wantsRestart (sv_policy s) (\<not> Success (sup_Final out))
           \<and> 0 \<le> sv_maxRestarts s \<and> sv_maxRestarts s \<le> sup_Restarts out)"

definition round_post ::
    "'w platform \<Rightarrow> 'w supervisor \<Rightarrow> ctx \<Rightarrow> int \<Rightarrow> int \<Rightarrow> call list
     \<Rightarrow> (goerr + supervisionOutcome) + (int \<times> int \<times> stormState) \<Rightarrow> bool" where
  "round_post P s ctx restarts pauses tr res \<longleftrightarrow>
    (case res of
       Inl (Inl e) \<Rightarrow> runs_of (cmd_invocation (sv_cmd s)) tr \<le> 1
     | Inl (Inr out) \<Rightarrow> runs_of (cmd_invocation (sv_cmd s)) tr = 1 \<and> sleeps_of tr = 0
         \<and> sup_Restarts out = restarts \<and> sup_StormPauses out = pauses \<and> concluded P s ctx out
     | Inr (restarts', pauses', storm') \<Rightarrow> runs_of (cmd_invocation (sv_cmd s)) tr = 1
         \<and> restarts' = restarts + 1 \<and> pauses \<le> pauses' \<and> pauses' \<le> pauses + 1
         \<and> (sv_stormPause s \<le> 0 \<longrightarrow> pauses' = pauses)
         \<and> sleeps_of tr = 1 + (pauses' - pauses)
         \<and> (0 \<le> sv_maxRestarts s \<longrightarrow> restarts < sv_maxRestarts s))"

lemma wp_applyJitter:
  "wp (applyJitter d rng b) (\<lambda>r m'. m_calls m' = m_calls m) m"
  by (auto simp: applyJitter_def wp_simps)

lemma wp_cancel_of [wp_simps]:
  "wp (cancel_of P s ctx) Q m \<longleftrightarrow>
    (\<forall>c w. p_ctxErr P ctx (m_world m) = (c, w) \<longrightarrow>
      Q (CancelError (cm_program (sv_cmd s)) c) (m\<lparr>m_world := w\<rparr>))"
  by (auto simp: cancel_of_def os_defs wp_simps)

lemma wp_storm_guard:
  "wp (storm_guard P pow rng s ctx crashed pauses storm)
    (\<lambda>res m'. \<exists>tr. m_calls m' = m_calls m @ tr \<and> runs_of iv tr = 0
      \<and> (case res of Inl e \<Rightarrow> True
         | Inr (pauses', storm') \<Rightarrow> pauses \<le> pauses' \<and> pauses' \<le> pauses + 1
             \<and> (sv_stormPause s \<le> 0 \<longrightarrow> pauses' = pauses) \<and> sleeps_of tr = pauses' - pauses)) m"
  unfolding storm_guard_def
  by (auto simp: wp_simps os_defs Let_def split: prod.split
      intro!: wp_mono [OF wp_applyJitter] wp_mono [OF wp_sleepCtx])

lemma wp_supervise_restart:
  assumes "crashed = (case r of Inl e \<Rightarrow> True | Inr res \<Rightarrow> \<not> Success res)"
    "\<And>res. r = Inr res \<Longrightarrow> \<not> stop_matches s res \<and>
      (\<exists>m m'. run_state (supervisor_runner P s ctx (cmd_invocation (sv_cmd s))) m = (Inr res, m'))"
    "runs_of (cmd_invocation (sv_cmd s)) tr0 = 1" "sleeps_of tr0 = 0"
    "m_calls m = cs @ tr0"
  shows "wp (supervise_restart P pow rng s ctx r crashed restarts pauses storm)
    (\<lambda>res m'. \<exists>tr. m_calls m' = cs @ tr \<and> round_post P s ctx restarts pauses tr res) m"
proof -
  let ?iv = "cmd_invocation (sv_cmd s)"
  have conc: "\<exists>tr. m_calls m = cs @ tr \<and> round_post P s ctx restarts pauses tr
      (Inl (conclude r restarts reason pauses))"
    if "reason = StoppedPolicySatisfied \<and> \<not> wantsRestart (sv_policy s) crashed
      \<or> reason = StoppedRestartsExhausted \<and> wantsRestart (sv_policy s) crashed
        \<and> 0 \<le> sv_maxRestarts s \<and> sv_maxRestarts s \<le> restarts" for reason
    using that assms by (intro exI [of _ tr0])
      (auto simp: round_post_def conclude_def concluded_def split: sum.splits)
  show ?thesis
  proof (cases "\<not> wantsRestart (sv_policy s) crashed
      \<or> 0 \<le> sv_maxRestarts s \<and> sv_maxRestarts s \<le> restarts")
    case True
    then show ?thesis unfolding supervise_restart_def by (auto simp: wp_simps intro!: conc)
  next
    case False
    then show ?thesis unfolding supervise_restart_def
      by (auto simp: wp_simps assms(3-5) round_post_def split: sum.split
          intro!: wp_mono [OF wp_storm_guard [where iv = ?iv]] wp_mono [OF wp_applyJitter]
            wp_mono [OF wp_sleepCtx])
  qed
qed

lemma wp_supervise_round:
  assumes "traced_runner (supervisor_runner P s)"
  shows "wp (supervise_round P pow rng s ctx restarts pauses storm)
    (\<lambda>res m'. \<exists>tr. m_calls m' = m_calls m @ tr \<and> round_post P s ctx restarts pauses tr res) m"
proof -
  let ?iv = "cmd_invocation (sv_cmd s)"
  have after: "wp (case r of
          Inl err \<Rightarrow>
            if is_err err ErrCancelled then State_Monad.return (Inl (Inl err))
            else supervise_restart P pow rng s ctx r True restarts pauses storm
        | Inr res \<Rightarrow>
            if (case sv_stopWhen s of None \<Rightarrow> False | Some f \<Rightarrow> f res)
            then State_Monad.return (Inl (conclude r restarts StoppedByPredicate pauses))
            else supervise_restart P pow rng s ctx r (\<not> Success res) restarts pauses storm)
      (\<lambda>res m'. \<exists>tr. m_calls m' = m_calls m @ tr \<and> round_post P s ctx restarts pauses tr res) m2"
    if "m_calls m2 = m_calls m @ CRunOutput ?iv # tr" "list_all (\<lambda>x. \<not> verb_call x) tr"
      "\<exists>m1. run_state (supervisor_runner P s ctx ?iv) m1 = (r, m2)" for r m2 tr
  proof -
    from that(2) have c: "runs_of ?iv (CRunOutput ?iv # tr) = 1" "sleeps_of (CRunOutput ?iv # tr) = 0"
      using counts_silent [of tr ?iv] counts_append(1) [of ?iv "[CRunOutput ?iv]" tr]
        counts_append(2) [of "[CRunOutput ?iv]" tr] by auto
    show ?thesis
    proof (cases r)
      case (Inl err)
      show ?thesis unfolding Inl sum.case
        using wp_supervise_restart [where crashed = True and r = "Inl err" and s = s and P = P
            and ctx = ctx and ?tr0.0 = "CRunOutput ?iv # tr" and m = m2 and cs = "m_calls m"] that c
        by (auto simp: wp_simps round_post_def)
    next
      case (Inr res)
      have stop: "(case sv_stopWhen s of None \<Rightarrow> False | Some f \<Rightarrow> f res) = stop_matches s res"
        by (auto simp: stop_matches_def split: option.split)
      show ?thesis
      proof (cases "stop_matches s res")
        case True
        with that c Inr show ?thesis unfolding Inr sum.case stop
          by (auto simp: wp_simps round_post_def conclude_def concluded_def)
      next
        case False
        have "wp (supervise_restart P pow rng s ctx (Inr res) (\<not> Success res) restarts pauses storm)
          (\<lambda>res m'. \<exists>tr. m_calls m' = m_calls m @ tr \<and> round_post P s ctx restarts pauses tr res) m2"
          by (rule wp_supervise_restart [where ?tr0.0 = "CRunOutput ?iv # tr"])
            (use that c Inr False in auto)
        with False show ?thesis unfolding Inr sum.case stop by simp
      qed
    qed
  qed
  show ?thesis
    unfolding supervise_round_def
    by (auto simp: wp_simps os_defs round_post_def [of _ _ _ _ _ "[]"]
        intro!: wp_mono [OF traced_runner.wp_run_output [OF assms]] after)
qed

text \<open>What the loop with some fuel promises of its answer and its calls.\<close>

definition loop_post ::
    "'w platform \<Rightarrow> 'w supervisor \<Rightarrow> ctx \<Rightarrow> nat \<Rightarrow> int \<Rightarrow> int \<Rightarrow> call list
     \<Rightarrow> (goerr + supervisionOutcome) option \<Rightarrow> bool" where
  "loop_post P s ctx fuel restarts pauses tr res \<longleftrightarrow>
    (case res of
       None \<Rightarrow> runs_of (cmd_invocation (sv_cmd s)) tr = int fuel
         \<and> (0 \<le> sv_maxRestarts s \<and> 0 < fuel \<longrightarrow> restarts + int fuel \<le> sv_maxRestarts s)
     | Some (Inl e) \<Rightarrow> 0 \<le> sv_maxRestarts s \<longrightarrow>
         runs_of (cmd_invocation (sv_cmd s)) tr \<le> max 0 (sv_maxRestarts s - restarts) + 1
     | Some (Inr out) \<Rightarrow> restarts \<le> sup_Restarts out \<and> pauses \<le> sup_StormPauses out
         \<and> runs_of (cmd_invocation (sv_cmd s)) tr = sup_Restarts out - restarts + 1
         \<and> sleeps_of tr = (sup_Restarts out - restarts) + (sup_StormPauses out - pauses)
         \<and> sup_StormPauses out - pauses \<le> sup_Restarts out - restarts
         \<and> (sv_stormPause s \<le> 0 \<longrightarrow> sup_StormPauses out = pauses)
         \<and> (0 \<le> sv_maxRestarts s \<longrightarrow> sup_Restarts out \<le> max restarts (sv_maxRestarts s))
         \<and> concluded P s ctx out)"

lemma loop_post_step:
  assumes "round_post P s ctx restarts pauses tr1 (Inr (restarts', pauses', storm'))"
    "loop_post P s ctx fuel restarts' pauses' tr2 res"
  shows "loop_post P s ctx (Suc fuel) restarts pauses (tr1 @ tr2) res"
  using assms by (auto simp: round_post_def loop_post_def split: option.splits sum.splits)

lemma loop_post_answer:
  "round_post P s ctx restarts pauses tr (Inl answer) \<Longrightarrow>
    loop_post P s ctx (Suc fuel) restarts pauses tr (Some answer)"
  by (auto simp: round_post_def loop_post_def split: sum.splits)

lemma wp_supervise_loop:
  assumes "traced_runner (supervisor_runner P s)"
  shows "wp (supervise_loop P pow rng s ctx fuel restarts pauses storm)
    (\<lambda>res m'. \<exists>tr. m_calls m' = m_calls m @ tr \<and> loop_post P s ctx fuel restarts pauses tr res) m"
proof (induction fuel arbitrary: restarts pauses storm m)
  case 0
  then show ?case by (auto simp: wp_simps loop_post_def)
next
  case (Suc fuel)
  show ?case
    unfolding supervise_loop.simps
    by (auto simp: wp_simps split: sum.split
        intro!: wp_mono [OF wp_supervise_round [OF assms]] wp_mono [OF Suc.IH])
      (erule loop_post_answer loop_post_step; assumption)+
qed

lemma supervisor_Run_post:
  assumes "traced_runner (supervisor_runner P s)"
  shows "\<exists>tr. m_calls (snd (run_state (supervisor_Run P pow rng fuel s ctx) m)) = m_calls m @ tr
    \<and> loop_post P s ctx fuel 0 0 tr (fst (run_state (supervisor_Run P pow rng fuel s ctx) m))"
proof -
  have "wp (supervisor_Run P pow rng fuel s ctx)
    (\<lambda>res m'. \<exists>tr. m_calls m' = m_calls m @ tr \<and> loop_post P s ctx fuel 0 0 tr res) m"
    unfolding supervisor_Run_def by (rule wp_supervise_loop [OF assms])
  then show ?thesis by (auto simp: wp_def split: prod.splits)
qed

section \<open>The documented behaviour of \<^verbatim>\<open>math.Pow\<close>\<close>

text \<open>
  What the code relies on: \<^verbatim>\<open>Pow(x, 0) = 1\<close>; a power of a number from 1 up with a non-negative
  exponent is a double from 1 up or overflows; a power of one half with a non-negative exponent
  is a double between 0 and 1, at most one half from exponent 1 on, and 0 at infinity.
\<close>

definition pow_ok :: "go_pow \<Rightarrow> bool" where
  "pow_ok pow \<longleftrightarrow>
    (\<forall>x. pow x (Fin 0) = Fin 1)
    \<and> (\<forall>q n. 1 \<le> q \<and> 0 \<le> n \<longrightarrow>
        pow (Fin q) (Fin n) = PInf \<or> (\<exists>r \<ge> 1. representable r \<and> pow (Fin q) (Fin n) = Fin r))
    \<and> (\<forall>y \<ge> 0. \<exists>r. pow (Fin (1/2)) (Fin y) = Fin r \<and> representable r \<and> 0 \<le> r \<and> r \<le> 1
        \<and> (1 \<le> y \<longrightarrow> r \<le> 1/2))
    \<and> pow (Fin (1/2)) PInf = Fin 0"

text \<open>A power function with this behaviour, which drops the fraction of the exponent.\<close>

definition pow_step :: go_pow where
  "pow_step x y = (case y of
      Fin n \<Rightarrow> if n = 0 then Fin 1 else (case x of Fin q \<Rightarrow> rnd (q ^ nat \<lfloor>n\<rfloor>) | _ \<Rightarrow> NaN)
    | _ \<Rightarrow> Fin 0)"

lemma representable_1 [simp]: "representable 1"
  using representable_of_int [of 1] by simp

lemma representable_0 [simp]: "representable 0"
  using representable_of_int [of 0] by simp

lemma representable_1_2 [simp]: "representable (1/2)"
  using representable_half [of 1] by simp

lemma small_bound: "0 \<le> v \<Longrightarrow> v \<le> 1 \<Longrightarrow> v < two_pow 1024"
  using two_pow_less [of 0 1024] by simp

lemma pow_step_ok: "pow_ok pow_step"
proof -
  have "pow_step (Fin q) (Fin n) = PInf \<or> (\<exists>r \<ge> 1. representable r \<and> pow_step (Fin q) (Fin n) = Fin r)"
    if "1 \<le> q" "0 \<le> n" for q n
  proof (cases "n = 0")
    case True
    then show ?thesis by (auto simp: pow_step_def)
  next
    case False
    have ge: "1 \<le> q ^ nat \<lfloor>n\<rfloor>" using that(1) by (rule one_le_power)
    then have nn: "0 \<le> q ^ nat \<lfloor>n\<rfloor>" by linarith
    show ?thesis
    proof (cases "rnd (q ^ nat \<lfloor>n\<rfloor>)")
      case (Fin r)
      with rnd_ge [OF zero_le_one ge representable_1 Fin] rnd_FinD [OF Fin nn] False
      show ?thesis by (auto simp: pow_step_def)
    qed (use rnd_nonneg [OF nn] False in \<open>auto simp: pow_step_def split: if_splits\<close>)
  qed
  moreover have "\<exists>r. pow_step (Fin (1/2)) (Fin y) = Fin r \<and> representable r \<and> 0 \<le> r \<and> r \<le> 1
        \<and> (1 \<le> y \<longrightarrow> r \<le> 1/2)" if y: "0 \<le> y" for y
  proof (cases "y = 0")
    case True
    then show ?thesis by (auto simp: pow_step_def)
  next
    case False
    let ?b = "if 1 \<le> y then 1/2 else 1 :: rat"
    have "(1/2 :: rat) ^ nat \<lfloor>y\<rfloor> \<le> ?b"
    proof (cases "1 \<le> y")
      case True
      then have "1 \<le> \<lfloor>y\<rfloor>" by (simp add: le_floor_iff)
      then obtain k where k: "nat \<lfloor>y\<rfloor> = Suc k" using not0_implies_Suc [of "nat \<lfloor>y\<rfloor>"] by auto
      have "(1/2 :: rat) ^ k \<le> 1" by (rule power_le_one) simp_all
      then show ?thesis using True by (simp add: k)
    qed (simp add: power_le_one)
    then obtain r where r: "rnd ((1/2) ^ nat \<lfloor>y\<rfloor>) = Fin r" "0 \<le> r" "r \<le> ?b"
      using rnd_le [of "(1/2) ^ nat \<lfloor>y\<rfloor>" ?b] small_bound [of ?b] by (auto split: if_splits)
    have "(0 :: rat) \<le> (1/2) ^ nat \<lfloor>y\<rfloor>" by simp
    from rnd_FinD [OF r(1) this] have "representable r" by blast
    with r False show ?thesis by (auto simp: pow_step_def split: if_splits)
  qed
  ultimately show ?thesis by (auto simp: pow_ok_def pow_step_def)
qed

section \<open>Bounds of the arithmetic\<close>

lemma rnd_of_int_pos:
  "0 \<le> n \<Longrightarrow> n \<le> 2 ^ 63 \<Longrightarrow> rnd (of_int n) = Fin (rnd_pos (of_int n))"
proof -
  assume n: "0 \<le> n" "n \<le> 2 ^ 63"
  have b: "representable (of_int (2 ^ 63))"
    unfolding representable_def
    by (intro exI [of _ 1] exI [of _ 63]) (simp add: two_pow_nat del: of_int_power)
  have "of_int (2 ^ 63) < two_pow 1024" using big_bound [of "2 ^ 63"] by simp
  from rnd_le [OF _ _ b this, of "of_int n"] n obtain r where "rnd (of_int n) = Fin r"
    by (auto simp del: of_int_power)
  with rnd_FinD [OF this] n show ?thesis by simp
qed

text \<open>A double below the rounding of an integer bound is below the bound.\<close>

lemma below_rnd:
  assumes "representable v" "0 \<le> v" "0 \<le> n" "n \<le> 2 ^ 63" "\<not> f_le (rnd (of_int n)) (Fin v)"
  shows "\<lfloor>v\<rfloor> \<le> n"
proof (rule ccontr)
  assume "\<not> \<lfloor>v\<rfloor> \<le> n"
  then have "of_int n \<le> v" by (simp add: le_floor_iff not_le less_imp_le less_floor_iff)
  then have "rnd_pos (of_int n) \<le> rnd_pos v" using assms(3) by (intro rnd_pos_mono) auto
  with rnd_pos_exact [OF assms(1,2)] have "rnd_pos (of_int n) \<le> v" by simp
  with assms(5) rnd_of_int_pos [OF assms(3,4)] show False by simp
qed

lemma backoff_bounds:
  assumes pow: "pow_ok pow" and base: "0 < base" "base \<le> 2 ^ 53" and limit: "limit < 2 ^ 63"
    and n: "0 \<le> n" "n < 2 ^ 63"
  defines "cp \<equiv> (if limit \<le> 0 then base else limit)"
  shows "min base cp \<le> backoffDelay pow n base factor limit"
    "backoffDelay pow n base factor limit \<le> cp"
proof -
  let ?f = "if \<not> f_le (Fin 1) factor \<or> f_isInf factor then Fin 1 else factor"
  obtain q where q: "?f = Fin q" "1 \<le> q"
  proof (cases factor)
    case (Fin x)
    then show thesis using that by (cases "1 \<le> x") (auto simp: f_isInf_def)
  qed (use that in \<open>auto simp: f_isInf_def\<close>)
  have cp: "0 \<le> cp" "cp \<le> 2 ^ 63" "0 < cp" using base limit by (auto simp: cp_def)
  have bb: "f_of_int base = Fin (of_int base)" using base rnd_of_int [of base] by (simp add: f_of_int_def)
  have rb: "representable (of_int base)" using base by (intro representable_of_int) simp
  obtain k where k: "f_of_int n = Fin k" "0 \<le> k"
    using rnd_of_int_pos [of n] n rnd_pos_nonneg [of "of_int n"] by (simp add: f_of_int_def)
  have "pow (Fin q) (Fin k) = PInf \<or> (\<exists>r \<ge> 1. representable r \<and> pow (Fin q) (Fin k) = Fin r)"
    using pow q(2) k(2) by (simp add: pow_ok_def)
  then consider "f_mul (Fin (of_int base)) (pow (Fin q) (Fin k)) = PInf"
    | v where "f_mul (Fin (of_int base)) (pow (Fin q) (Fin k)) = Fin v" "representable v"
        "0 \<le> v" "of_int base \<le> v"
  proof (elim disjE exE conjE)
    assume "pow (Fin q) (Fin k) = PInf"
    with base that(1) show thesis by (simp add: f_inf_def)
  next
    fix r assume r: "1 \<le> r" "pow (Fin q) (Fin k) = Fin r"
    have ge: "of_int base \<le> of_int base * r" using base r(1) by simp
    have nn: "0 \<le> of_int base * r" using base r(1) by simp
    show thesis
    proof (cases "rnd (of_int base * r)")
      case (Fin v)
      from rnd_FinD [OF Fin nn] have "representable v" "0 \<le> v" by blast+
      moreover have "of_int base \<le> v" using rnd_ge [OF _ ge rb Fin] base by simp
      ultimately show thesis using that(2) [of v] r(2) Fin by simp
    qed (use rnd_nonneg [OF nn] that(1) r(2) in \<open>auto split: if_splits\<close>)
  qed
  then have "min base cp \<le> backoffDelay pow n base factor limit
    \<and> backoffDelay pow n base factor limit \<le> cp"
  proof cases
    case 1
    then have "backoffDelay pow n base factor limit = cp"
      using base unfolding backoffDelay_def Let_def q(1) bb k(1) cp_def [symmetric]
      by (simp add: f_isInf_def)
    then show ?thesis by simp
  next
    case (2 v)
    then have d: "backoffDelay pow n base factor limit
        = (if f_le (rnd (of_int cp)) (Fin v) then cp else \<lfloor>v\<rfloor>)"
      using base unfolding backoffDelay_def Let_def q(1) bb k(1) cp_def [symmetric]
      by (simp add: f_isInf_def f_isNaN_def f_of_int_def)
    have "base \<le> \<lfloor>v\<rfloor>" using 2(4) by (simp add: le_floor_iff)
    with d below_rnd [OF 2(2,3) cp(1,2)] show ?thesis by auto
  qed
  then show "min base cp \<le> backoffDelay pow n base factor limit"
    "backoffDelay pow n base factor limit \<le> cp" by auto
qed

lemma jitter_scale_bounds:
  assumes d: "0 < d" "d \<le> 2 ^ 51" and q: "0 \<le> q" "q < 1"
  shows "d div 2 \<le> jitter_scale d (Fin q)" "jitter_scale d (Fin q) \<le> 3 * d div 2"
proof -
  have b32: "representable (3/2)" using representable_half [of 3] by simp
  have lt: "v < two_pow 1024" if "v \<le> of_int (2 ^ 53)" "0 \<le> v" for v :: rat
    using big_bound [of "2 ^ 53"] that by (simp del: of_int_power)
  obtain h where h: "rnd (1/2 + q) = Fin h" "1/2 \<le> h" "h \<le> 3/2"
    using rnd_le [of "1/2 + q" "3/2"] rnd_ge [of "1/2" "1/2 + q"] b32 q lt [of "3/2"] by auto
  have dd: "f_of_int d = Fin (of_int d)" using d by (simp add: f_of_int_def rnd_of_int)
  have "representable (of_int (3 * d) / 2)" "representable (of_int d / 2)"
    using d by (intro representable_half, simp)+
  moreover have "of_int d * h \<le> of_int (3 * d) / 2" "of_int d / 2 \<le> of_int d * h"
    using h d mult_left_mono [of h "3/2" "of_int d"] mult_left_mono [of "1/2" h "of_int d"] by simp_all
  moreover have "of_int (3 * d) / 2 \<le> (of_int (2 ^ 53) :: rat)"
    using d by (simp add: field_simps)
  ultimately obtain v where v: "rnd (of_int d * h) = Fin v" "of_int d / 2 \<le> v" "v \<le> of_int (3 * d) / 2"
    "v \<le> of_int (2 ^ 53)"
    using rnd_le [of "of_int d * h" "of_int (3 * d) / 2"] rnd_ge [of "of_int d / 2" "of_int d * h"]
      lt [of "of_int (3 * d) / 2"] d by auto
  have "of_int (2 ^ 53 + 1) \<le> rnd_pos (of_int maxInt64)"
  proof -
    have r: "representable (of_int (2 ^ 62))"
      unfolding representable_def
      by (intro exI [of _ 1] exI [of _ 62]) (simp add: two_pow_nat del: of_int_power)
    have "of_int (2 ^ 62) = rnd_pos (of_int (2 ^ 62))" using rnd_pos_exact [OF r] by simp
    also have "\<dots> \<le> rnd_pos (of_int maxInt64)" by (intro rnd_pos_mono) (simp_all add: maxInt64_def)
    finally show ?thesis by simp
  qed
  then have "\<not> f_le (f_of_int maxInt64) (Fin v)"
    using v(4) rnd_of_int_pos [of maxInt64] by (simp add: f_of_int_def maxInt64_def)
  moreover have "0 < v"
  proof -
    have "(0 :: rat) < of_int d / 2" using d by simp
    with v(2) show ?thesis by linarith
  qed
  ultimately have "jitter_scale d (Fin q) = \<lfloor>v\<rfloor>"
    by (simp add: jitter_scale_def Let_def dd h(1) v(1) f_isNaN_def)
  moreover have "d div 2 \<le> \<lfloor>v\<rfloor>"
  proof -
    have "d div 2 = \<lfloor>of_int d / 2 :: rat\<rfloor>" using floor_divide_of_int_eq [of d 2, where ?'a = rat] by simp
    with floor_mono [OF v(2)] show ?thesis by simp
  qed
  moreover have "\<lfloor>v\<rfloor> \<le> 3 * d div 2"
  proof -
    have "3 * d div 2 = \<lfloor>of_int (3 * d) / 2 :: rat\<rfloor>"
      using floor_divide_of_int_eq [of "3 * d" 2, where ?'a = rat] by simp
    with floor_mono [OF v(3)] show ?thesis by simp
  qed
  ultimately show "d div 2 \<le> jitter_scale d (Fin q)" "jitter_scale d (Fin q) \<le> 3 * d div 2" by auto
qed

section \<open>The storm score\<close>

lemma seconds_value:
  assumes "0 \<le> d" "d \<le> maxInt64"
  shows "\<exists>h. duration_Seconds d = rnd (of_int (d div 1000000000) + h) \<and> representable h \<and> 0 \<le> h \<and> h \<le> 1
    \<and> rnd (of_int (d mod 1000000000) / 1000000000) = Fin h \<and> d div 1000000000 \<le> 2 ^ 34"
proof -
  have sd: "d sdiv 1000000000 = d div 1000000000" "d smod 1000000000 = d mod 1000000000"
    using assms(1) by (simp_all add: signed_divide_int_def signed_modulo_int_def minus_div_mult_eq_mod
        sgn_if)
  have s34: "d div 1000000000 \<le> 2 ^ 34" "0 \<le> d div 1000000000"
    using assms by (simp_all add: maxInt64_def pos_imp_zdiv_nonneg_iff)
  have s: "rnd (of_int (d div 1000000000)) = Fin (of_int (d div 1000000000))"
    using s34 by (intro rnd_of_int) simp
  have m: "0 \<le> (of_int (d mod 1000000000) / 1000000000 :: rat)"
    "of_int (d mod 1000000000) / 1000000000 \<le> (1 :: rat)"
    using pos_mod_bound [of 1000000000 d] by (simp_all add: divide_le_eq)
  from rnd_le [OF m representable_1 small_bound] obtain h where
    h: "rnd (of_int (d mod 1000000000) / 1000000000) = Fin h" "0 \<le> h" "h \<le> 1" by auto
  from rnd_FinD [OF h(1) m(1)] have "representable h" by blast
  moreover have "rnd (of_int (d mod 1000000000)) = Fin (of_int (d mod 1000000000))"
    using pos_mod_bound [of 1000000000 d] pos_mod_sign [of 1000000000 d] by (intro rnd_of_int) simp
  ultimately show ?thesis using h s s34
    by (intro exI [of _ h]) (simp add: duration_Seconds_def sd f_of_int_def)
qed

lemma seconds_fin:
  assumes "0 \<le> d" "d \<le> maxInt64"
  shows "\<exists>x. duration_Seconds d = Fin x \<and> 0 \<le> x \<and> x \<le> of_int (d div 1000000000 + 1)
    \<and> of_int (d div 1000000000) \<le> x \<and> (0 < d \<longrightarrow> 0 < x)"
proof -
  let ?s = "d div 1000000000"
  from seconds_value [OF assms] obtain h where
    h: "duration_Seconds d = rnd (of_int ?s + h)" "representable h" "0 \<le> h" "h \<le> 1"
      "rnd (of_int (d mod 1000000000) / 1000000000) = Fin h" "?s \<le> 2 ^ 34" by blast
  have s0: "0 \<le> ?s" using assms by (simp add: pos_imp_zdiv_nonneg_iff)
  have r: "representable (of_int (?s + 1))" "representable (of_int ?s)"
    using s0 h(6) by (intro representable_of_int, simp)+
  have b: "of_int (?s + 1) < two_pow 1024" using big_bound [of "?s + 1"] s0 h(6) by simp
  from rnd_le [OF _ _ r(1) b, of "of_int ?s + h"] s0 h obtain x where
    x: "rnd (of_int ?s + h) = Fin x" "0 \<le> x" "x \<le> of_int (?s + 1)" by auto
  from rnd_ge [OF _ _ r(2) x(1)] s0 h(3) have lo: "of_int ?s \<le> x" by simp
  have "0 < x" if d: "0 < d"
  proof (cases "?s = 0")
    case False
    with s0 have "1 \<le> ?s" by linarith
    then have "of_int 1 \<le> (of_int ?s :: rat)" by (simp only: of_int_le_iff)
    with lo show ?thesis by simp
  next
    case True
    then have "d mod 1000000000 = d" using div_mult_mod_eq [of d 1000000000] by simp
    with d have "two_pow (- 30) \<le> of_int (d mod 1000000000) / 1000000000"
      by (simp add: two_pow_def field_simps)
    moreover have "representable (two_pow (- 30))"
      unfolding representable_def by (intro exI [of _ 1] exI [of _ "- 30"]) simp
    ultimately have "two_pow (- 30) \<le> h"
      using rnd_ge [OF _ _ _ h(5), of "two_pow (- 30)"] less_imp_le [OF two_pow_pos] by blast
    then have "0 < h" using two_pow_pos [of "- 30"] by linarith
    moreover have "rnd h = Fin h" using h(2-4) small_bound by (intro rnd_exact) auto
    ultimately show ?thesis using x(1) True by simp
  qed
  with x lo h(1) show ?thesis by auto
qed

lemma seconds_mono:
  assumes "0 \<le> c" "c \<le> d" "d \<le> maxInt64" "duration_Seconds c = Fin x" "duration_Seconds d = Fin y"
  shows "x \<le> y"
proof (cases "c div 1000000000 = d div 1000000000")
  case False
  then have "c div 1000000000 + 1 \<le> d div 1000000000"
    using zdiv_mono1 [OF assms(2), of 1000000000] by simp
  then have "of_int (c div 1000000000 + 1) \<le> (of_int (d div 1000000000) :: rat)"
    by (simp only: of_int_le_iff)
  with seconds_fin [of c] seconds_fin [of d] assms show ?thesis by auto
next
  case True
  let ?s = "d div 1000000000"
  from seconds_value [of c] assms obtain h where
    h: "duration_Seconds c = rnd (of_int ?s + h)" "0 \<le> h"
      "rnd (of_int (c mod 1000000000) / 1000000000) = Fin h" by (auto simp: True)
  from seconds_value [of d] assms obtain k where
    k: "duration_Seconds d = rnd (of_int ?s + k)" "0 \<le> k"
      "rnd (of_int (d mod 1000000000) / 1000000000) = Fin k" by auto
  have "c mod 1000000000 \<le> d mod 1000000000"
    using assms(2) True by (simp add: minus_div_mult_eq_mod [symmetric])
  then have "rnd_pos (of_int (c mod 1000000000) / 1000000000) \<le> rnd_pos (of_int (d mod 1000000000) / 1000000000)"
    by (intro rnd_pos_mono) (simp_all add: divide_right_mono)
  then have "h \<le> k"
    using rnd_FinD [OF h(3)] rnd_FinD [OF k(3)] by simp
  have s0: "0 \<le> ?s" using assms by (simp add: pos_imp_zdiv_nonneg_iff)
  have "rnd_pos (of_int ?s + h) \<le> rnd_pos (of_int ?s + k)"
    using s0 h(2) \<open>h \<le> k\<close> by (intro rnd_pos_mono) simp_all
  then show ?thesis
    using rnd_FinD [of "of_int ?s + h" x] rnd_FinD [of "of_int ?s + k" y] h k s0 assms(4,5) by simp
qed

text \<open>A score that is a double between 0 and \<open>k\<close>.\<close>

definition score_le :: "rat \<Rightarrow> stormState \<Rightarrow> bool" where
  "score_le k st \<longleftrightarrow> (\<exists>v. ss_score st = Fin v \<and> representable v \<and> 0 \<le> v \<and> v \<le> k)"

lemma storm_decay:
  assumes pow: "pow_ok pow" and dt: "0 \<le> dt" "dt \<le> maxInt64" and decay: "0 < decay" "decay \<le> maxInt64"
  shows "\<exists>r. pow (Fin (1/2)) (f_div (duration_Seconds dt) (duration_Seconds decay)) = Fin r
    \<and> 0 \<le> r \<and> r \<le> 1 \<and> (decay \<le> dt \<longrightarrow> r \<le> 1/2)"
proof -
  from seconds_fin [OF dt] obtain x where x: "duration_Seconds dt = Fin x" "0 \<le> x" by blast
  from seconds_fin [of decay] decay obtain z where z: "duration_Seconds decay = Fin z" "0 < z" by auto
  have nn: "0 \<le> x / z" using x z by simp
  show ?thesis
  proof (cases "rnd (x / z)")
    case (Fin y)
    from rnd_FinD [OF Fin nn] have y: "0 \<le> y" by blast
    have "1 \<le> y" if "decay \<le> dt"
    proof -
      have "z \<le> x" using seconds_mono [OF less_imp_le [OF decay(1)] that dt(2) z(1) x(1)] .
      then have "1 \<le> x / z" using z(2) by simp
      from rnd_ge [OF zero_le_one this representable_1 Fin] show ?thesis .
    qed
    moreover obtain r where "pow (Fin (1/2)) (Fin y) = Fin r" "0 \<le> r" "r \<le> 1" "1 \<le> y \<longrightarrow> r \<le> 1/2"
      using pow y unfolding pow_ok_def by blast
    ultimately show ?thesis using x z Fin by (intro exI [of _ r]) auto
  qed (use pow x z rnd_nonneg [OF nn] in \<open>auto simp: pow_ok_def split: if_splits\<close>)
qed

lemma storm_record_bound:
  assumes pow: "pow_ok pow" and decay: "decay \<le> maxInt64"
    and st: "score_le (of_int k) st" "0 \<le> k" "k < 2 ^ 53"
    and now: "ss_hasLast st \<Longrightarrow> ss_last st \<le> now"
  shows "\<exists>v. storm_record pow now decay st = (Fin v, \<lparr>ss_score = Fin v, ss_last = now, ss_hasLast = True\<rparr>)
    \<and> representable v \<and> 1 \<le> v \<and> v \<le> of_int (k + 1)
    \<and> ((ss_hasLast st \<longrightarrow> decay \<le> now - ss_last st) \<and> k \<le> 2 \<longrightarrow> v \<le> 2)"
proof -
  let ?b = "(ss_hasLast st \<longrightarrow> decay \<le> now - ss_last st) \<and> k \<le> 2"
  from st obtain s where s: "ss_score st = Fin s" "representable s" "0 \<le> s" "s \<le> of_int k"
    by (auto simp: score_le_def)
  have rk: "representable (of_int j)" "of_int j < two_pow 1024" if "0 \<le> j" "j \<le> 2 ^ 53" for j
    using that big_bound [of j] by (auto intro: representable_of_int)
  have "\<exists>u. fst (storm_record pow now decay st) = f_add (Fin u) (Fin 1) \<and> 0 \<le> u \<and> u \<le> of_int k
    \<and> (?b \<longrightarrow> u \<le> 1)"
  proof (cases "\<not> ss_hasLast st \<or> decay \<le> 0")
    case True
    then show ?thesis using st(2) by (intro exI [of _ 0]) (auto simp: storm_record_def Let_def)
  next
    case False
    let ?dt = "time_Sub now (ss_last st)"
    have dt: "0 \<le> ?dt" "?dt \<le> maxInt64" using now False by (auto simp: time_Sub_def maxInt64_def)
    have dd: "?b \<Longrightarrow> decay \<le> ?dt" using False decay by (auto simp: time_Sub_def)
    from False storm_decay [OF pow dt _ decay] obtain r where
      r: "pow (Fin (1/2)) (f_div (duration_Seconds ?dt) (duration_Seconds decay)) = Fin r"
        "0 \<le> r" "r \<le> 1" "?b \<longrightarrow> r \<le> 1/2" using dd by auto
    have sr: "0 \<le> s * r" "s * r \<le> of_int k"
      using s r mult_mono [of s "of_int k" r 1] st(2) by auto
    from rnd_le [OF sr rk [of k]] st obtain u where
      u: "rnd (s * r) = Fin u" "0 \<le> u" "u \<le> of_int k" by auto
    have "u \<le> 1" if ?b
    proof -
      have "s \<le> 2" using s(4) that order_trans [of s "of_int k" "of_int 2"] by simp
      then have "s * r \<le> 1" using s r that mult_mono [of s 2 r "1/2"] by auto
      from rnd_le [OF sr(1) this representable_1 small_bound] u(1) show ?thesis by auto
    qed
    with u False s(1) r(1) show ?thesis
      by (intro exI [of _ u]) (auto simp: storm_record_def Let_def f_isNaN_def f_isInf_def)
  qed
  then obtain u where u: "fst (storm_record pow now decay st) = rnd (u + 1)" "0 \<le> u" "u \<le> of_int k"
    "?b \<longrightarrow> u \<le> 1" by auto
  have "0 \<le> u + 1" "u + 1 \<le> of_int (k + 1)" using u by auto
  from rnd_le [OF this rk [of "k + 1"]] st obtain v where
    v: "rnd (u + 1) = Fin v" "0 \<le> v" "v \<le> of_int (k + 1)" by auto
  have "1 \<le> u + 1" using u by simp
  from rnd_ge [OF zero_le_one this representable_1 v(1)] have "1 \<le> v" .
  moreover have "v \<le> 2" if ?b
    using rnd_le [of "u + 1" 2] u(2,4) that rk [of 2] v(1) by auto
  moreover have "representable v" using rnd_FinD [OF v(1)] u(2) by auto
  moreover have "snd (storm_record pow now decay st)
      = \<lparr>ss_score = fst (storm_record pow now decay st), ss_last = now, ss_hasLast = True\<rparr>"
    by (simp add: storm_record_def Let_def)
  ultimately show ?thesis using u(1) v by (intro exI [of _ v]) (auto simp: prod_eq_iff)
qed

text \<open>The scores of a run of failures at given times.\<close>

fun storm_scores :: "go_pow \<Rightarrow> duration \<Rightarrow> stormState \<Rightarrow> int list \<Rightarrow> f64 list" where
  "storm_scores pow decay st [] = []"
| "storm_scores pow decay st (t # ts) =
    (case storm_record pow t decay st of (score, st') \<Rightarrow> score # storm_scores pow decay st' ts)"

lemma storm_scores_bound:
  assumes "pow_ok pow" "decay \<le> maxInt64"
  shows "score_le (of_int k) st \<Longrightarrow> 0 \<le> k \<Longrightarrow> k + int (length ts) \<le> 2 ^ 53 \<Longrightarrow>
    sorted ts \<Longrightarrow> (ss_hasLast st \<Longrightarrow> ts \<noteq> [] \<Longrightarrow> ss_last st \<le> hd ts) \<Longrightarrow> i < length ts \<Longrightarrow>
    \<exists>v. storm_scores pow decay st ts ! i = Fin v \<and> 1 \<le> v \<and> v \<le> of_int (k + int i + 1)"
proof (induction ts arbitrary: k st i)
  case (Cons t ts)
  from storm_record_bound [OF assms Cons.prems(1,2), of t] Cons.prems obtain v where
    v: "storm_record pow t decay st = (Fin v, \<lparr>ss_score = Fin v, ss_last = t, ss_hasLast = True\<rparr>)"
      "representable v" "1 \<le> v" "v \<le> of_int (k + 1)" by auto
  let ?st = "\<lparr>ss_score = Fin v, ss_last = t, ss_hasLast = True\<rparr>"
  show ?case
  proof (cases i)
    case 0
    with v show ?thesis by simp
  next
    case (Suc j)
    have "score_le (of_int (k + 1)) ?st" using v by (auto simp: score_le_def)
    from Cons.IH [OF this, of j] Cons.prems Suc v(1) show ?thesis
      by (auto simp: algebra_simps)
  qed
qed simp

lemma storm_scores_spaced:
  assumes "pow_ok pow" "decay \<le> maxInt64"
  shows "score_le 2 st \<Longrightarrow> sorted ts \<Longrightarrow> successively (\<lambda>t u. decay \<le> u - t) ts \<Longrightarrow>
    (ss_hasLast st \<Longrightarrow> ts \<noteq> [] \<Longrightarrow> ss_last st \<le> hd ts \<and> decay \<le> hd ts - ss_last st) \<Longrightarrow>
    i < length ts \<Longrightarrow> \<exists>v. storm_scores pow decay st ts ! i = Fin v \<and> 1 \<le> v \<and> v \<le> 2"
proof (induction ts arbitrary: st i)
  case (Cons t ts)
  from storm_record_bound [OF assms, of 2 st t] Cons.prems obtain v where
    v: "storm_record pow t decay st = (Fin v, \<lparr>ss_score = Fin v, ss_last = t, ss_hasLast = True\<rparr>)"
      "representable v" "1 \<le> v" "v \<le> 2" by auto
  let ?st = "\<lparr>ss_score = Fin v, ss_last = t, ss_hasLast = True\<rparr>"
  show ?case
  proof (cases i)
    case 0
    with v show ?thesis by simp
  next
    case (Suc j)
    have "score_le 2 ?st" using v by (auto simp: score_le_def)
    from Cons.IH [OF this, of j] Cons.prems Suc v(1) show ?thesis
      by (cases ts) auto
  qed
qed simp

section \<open>Properties\<close>

definition always_cmd :: "nat supervisor" where
  "always_cmd = WithMaxRestarts 2 (WithJitter False (WithBackoff 0 (Fin 1)
     (WithRestart RestartAlways (Supervise (mk_Command ''worker'' [])))))"

lemma always_cmd_traced: "traced_runner (supervisor_runner P always_cmd)"
  using job_runner.traced_runner_axioms
  by (simp add: always_cmd_def supervisor_runner_def WithMaxRestarts_def WithJitter_def
      WithBackoff_def WithRestart_def Supervise_def mk_Command_def)

text \<open>
  Claim C10. A supervisor with a restart budget answers: its loop ends within maxRestarts + 1
  incarnations, whatever the runs, the stop predicate, the clock and the random source do, and it
  never runs the command more often than that.
\<close>

theorem supervision_terminates:
  assumes "traced_runner (supervisor_runner P s)" "0 \<le> sv_maxRestarts s"
    "sv_maxRestarts s < int fuel"
  shows "fst (run_state (supervisor_Run P pow rng fuel s ctx) m) \<noteq> None
    \<and> (\<exists>tr. m_calls (snd (run_state (supervisor_Run P pow rng fuel s ctx) m)) = m_calls m @ tr
         \<and> runs_of (cmd_invocation (sv_cmd s)) tr \<le> sv_maxRestarts s + 1)"
proof -
  from supervisor_Run_post [OF assms(1), of pow rng fuel ctx m] obtain tr where
    tr: "m_calls (snd (run_state (supervisor_Run P pow rng fuel s ctx) m)) = m_calls m @ tr"
    "loop_post P s ctx fuel 0 0 tr (fst (run_state (supervisor_Run P pow rng fuel s ctx) m))" by auto
  show ?thesis
  proof (cases "fst (run_state (supervisor_Run P pow rng fuel s ctx) m)")
    case None
    with tr(2) assms(2,3) show ?thesis by (simp add: loop_post_def)
  next
    case (Some answer)
    with tr assms(2) show ?thesis
      by (cases answer) (auto simp: loop_post_def intro!: exI [of _ tr])
  qed
qed

theorem supervision_terminates_witness:
  "fst (run_state (supervisor_Run (quiet_exit 0) pow_step (\<lambda>w. (Fin 0, w)) 3 always_cmd 0)
     (mach0 0)) \<noteq> None"
proof -
  have "0 \<le> sv_maxRestarts always_cmd \<and> sv_maxRestarts always_cmd < int 3"
    by (simp add: always_cmd_def WithMaxRestarts_def)
  with supervision_terminates [OF always_cmd_traced, of 3 "quiet_exit 0" pow_step
      "\<lambda>w. (Fin 0, w)" 0 "mach0 0"]
  show ?thesis by simp
qed

text \<open>
  Claim C9. What a concluded supervision reports is what happened: the command ran Restarts + 1
  times, one backoff sleep was completed per restart and one more per storm pause, there is at most
  one storm pause per restart and none with the guard off, the budget was respected, Final is a
  result of the runner for this command, and the stop reason tells the truth: the predicate
  matched it, or did not and the policy wanted no further run, or the policy wanted one and the
  budget was spent exactly.
\<close>

theorem supervision_report:
  assumes "traced_runner (supervisor_runner P s)"
    "fst (run_state (supervisor_Run P pow rng fuel s ctx) m) = Some (Inr out)"
  shows "\<exists>tr. m_calls (snd (run_state (supervisor_Run P pow rng fuel s ctx) m)) = m_calls m @ tr
    \<and> runs_of (cmd_invocation (sv_cmd s)) tr = sup_Restarts out + 1
    \<and> sleeps_of tr = sup_Restarts out + sup_StormPauses out
    \<and> 0 \<le> sup_StormPauses out \<and> sup_StormPauses out \<le> sup_Restarts out
    \<and> (sv_stormPause s \<le> 0 \<longrightarrow> sup_StormPauses out = 0)
    \<and> (0 \<le> sv_maxRestarts s \<longrightarrow> sup_Restarts out \<le> sv_maxRestarts s)
    \<and> (\<exists>m0 m1. run_state (supervisor_runner P s ctx (cmd_invocation (sv_cmd s))) m0
          = (Inr (sup_Final out), m1))
    \<and> (case sup_Stopped out of
         StoppedByPredicate \<Rightarrow> stop_matches s (sup_Final out)
       | StoppedPolicySatisfied \<Rightarrow> \<not> stop_matches s (sup_Final out)
           \<and> \<not> wantsRestart (sv_policy s) (\<not> Success (sup_Final out))
       | StoppedRestartsExhausted \<Rightarrow> \<not> stop_matches s (sup_Final out)
           \<and> wantsRestart (sv_policy s) (\<not> Success (sup_Final out))
           \<and> 0 \<le> sv_maxRestarts s \<and> sup_Restarts out = sv_maxRestarts s)"
proof -
  from supervisor_Run_post [OF assms(1), of pow rng fuel ctx m] assms(2) obtain tr where
    tr: "m_calls (snd (run_state (supervisor_Run P pow rng fuel s ctx) m)) = m_calls m @ tr"
    "loop_post P s ctx fuel 0 0 tr (Some (Inr out))" by auto
  from tr(2) have l: "0 \<le> sup_Restarts out" "0 \<le> sup_StormPauses out"
    "runs_of (cmd_invocation (sv_cmd s)) tr = sup_Restarts out + 1"
    "sleeps_of tr = sup_Restarts out + sup_StormPauses out"
    "sup_StormPauses out \<le> sup_Restarts out" "sv_stormPause s \<le> 0 \<longrightarrow> sup_StormPauses out = 0"
    "0 \<le> sv_maxRestarts s \<longrightarrow> sup_Restarts out \<le> sv_maxRestarts s"
    and c: "concluded P s ctx out"
    by (auto simp: loop_post_def)
  from c have "case sup_Stopped out of
         StoppedByPredicate \<Rightarrow> stop_matches s (sup_Final out)
       | StoppedPolicySatisfied \<Rightarrow> \<not> stop_matches s (sup_Final out)
           \<and> \<not> wantsRestart (sv_policy s) (\<not> Success (sup_Final out))
       | StoppedRestartsExhausted \<Rightarrow> \<not> stop_matches s (sup_Final out)
           \<and> wantsRestart (sv_policy s) (\<not> Success (sup_Final out))
           \<and> 0 \<le> sv_maxRestarts s \<and> sup_Restarts out = sv_maxRestarts s"
    using l(7) by (auto simp: concluded_def split: stopReason.splits)
  with tr(1) l c show ?thesis unfolding concluded_def by blast
qed

theorem supervision_report_witness:
  "\<exists>out. fst (run_state (supervisor_Run (quiet_exit 0) pow_step (\<lambda>w. (Fin 0, w)) 3 always_cmd 0)
      (mach0 0)) = Some (Inr out) \<and> sup_Restarts out = 2 \<and> sup_Stopped out = StoppedRestartsExhausted
    \<and> sup_StormPauses out \<le> sup_Restarts out"
proof -
  have "\<exists>out. fst (run_state (supervisor_Run (quiet_exit 0) pow_step (\<lambda>w. (Fin 0, w)) 3 always_cmd 0)
      (mach0 0)) = Some (Inr out) \<and> sup_Restarts out = 2 \<and> sup_Stopped out = StoppedRestartsExhausted"
    by (simp add: numeral_3_eq_3 supervisor_Run_def supervise_round_def supervise_restart_def
        supervisor_runner_def always_cmd_def WithMaxRestarts_def WithJitter_def WithBackoff_def
        WithRestart_def Supervise_def mk_Command_def JobRunner_Output_def JobRunner_contained_def
        JobRunner_finish_def os_defs quiet_exit_def quiet_platform_def mach0_def cmd_invocation_def
        cancelledBy_def resolveOutcome_def outcomeOf_def outcomeOf_unix_def conclude_def
        storm_guard_def applyJitter_def backoffDelay_def sleepCtx_def)
  then obtain out where o: "fst (run_state (supervisor_Run (quiet_exit 0) pow_step (\<lambda>w. (Fin 0, w)) 3
      always_cmd 0) (mach0 0)) = Some (Inr out)" "sup_Restarts out = 2"
      "sup_Stopped out = StoppedRestartsExhausted" by blast
  from supervision_report [OF always_cmd_traced o(1)] o show ?thesis by blast
qed

text \<open>
  The backoff before a restart lies between the base and the cap, whatever the factor is
  (a factor below 1, NaN or infinite counts as 1) and however far the power overflows: never below
  the smaller of the two, never above the cap; a non-positive base is no delay at all.
\<close>

theorem backoff_delay_bounds:
  assumes "pow_ok pow" "base \<le> 2 ^ 53" "limit < 2 ^ 63" "0 \<le> n" "n < 2 ^ 63"
  shows "(if base \<le> 0 then backoffDelay pow n base factor limit = 0
     else min base (if limit \<le> 0 then base else limit) \<le> backoffDelay pow n base factor limit
       \<and> backoffDelay pow n base factor limit \<le> (if limit \<le> 0 then base else limit))"
proof (cases "base \<le> 0")
  case True
  then show ?thesis by (simp add: backoffDelay_def)
next
  case False
  then have b: "0 < base" by simp
  from backoff_bounds [OF assms(1) b assms(2-5), of factor] False show ?thesis by simp
qed

theorem backoff_delay_bounds_witness:
  "200000000 \<le> backoffDelay pow_step 7 200000000 (Fin 2) 30000000000
   \<and> backoffDelay pow_step 7 200000000 (Fin 2) 30000000000 \<le> 30000000000"
  using backoff_delay_bounds [OF pow_step_ok, of 200000000 30000000000 7 "Fin 2"] by simp

text \<open>
  Jitter keeps a positive delay within plus or minus a half: for every number drawn from
  [0, 1), the jittered delay lies between half the delay and one and a half times the delay, both
  rounded down, in spite of the double rounding of the sum and of the product.
\<close>

theorem jitter_spread:
  assumes "0 < d" "d \<le> 2 ^ 51" "0 \<le> q" "q < 1"
  shows "d div 2 \<le> jitter_scale d (Fin q) \<and> jitter_scale d (Fin q) \<le> 3 * d div 2"
  using jitter_scale_bounds [OF assms] by simp

theorem jitter_spread_witness:
  "2500 \<le> jitter_scale 5000 (Fin (1/3)) \<and> jitter_scale 5000 (Fin (1/3)) \<le> 7500"
  using jitter_spread [of 5000 "1/3"] by simp

text \<open>
  The jitter comes after the cap: with the default settings the capped delay of 30
  seconds becomes 37.5 seconds when the random source draws 3/4, although WithMaxBackoff is
  documented to cap the per-restart delay.
\<close>

theorem jitter_exceeds_cap:
  "sv_maxBackoff (Supervise c) = 30000000000
   \<and> jitter_scale (sv_maxBackoff (Supervise c)) (Fin (3/4)) = 37500000000"
proof -
  have r54: "rnd (5/4) = Fin (5/4)"
  proof (rule rnd_exact)
    show "representable (5/4)"
      unfolding representable_def by (intro exI [of _ 5] exI [of _ "- 2"]) (simp add: two_pow_def)
    show "\<bar>5/4\<bar> < two_pow 1024" using two_pow_less [of 1 1024] by simp
  qed
  have i: "rnd 30000000000 = Fin 30000000000" "rnd 37500000000 = Fin 37500000000"
    using rnd_of_int [of 30000000000] rnd_of_int [of 37500000000] by simp_all
  have mx: "\<not> f_le (f_of_int maxInt64) (Fin 37500000000)"
  proof -
    have r: "representable (of_int (2 ^ 53))" by (rule representable_of_int) simp
    have "of_int (2 ^ 53) \<le> rnd_pos (of_int maxInt64)"
      using rnd_pos_mono [of "of_int (2 ^ 53)" "of_int maxInt64"] rnd_pos_exact [OF r]
      by (simp add: maxInt64_def)
    then show ?thesis using rnd_of_int_pos [of maxInt64] by (simp add: f_of_int_def maxInt64_def)
  qed
  show ?thesis
    using r54 i mx by (simp add: Supervise_def jitter_scale_def Let_def f_of_int_def f_isNaN_def)
qed

text \<open>
  The storm score counts: after a run of failures at non-decreasing times the i-th score
  is a double between 1 and i + 1, so the guard cannot fire before more failures than the threshold
  have happened since it was last reset; and failures at least one decay apart never score more
  than 2.
\<close>

theorem storm_score_counts:
  assumes "pow_ok pow" "decay \<le> maxInt64" "sorted ts" "int (length ts) \<le> 2 ^ 53" "i < length ts"
  shows "\<exists>v. storm_scores pow decay storm_zero ts ! i = Fin v \<and> 1 \<le> v \<and> v \<le> of_nat (Suc i)
    \<and> (successively (\<lambda>t u. decay \<le> u - t) ts \<longrightarrow> v \<le> 2)"
proof -
  have z: "score_le (of_int 0) storm_zero" "score_le 2 storm_zero" "\<not> ss_hasLast storm_zero"
    by (simp_all add: score_le_def storm_zero_def)
  from storm_scores_bound [OF assms(1,2) z(1), of ts i] z(3) assms obtain v where
    v: "storm_scores pow decay storm_zero ts ! i = Fin v" "1 \<le> v" "v \<le> of_int (int i + 1)" by auto
  have "v \<le> 2" if "successively (\<lambda>t u. decay \<le> u - t) ts"
    using storm_scores_spaced [OF assms(1,2) z(2) assms(3) that _ assms(5)] z(3) v(1) by auto
  with v show ?thesis by (intro exI [of _ v]) simp
qed

theorem storm_score_counts_witness:
  "\<exists>v. storm_scores pow_step 30000000000 storm_zero [0, 5, 7] ! 2 = Fin v \<and> 1 \<le> v \<and> v \<le> 3"
  using storm_score_counts [OF pow_step_ok, of 30000000000 "[0, 5, 7]" 2]
  by (auto simp: maxInt64_def)

text \<open>
  Cancellation ends supervision: a context that has ended before an incarnation runs
  nothing, and an incarnation that ends with an error matching ErrCancelled is returned as it is,
  whatever the restart policy, the budget and the storm guard say.
\<close>

theorem supervision_cancelled:
  "(p_ctxErr P ctx (m_world m) = (Some e, w) \<longrightarrow>
     (\<exists>cause. fst (run_state (supervisor_Run P pow rng (Suc fuel) s ctx) m)
        = Some (Inl (CancelError (cm_program (sv_cmd s)) cause)))
     \<and> m_calls (snd (run_state (supervisor_Run P pow rng (Suc fuel) s ctx) m)) = m_calls m)
   \<and> (p_ctxErr P ctx (m_world m) = (None, w) \<and> is_err err ErrCancelled
      \<and> run_state (supervisor_runner P s ctx (cmd_invocation (sv_cmd s)))
          (m\<lparr>m_world := w, m_calls := m_calls m @ [CRunOutput (cmd_invocation (sv_cmd s))]\<rparr>)
          = (Inl err, m')
      \<longrightarrow> run_state (supervisor_Run P pow rng (Suc fuel) s ctx) m = (Some (Inl err), m'))"
  by (auto simp: supervisor_Run_def supervise_round_def cancel_of_def os_defs split: prod.split)

theorem supervision_cancelled_witness:
  "fst (run_state (supervisor_Run (quiet_platform \<lparr>ps_signaled = False, ps_signal = 0, ps_exitCode = 0\<rparr>
      (Some (Sentinel Context_Canceled))) pow_step (\<lambda>w. (Fin 0, w)) 1 always_cmd 0) (mach0 1))
    \<noteq> None"
  using supervision_cancelled [of "quiet_platform \<lparr>ps_signaled = False, ps_signal = 0, ps_exitCode = 0\<rparr>
      (Some (Sentinel Context_Canceled))" 0 "mach0 1" "Sentinel Context_Canceled" 1 pow_step
      "\<lambda>w. (Fin 0, w)" 0 always_cmd]
  by (auto simp: quiet_platform_def mach0_def)

end
