(* ===== verification/Stream.thy ===== *)
theory Stream
  imports Machine
begin

text \<open>
  The streaming half of \<^verbatim>\<open>Group.Start\<close> (\<^verbatim>\<open>stream.go\<close>): the start options, the splitting of an output
  stream into lines under a memory bound (\<^verbatim>\<open>drainLines\<close>), the tee and decoder wiring of one stream
  (\<^verbatim>\<open>drainOne\<close>).  The merged channel the drains feed is the subject of \<open>LineChannel\<close>.

  A reader is the list of results its \<^verbatim>\<open>Read\<close> calls give, each some bytes and whether an error came
  with them; after the last one it reports EOF.  A writer tells for a write, from what it has
  already accepted, whether it takes all of it (\<open>None\<close>) or fails after some bytes.
\<close>

section \<open>Streams, lines and options\<close>

type_synonym reader = "(bytes \<times> bool) list"
type_synonym writer = "bytes \<Rightarrow> bytes \<Rightarrow> nat option"

text \<open>\<^verbatim>\<open>StreamID\<close> is a \<^verbatim>\<open>uint8\<close> with two named values.\<close>

datatype streamID = StreamStdout | StreamStderr | StreamUnnamed nat

fun streamID_String :: "streamID \<Rightarrow> bytes" where
  "streamID_String StreamStdout = ''stdout''"
| "streamID_String StreamStderr = ''stderr''"
| "streamID_String _ = ''stream?''"

record line =
  l_Stream :: streamID
  l_Text :: bytes

datatype overflowPolicy = OverflowBlock | OverflowDropNewest

definition defaultBufferLines :: int where
  "defaultBufferLines = 1024"

definition defaultMaxLineBytes :: int where
  "defaultMaxLineBytes = 1048576"

definition readBufSize :: nat where
  "readBufSize = 32 * 1024"

text \<open>
  \<^verbatim>\<open>startConfig\<close>.  A callback is a reference; a decoder maps the reads of its source to the reads
  it delivers and tells how many reads of the source it makes.
\<close>

record startConfig =
  sc_stdin :: "stdin_src option"
  sc_stdoutTee :: "writer option"
  sc_stderrTee :: "writer option"
  sc_onStdout :: "nat option"
  sc_onStderr :: "nat option"
  sc_streamLines :: bool
  sc_bufferLines :: int
  sc_overflow :: overflowPolicy
  sc_decoder :: "(reader \<Rightarrow> reader \<times> nat) option"
  sc_maxLineBytes :: int

definition startConfig0 :: startConfig where
  "startConfig0 = \<lparr>sc_stdin = None, sc_stdoutTee = None, sc_stderrTee = None, sc_onStdout = None,
     sc_onStderr = None, sc_streamLines = False, sc_bufferLines = 0, sc_overflow = OverflowBlock,
     sc_decoder = None, sc_maxLineBytes = 0\<rparr>"

lemma startConfig0_decoder [simp]: "sc_decoder startConfig0 = None"
  by (simp add: startConfig0_def)

type_synonym startOption = "startConfig \<Rightarrow> startConfig"

definition start_WithStdin :: "stdin_src option \<Rightarrow> startOption" where
  "start_WithStdin r c = c\<lparr>sc_stdin := r\<rparr>"

definition WithStdout :: "writer option \<Rightarrow> startOption" where
  "WithStdout w c = c\<lparr>sc_stdoutTee := w\<rparr>"

definition WithStderr :: "writer option \<Rightarrow> startOption" where
  "WithStderr w c = c\<lparr>sc_stderrTee := w\<rparr>"

definition OnStdoutLine :: "nat option \<Rightarrow> startOption" where
  "OnStdoutLine f c = c\<lparr>sc_onStdout := f\<rparr>"

definition OnStderrLine :: "nat option \<Rightarrow> startOption" where
  "OnStderrLine f c = c\<lparr>sc_onStderr := f\<rparr>"

definition StreamLines :: startOption where
  "StreamLines c = c\<lparr>sc_streamLines := True\<rparr>"

definition BufferLines :: "int \<Rightarrow> startOption" where
  "BufferLines n c = c\<lparr>sc_bufferLines := n\<rparr>"

definition OnOverflow :: "overflowPolicy \<Rightarrow> startOption" where
  "OnOverflow p c = c\<lparr>sc_overflow := p\<rparr>"

definition WithDecoder :: "(reader \<Rightarrow> reader \<times> nat) option \<Rightarrow> startOption" where
  "WithDecoder d c = c\<lparr>sc_decoder := d\<rparr>"

definition WithMaxLineBytes :: "int \<Rightarrow> startOption" where
  "WithMaxLineBytes n c = c\<lparr>sc_maxLineBytes := n\<rparr>"

definition start_resolve :: "startConfig \<Rightarrow> startConfig" where
  "start_resolve c =
    (let c1 = (if sc_bufferLines c \<le> 0 then c\<lparr>sc_bufferLines := defaultBufferLines\<rparr> else c)
     in if sc_maxLineBytes c1 \<le> 0 then c1\<lparr>sc_maxLineBytes := defaultMaxLineBytes\<rparr> else c1)"

definition wantsStdout :: "startConfig \<Rightarrow> bool" where
  "wantsStdout c \<longleftrightarrow> sc_streamLines c \<or> sc_onStdout c \<noteq> None \<or> sc_stdoutTee c \<noteq> None"

definition wantsStderr :: "startConfig \<Rightarrow> bool" where
  "wantsStderr c \<longleftrightarrow> sc_streamLines c \<or> sc_onStderr c \<noteq> None \<or> sc_stderrTee c \<noteq> None"

text \<open>The options of one start, applied in order and resolved (the head of \<^verbatim>\<open>Group.Start\<close>).\<close>

definition start_config :: "startOption list \<Rightarrow> startConfig" where
  "start_config opts = start_resolve (fold (\<lambda>o' c. o' c) opts startConfig0)"

lemma start_config_bounds: "0 < sc_bufferLines (start_config opts)" "0 < sc_maxLineBytes (start_config opts)"
  by (auto simp: start_config_def start_resolve_def Let_def defaultBufferLines_def
      defaultMaxLineBytes_def)

section \<open>Splitting into lines\<close>

definition drop_last_if :: "char \<Rightarrow> bytes \<Rightarrow> bytes" where
  "drop_last_if c b = (if b \<noteq> [] \<and> last b = c then butlast b else b)"

definition trimLineEnd :: "bytes \<Rightarrow> bytes" where
  "trimLineEnd b = drop_last_if CR (drop_last_if LF b)"

text \<open>The flush of whole cap-sized fragments of a run without a newline.\<close>

function fragments :: "nat \<Rightarrow> bytes \<Rightarrow> bytes list \<times> bytes" where
  "fragments cap acc =
    (if 0 < cap \<and> cap \<le> length acc
     then (case fragments cap (drop cap acc) of (out, rest) \<Rightarrow> (take cap acc # out, rest))
     else ([], acc))"
  by pat_completeness auto
termination by (relation "measure (\<lambda>(cap, acc). length acc)") auto

declare fragments.simps [simp del]

text \<open>The inner loop of \<^verbatim>\<open>drainLines\<close> over one chunk: the texts emitted and the new accumulator.\<close>

function drain_chunk :: "nat \<Rightarrow> bytes \<Rightarrow> bytes \<Rightarrow> bytes list \<times> bytes" where
  "drain_chunk cap chunk acc =
    (if chunk = [] then ([], acc)
     else if LF \<in> set chunk then
       (case drain_chunk cap (tl (dropWhile (\<lambda>c. c \<noteq> LF) chunk)) [] of
          (out, acc') \<Rightarrow> (trimLineEnd (acc @ takeWhile (\<lambda>c. c \<noteq> LF) chunk @ [LF]) # out, acc'))
     else fragments cap (acc @ chunk))"
  by pat_completeness auto
termination
  by (relation "measure (\<lambda>(cap, chunk, acc). length chunk)")
    (simp_all add: length_tl_dropWhile_less del: length_tl)

declare drain_chunk.simps [simp del]

definition drain_flush :: "bytes \<Rightarrow> bytes list" where
  "drain_flush acc = (if acc = [] then [] else [trimLineEnd acc])"

fun drain_loop :: "nat \<Rightarrow> reader \<Rightarrow> bytes \<Rightarrow> bytes list" where
  "drain_loop cap [] acc = drain_flush acc"
| "drain_loop cap ((chunk, err) # rs) acc =
    (case drain_chunk cap chunk acc of
       (out, acc') \<Rightarrow> out @ (if err then drain_flush acc' else drain_loop cap rs acc'))"

definition drainLines :: "reader \<Rightarrow> int \<Rightarrow> bytes list" where
  "drainLines src maxLineBytes =
    drain_loop (nat (if maxLineBytes \<le> 0 then defaultMaxLineBytes else maxLineBytes)) src []"

text \<open>What a loop that stops at the first error reads of a reader.\<close>

fun until_err :: "reader \<Rightarrow> reader" where
  "until_err [] = []"
| "until_err ((p, err) # rs) = (p, err) # (if err then [] else until_err rs)"

abbreviation data_of :: "reader \<Rightarrow> bytes" where
  "data_of rs \<equiv> concat (map fst rs)"

section \<open>Splitting: losslessness and the memory bound\<close>

text \<open>
  The documented split, stated apart from the code: a line is a text without a newline, and what it
  consumed of the input is the text with its terminator, a newline and the carriage return before it
  if there is one; a fragment is a newline-free run of exactly the cap, taken verbatim.
\<close>

definition terminated :: "bytes \<Rightarrow> bytes \<Rightarrow> bool" where
  "terminated p t \<longleftrightarrow>
    LF \<notin> set t \<and> (p = t @ [CR, LF] \<or> (p = t @ [LF] \<and> (t = [] \<or> last t \<noteq> CR)))"

definition full_piece :: "nat \<Rightarrow> bytes \<Rightarrow> bytes \<Rightarrow> bool" where
  "full_piece cap p t \<longleftrightarrow> terminated p t \<or> (p = t \<and> LF \<notin> set p \<and> length p = cap)"

text \<open>An input that does not end in a carriage return without its newline.\<close>

definition no_bare_CR :: "bytes \<Rightarrow> bool" where
  "no_bare_CR s \<longleftrightarrow> s = [] \<or> last s \<noteq> CR"

lemma drop_last_if_cases: "p = drop_last_if c p \<or> p = drop_last_if c p @ [c]"
  by (auto simp: drop_last_if_def)

lemma drop_last_if_notin: "c \<notin> set p \<Longrightarrow> drop_last_if c p = p"
  by (auto simp: drop_last_if_def)

lemma length_drop_last_if: "length (drop_last_if c p) \<le> length p"
  by (simp add: drop_last_if_def)

lemma length_trimLineEnd: "length (trimLineEnd p) \<le> length p"
  unfolding trimLineEnd_def by (meson length_drop_last_if order_trans)

lemma trimLineEnd_newline: "trimLineEnd (l @ [LF]) = drop_last_if CR l"
  by (simp add: trimLineEnd_def drop_last_if_def)

lemma trimLineEnd_terminated:
  assumes "LF \<notin> set l"
  shows "terminated (l @ [LF]) (trimLineEnd (l @ [LF]))"
  using assms unfolding trimLineEnd_newline
  by (cases l rule: rev_cases) (auto simp: terminated_def drop_last_if_def)

lemma trimLineEnd_verbatim: "LF \<notin> set r \<Longrightarrow> no_bare_CR r \<Longrightarrow> trimLineEnd r = r"
  by (cases r rule: rev_cases) (auto simp: no_bare_CR_def trimLineEnd_def drop_last_if_def)

lemma no_bare_CR_suffix: "no_bare_CR (s @ r) \<Longrightarrow> no_bare_CR r"
  by (auto simp: no_bare_CR_def)

lemma fragments_correct:
  "0 < cap \<Longrightarrow> fragments cap acc = (out, rest) \<Longrightarrow>
    concat out @ rest = acc \<and> (\<forall>t \<in> set out. length t = cap) \<and> length rest < cap"
proof (induction cap acc arbitrary: out rest rule: fragments.induct)
  case (1 cap acc)
  show ?case
  proof (cases "cap \<le> length acc")
    case True
    obtain out' rest' where r: "fragments cap (drop cap acc) = (out', rest')" by fastforce
    with 1 True have "concat out' @ rest' = drop cap acc"
        "\<forall>t \<in> set out'. length t = cap" "length rest' < cap" by auto
    moreover have "out = take cap acc # out'" "rest = rest'"
      using 1(3) 1(2) True r by (auto simp: fragments.simps [of cap acc])
    ultimately show ?thesis using True by auto
  next
    case False
    with 1(3) show ?thesis by (auto simp: fragments.simps [of cap acc])
  qed
qed

lemma drain_chunk_cases:
  obtains (empty) "chunk = []" "drain_chunk cap chunk acc = ([], acc)"
  | (newline) l rest where "chunk = l @ LF # rest" "LF \<notin> set l"
      "drain_chunk cap chunk acc =
        (case drain_chunk cap rest [] of (out, acc') \<Rightarrow> (trimLineEnd (acc @ l @ [LF]) # out, acc'))"
      "length rest < length chunk"
  | (run) "LF \<notin> set chunk" "drain_chunk cap chunk acc = fragments cap (acc @ chunk)"
proof (cases "LF \<in> set chunk")
  case True
  let ?l = "takeWhile (\<lambda>c. c \<noteq> LF) chunk" and ?r = "tl (dropWhile (\<lambda>c. c \<noteq> LF) chunk)"
  have "chunk = ?l @ LF # ?r" using True by (rule split_at_first)
  moreover have "LF \<notin> set ?l" by (rule takeWhile_not_in)
  moreover have "drain_chunk cap chunk acc =
      (case drain_chunk cap ?r [] of (out, acc') \<Rightarrow> (trimLineEnd (acc @ ?l @ [LF]) # out, acc'))"
    using True by (subst drain_chunk.simps) auto
  moreover have "length ?r < length chunk" using True by (rule length_tl_dropWhile_less)
  ultimately show thesis by (rule newline)
next
  case False
  have "drain_chunk cap chunk acc = (if chunk = [] then ([], acc) else fragments cap (acc @ chunk))"
    using False by (subst drain_chunk.simps) simp
  then show thesis using False empty run by (cases "chunk = []") simp_all
qed

lemma drain_chunk_correct:
  assumes "0 < cap" "LF \<notin> set acc" "length acc < cap" "drain_chunk cap chunk acc = (out, acc')"
  shows "(\<exists>ps. concat ps @ acc' = acc @ chunk \<and> list_all2 (full_piece cap) ps out)
    \<and> LF \<notin> set acc' \<and> length acc' < cap \<and> (\<forall>t \<in> set out. length t \<le> cap + length chunk)"
  using assms
proof (induction "length chunk" arbitrary: chunk acc out rule: less_induct)
  case less
  show ?case
  proof (cases rule: drain_chunk_cases [of chunk cap acc])
    case empty
    with less.prems show ?thesis by (auto intro!: exI [of _ "[]"])
  next
    case (newline l rest)
    obtain out1 where r: "drain_chunk cap rest [] = (out1, acc')"
      and out: "out = trimLineEnd (acc @ l @ [LF]) # out1"
      using newline less.prems by (cases "drain_chunk cap rest []") auto
    obtain ps where "concat ps @ acc' = rest" "list_all2 (full_piece cap) ps out1"
      and b: "LF \<notin> set acc'" "length acc' < cap" "\<forall>t \<in> set out1. length t \<le> cap + length rest"
      using less.hyps [OF newline(4) less.prems(1) _ _ r] less.prems(1) by auto
    moreover have "terminated ((acc @ l) @ [LF]) (trimLineEnd ((acc @ l) @ [LF]))"
      using newline(2) less.prems(2) by (intro trimLineEnd_terminated) simp
    ultimately have "concat ((acc @ l @ [LF]) # ps) @ acc' = acc @ chunk"
      "list_all2 (full_piece cap) ((acc @ l @ [LF]) # ps) out"
      using newline(1) out by (auto simp: full_piece_def)
    moreover have "\<forall>t \<in> set out. length t \<le> cap + length chunk"
      using b(3) out newline(1) less.prems(3) length_trimLineEnd [of "acc @ l @ [LF]"] by fastforce
    ultimately show ?thesis using b by blast
  next
    case run
    with less.prems have f: "fragments cap (acc @ chunk) = (out, acc')" by simp
    from fragments_correct [OF less.prems(1) f]
    have c: "concat out @ acc' = acc @ chunk" "\<forall>t \<in> set out. length t = cap" "length acc' < cap" by auto
    have "LF \<notin> set (concat out @ acc')" using c(1) run less.prems(2) by simp
    then have "list_all2 (full_piece cap) out out" "LF \<notin> set acc'"
      using c(2) by (auto simp: full_piece_def list.rel_refl_strong list_all2_same)
    with c show ?thesis by auto
  qed
qed

lemma drain_flush_length: "t \<in> set (drain_flush acc) \<Longrightarrow> length t \<le> length acc"
  by (auto simp: drain_flush_def length_trimLineEnd split: if_splits)

lemma drain_flush_verbatim:
  "LF \<notin> set r \<Longrightarrow> no_bare_CR r \<Longrightarrow> drain_flush r = (if r = [] then [] else [r])"
  by (simp add: drain_flush_def trimLineEnd_verbatim)

lemma drain_loop_correct:
  assumes "0 < cap" "LF \<notin> set acc" "length acc < cap" "\<forall>(p, e) \<in> set rs. length p \<le> b"
  shows "(\<exists>ps ts r. concat ps @ r = acc @ data_of (until_err rs) \<and> list_all2 (full_piece cap) ps ts
      \<and> LF \<notin> set r \<and> length r < cap \<and> drain_loop cap rs acc = ts @ drain_flush r)
    \<and> (\<forall>t \<in> set (drain_loop cap rs acc). length t \<le> cap + b)"
  using assms
proof (induction rs arbitrary: acc)
  case Nil
  then show ?case
    by (intro conjI exI [of _ "[]"] exI [of _ acc]) (auto dest!: drain_flush_length)
next
  case (Cons r rs)
  obtain chunk err where r: "r = (chunk, err)" by fastforce
  obtain out acc' where d: "drain_chunk cap chunk acc = (out, acc')" by fastforce
  from drain_chunk_correct [OF Cons.prems(1-3) d] obtain ps where
    ps: "concat ps @ acc' = acc @ chunk" "list_all2 (full_piece cap) ps out" and
    a: "LF \<notin> set acc'" "length acc' < cap" "\<forall>t \<in> set out. length t \<le> cap + length chunk" by auto
  have b: "length chunk \<le> b" using Cons.prems(4) r by auto
  define tail where "tail = (if err then drain_flush acc' else drain_loop cap rs acc')"
  have "\<exists>qs ts r. concat qs @ r = acc' @ (if err then [] else data_of (until_err rs))
      \<and> list_all2 (full_piece cap) qs ts \<and> LF \<notin> set r \<and> length r < cap \<and> tail = ts @ drain_flush r"
    and t: "\<forall>t \<in> set tail. length t \<le> cap + b"
  proof -
    show "\<forall>t \<in> set tail. length t \<le> cap + b"
      using Cons.IH [OF Cons.prems(1) a(1,2)] Cons.prems(4) a(2)
      by (auto simp: tail_def dest!: drain_flush_length)
    show "\<exists>qs ts r. concat qs @ r = acc' @ (if err then [] else data_of (until_err rs))
      \<and> list_all2 (full_piece cap) qs ts \<and> LF \<notin> set r \<and> length r < cap \<and> tail = ts @ drain_flush r"
    proof (cases err)
      case True
      with a show ?thesis
        by (intro exI [of _ "[]"] exI [of _ acc']) (simp add: tail_def)
    next
      case False
      then show ?thesis using Cons.IH [OF Cons.prems(1) a(1,2)] Cons.prems(4) by (simp add: tail_def)
    qed
  qed
  then obtain qs ts r' where q: "concat qs @ r' = acc' @ (if err then [] else data_of (until_err rs))"
    "list_all2 (full_piece cap) qs ts" "LF \<notin> set r'" "length r' < cap" "tail = ts @ drain_flush r'" by blast
  with ps have "concat (ps @ qs) @ r' = acc @ data_of (until_err (r # rs))"
    "list_all2 (full_piece cap) (ps @ qs) (out @ ts)"
    "drain_loop cap (r # rs) acc = (out @ ts) @ drain_flush r'"
    by (auto simp: r d tail_def [symmetric] list_all2_appendI)
  moreover have "\<forall>t \<in> set (drain_loop cap (r # rs) acc). length t \<le> cap + b"
    using t a(3) b by (auto simp: r d tail_def [symmetric])
  ultimately show ?case using q(3,4) by blast
qed

section \<open>Splitting: independence of the reads\<close>

text \<open>The reference: a text cut after each newline, with a last line that may lack its newline.\<close>

function raw_lines :: "bytes \<Rightarrow> bytes list" where
  "raw_lines s =
    (if s = [] then []
     else if LF \<in> set s then
       (takeWhile (\<lambda>c. c \<noteq> LF) s @ [LF]) # raw_lines (tl (dropWhile (\<lambda>c. c \<noteq> LF) s))
     else [s])"
  by pat_completeness auto
termination by (relation "measure length") (simp_all add: length_tl_dropWhile_less del: length_tl)

declare raw_lines.simps [simp del]

definition lines_below :: "nat \<Rightarrow> bytes \<Rightarrow> bool" where
  "lines_below cap s \<longleftrightarrow> list_all (\<lambda>l. length (filter (\<lambda>c. c \<noteq> LF) l) < cap) (raw_lines s)"

text \<open>
  The reference split of a whole output, a scan of its characters: a newline ends the current line,
  so does a carriage return with a newline after it, and what is left at the end is a last line.
\<close>

fun scan_lines :: "bytes \<Rightarrow> bytes \<Rightarrow> bytes list" where
  "scan_lines cur [] = (if cur = [] then [] else [cur])"
| "scan_lines cur [c] = (if c = LF then [cur] else [cur @ [c]])"
| "scan_lines cur (c # d # s) =
    (if c = LF then cur # scan_lines [] (d # s)
     else if c = CR \<and> d = LF then cur # scan_lines [] s
     else scan_lines (cur @ [c]) (d # s))"

definition split_lines :: "bytes \<Rightarrow> bytes list" where
  "split_lines = scan_lines []"

lemma takeWhile_LF: "LF \<notin> set l \<Longrightarrow> takeWhile (\<lambda>c. c \<noteq> LF) (l @ LF # rest) = l"
  by (induction l) auto

lemma dropWhile_LF: "LF \<notin> set l \<Longrightarrow> dropWhile (\<lambda>c. c \<noteq> LF) (l @ LF # rest) = LF # rest"
  by (induction l) auto

lemma raw_lines_newline: "LF \<notin> set l \<Longrightarrow> raw_lines (l @ LF # rest) = (l @ [LF]) # raw_lines rest"
  by (subst raw_lines.simps) (simp add: takeWhile_LF dropWhile_LF)

lemma raw_lines_run: "LF \<notin> set l \<Longrightarrow> raw_lines l = (if l = [] then [] else [l])"
  by (subst raw_lines.simps) simp

lemma scan_lines_newline:
  "LF \<notin> set l \<Longrightarrow> scan_lines cur (l @ LF # rest) =
    (if l \<noteq> [] \<and> last l = CR then cur @ butlast l else cur @ l) # scan_lines [] rest"
proof (induction l arbitrary: cur)
  case Nil
  then show ?case by (cases rest) auto
next
  case (Cons c l)
  then show ?case by (cases l) auto
qed

lemma scan_lines_run: "LF \<notin> set l \<Longrightarrow> scan_lines cur l = (if cur @ l = [] then [] else [cur @ l])"
  by (induction cur l rule: scan_lines.induct) auto

lemma split_lines_newline:
  "LF \<notin> set l \<Longrightarrow> split_lines (l @ LF # rest) = trimLineEnd (l @ [LF]) # split_lines rest"
  by (simp add: split_lines_def scan_lines_newline trimLineEnd_def drop_last_if_def)

lemma split_lines_run: "LF \<notin> set l \<Longrightarrow> split_lines l = (if l = [] then [] else [l])"
  by (simp add: split_lines_def scan_lines_run)

lemma filter_no_LF: "LF \<notin> set l \<Longrightarrow> filter (\<lambda>c. c \<noteq> LF) l = l"
  by (induction l) auto

lemma lines_below_run:
  assumes "0 < cap" "LF \<notin> set l" "lines_below cap (l @ rest)"
  shows "length l < cap"
proof (cases "l = []")
  case False
  show ?thesis
  proof (cases "LF \<in> set rest")
    case True
    from split_at_first [OF this] obtain m r where "rest = m @ LF # r" "LF \<notin> set m"
      using takeWhile_not_in [of LF rest] by blast
    with assms raw_lines_newline [of "l @ m" r] show ?thesis
      by (simp add: lines_below_def filter_no_LF)
  next
    case no: False
    with assms False raw_lines_run [of "l @ rest"] show ?thesis
      by (simp add: lines_below_def filter_no_LF)
  qed
qed (use assms in simp)

lemma fragments_below: "length acc < cap \<Longrightarrow> fragments cap acc = ([], acc)"
  by (simp add: fragments.simps)

lemma fragments_suffix: "fragments cap acc = (out, rest) \<Longrightarrow> \<exists>used. acc = used @ rest"
proof (induction cap acc arbitrary: out rule: fragments.induct)
  case (1 cap acc)
  show ?case
  proof (cases "0 < cap \<and> cap \<le> length acc")
    case True
    obtain out' rest' where r: "fragments cap (drop cap acc) = (out', rest')" by fastforce
    with 1(2) True have "rest' = rest" by (simp add: fragments.simps [of cap acc])
    with 1(1) [OF True] r obtain used where "drop cap acc = used @ rest" by blast
    then have "acc = (take cap acc @ used) @ rest" using append_take_drop_id [of cap acc] by simp
    then show ?thesis by blast
  next
    case False
    with 1(2) show ?thesis by (auto simp: fragments.simps [of cap acc])
  qed
qed

lemma drain_chunk_suffix: "drain_chunk cap chunk acc = (out, acc') \<Longrightarrow> \<exists>used. acc @ chunk = used @ acc'"
proof (induction "length chunk" arbitrary: chunk acc out rule: less_induct)
  case less
  show ?case
  proof (cases rule: drain_chunk_cases [of chunk cap acc])
    case (newline l rest)
    obtain out1 where r: "drain_chunk cap rest [] = (out1, acc')"
      using newline less.prems by (cases "drain_chunk cap rest []") auto
    from less.hyps [OF newline(4) r] obtain used where "rest = used @ acc'" by auto
    with newline(1) have "acc @ chunk = (acc @ l @ LF # used) @ acc'" by simp
    then show ?thesis by blast
  next
    case run
    with less.prems fragments_suffix [of cap "acc @ chunk" out acc'] show ?thesis by simp
  qed (use less.prems in auto)
qed

lemma drain_chunk_lines:
  assumes "0 < cap" "LF \<notin> set acc" "lines_below cap (acc @ chunk @ rest)"
    "drain_chunk cap chunk acc = (out, acc')"
  shows "split_lines (acc @ chunk @ rest) = out @ split_lines (acc' @ rest)
    \<and> LF \<notin> set acc' \<and> lines_below cap (acc' @ rest)"
  using assms
proof (induction "length chunk" arbitrary: chunk acc out rule: less_induct)
  case less
  show ?case
  proof (cases rule: drain_chunk_cases [of chunk cap acc])
    case empty
    with less.prems show ?thesis by simp
  next
    case (newline l more)
    obtain out1 where r: "drain_chunk cap more [] = (out1, acc')"
      and out: "out = trimLineEnd (acc @ l @ [LF]) # out1"
      using newline less.prems by (cases "drain_chunk cap more []") auto
    have split: "raw_lines (acc @ chunk @ rest) = (acc @ l @ [LF]) # raw_lines (more @ rest)"
      using raw_lines_newline [of "acc @ l" "more @ rest"] newline(1,2) less.prems(2) by simp
    then have "lines_below cap ([] @ more @ rest)" using less.prems(3) by (simp add: lines_below_def)
    from less.hyps [OF newline(4) less.prems(1) _ this r] out show ?thesis
      using split_lines_newline [of "acc @ l" "more @ rest"] newline(1,2) less.prems(2) by simp
  next
    case run
    then have "length (acc @ chunk) < cap"
      using lines_below_run [of cap "acc @ chunk" rest] less.prems by simp
    with run less.prems have "out = []" "acc' = acc @ chunk" by (simp_all add: fragments_below)
    with run less.prems show ?thesis by simp
  qed
qed

lemma drain_flush_lines: "LF \<notin> set acc \<Longrightarrow> no_bare_CR acc \<Longrightarrow> drain_flush acc = split_lines acc"
  by (simp add: drain_flush_verbatim split_lines_run)

lemma drain_loop_lines:
  assumes "0 < cap" "LF \<notin> set acc" "lines_below cap (acc @ data_of (until_err rs))"
    "no_bare_CR (acc @ data_of (until_err rs))"
  shows "drain_loop cap rs acc = split_lines (acc @ data_of (until_err rs))"
  using assms
proof (induction rs arbitrary: acc)
  case Nil
  then show ?case by (simp add: drain_flush_lines)
next
  case (Cons r rs)
  obtain chunk err where r: "r = (chunk, err)" by fastforce
  obtain out acc' where d: "drain_chunk cap chunk acc = (out, acc')" by fastforce
  define more where "more = (if err then [] else data_of (until_err rs))"
  have "data_of (until_err (r # rs)) = chunk @ more" by (simp add: r more_def)
  with Cons.prems have "lines_below cap (acc @ chunk @ more)" by simp
  note c = drain_chunk_lines [OF Cons.prems(1,2) this d]
  obtain used where "acc @ chunk @ more = used @ acc' @ more"
    using drain_chunk_suffix [OF d] by (metis append.assoc)
  then have "no_bare_CR (acc' @ more)"
    using Cons.prems(4) no_bare_CR_suffix \<open>data_of (until_err (r # rs)) = chunk @ more\<close> by metis
  with c Cons.IH [OF Cons.prems(1), of acc'] Cons.prems
  show ?case by (cases err) (auto simp: r d more_def drain_flush_lines)
qed

section \<open>One stream: tee, decoder and lines\<close>

text \<open>
  \<^verbatim>\<open>io.TeeReader\<close>: each non-empty read is written to the writer first, and a failed write is
  returned as the error of the read.
\<close>

fun teeReader :: "writer \<Rightarrow> bytes \<Rightarrow> reader \<Rightarrow> reader" where
  "teeReader w seen [] = []"
| "teeReader w seen ((p, err) # rs) =
    (if p = [] then (p, err) # teeReader w seen rs
     else case w seen p of
         Some n \<Rightarrow> [(take n p, True)]
       | None \<Rightarrow> (p, err) # teeReader w (seen @ p) rs)"

text \<open>What the writer has accepted after the reads of a list went through the tee.\<close>

fun tee_accepts :: "writer \<Rightarrow> bytes \<Rightarrow> reader \<Rightarrow> bytes" where
  "tee_accepts w seen [] = seen"
| "tee_accepts w seen ((p, err) # rs) =
    (if p = [] then tee_accepts w seen rs
     else case w seen p of
         Some n \<Rightarrow> seen @ take n p
       | None \<Rightarrow> tee_accepts w (seen @ p) rs)"

text \<open>\<^verbatim>\<open>io.Copy\<close>: what the writer has accepted, and the number of reads made before EOF or an error.\<close>

fun io_Copy :: "writer \<Rightarrow> bytes \<Rightarrow> reader \<Rightarrow> bytes \<times> nat" where
  "io_Copy w seen [] = (seen, 0)"
| "io_Copy w seen ((p, err) # rs) =
    (case (if p = [] then None else w seen p) of
       Some n \<Rightarrow> (seen @ take n p, 1)
     | None \<Rightarrow>
         (if err then (seen @ p, 1)
          else case io_Copy w (seen @ p) rs of (got, k) \<Rightarrow> (got, Suc k)))"

definition io_Discard :: writer where
  "io_Discard seen p = None"

text \<open>The effects of one drain: the texts emitted, what the tee got, the reads made of the pipe.\<close>

record drained =
  d_texts :: "bytes list"
  d_tee :: bytes
  d_reads :: nat

definition wantsLines :: "startConfig \<Rightarrow> nat option \<Rightarrow> bool" where
  "wantsLines c onLine \<longleftrightarrow> onLine \<noteq> None \<or> sc_streamLines c"

definition drainOne :: "startConfig \<Rightarrow> reader \<Rightarrow> writer option \<Rightarrow> nat option \<Rightarrow> drained" where
  "drainOne c pipe tee onLine =
    (if \<not> wantsLines c onLine then
       (case tee of
          Some w \<Rightarrow> (case io_Copy w [] pipe of (got, k) \<Rightarrow> \<lparr>d_texts = [], d_tee = got, d_reads = k\<rparr>)
        | None \<Rightarrow> \<lparr>d_texts = [], d_tee = [], d_reads = snd (io_Copy io_Discard [] pipe)\<rparr>)
     else
       (let src = (case tee of None \<Rightarrow> pipe | Some w \<Rightarrow> teeReader w [] pipe);
            (src', k) = (case sc_decoder c of None \<Rightarrow> (src, length (until_err src)) | Some d \<Rightarrow> d src)
        in \<lparr>d_texts = drainLines src' (sc_maxLineBytes c),
            d_tee = (case tee of None \<Rightarrow> [] | Some w \<Rightarrow> tee_accepts w [] (take k pipe)),
            d_reads = k\<rparr>))"

text \<open>
  \<^verbatim>\<open>preparePipes\<close> and \<^verbatim>\<open>launchDrains\<close>: a stream has a pipe, and a drain, exactly when something
  wants it.
\<close>

definition launchDrains :: "startConfig \<Rightarrow> reader \<Rightarrow> reader \<Rightarrow> drained option \<times> drained option" where
  "launchDrains c out err =
    (if wantsStdout c then Some (drainOne c out (sc_stdoutTee c) (sc_onStdout c)) else None,
     if wantsStderr c then Some (drainOne c err (sc_stderrTee c) (sc_onStderr c)) else None)"

text \<open>A writer that takes every write of what a reader delivers.\<close>

fun accepts_all :: "writer \<Rightarrow> bytes \<Rightarrow> reader \<Rightarrow> bool" where
  "accepts_all w seen [] = True"
| "accepts_all w seen ((p, err) # rs) =
    ((p = [] \<or> w seen p = None) \<and> accepts_all w (seen @ p) rs)"

lemma teeReader_transparent: "accepts_all w seen rs \<Longrightarrow> teeReader w seen rs = rs"
  by (induction rs arbitrary: seen) auto

lemma tee_accepts_all: "accepts_all w seen rs \<Longrightarrow> tee_accepts w seen rs = seen @ data_of rs"
  by (induction rs arbitrary: seen) auto

lemma accepts_all_until_err: "accepts_all w seen rs \<Longrightarrow> accepts_all w seen (until_err rs)"
  by (induction rs arbitrary: seen) auto

lemma io_Copy_all:
  "accepts_all w seen rs \<Longrightarrow>
    io_Copy w seen rs = (seen @ data_of (until_err rs), length (until_err rs))"
  by (induction rs arbitrary: seen) (auto split: option.splits)

lemma take_until_err: "take (length (until_err rs)) rs = until_err rs"
  by (induction rs) auto

lemma accepts_all_Discard: "accepts_all io_Discard seen rs"
  by (induction rs arbitrary: seen) (auto simp: io_Discard_def)

text \<open>A write refused after some reads ends the reads there, whatever the mode.\<close>

lemma tee_refusal:
  assumes "accepts_all w seen rs" "p \<noteq> []" "w (seen @ data_of rs) p = Some n" "\<forall>(q, e) \<in> set rs. \<not> e"
  shows "teeReader w seen (rs @ (p, e) # later) = rs @ [(take n p, True)]"
    and "io_Copy w seen (rs @ (p, e) # later) = (seen @ data_of rs @ take n p, Suc (length rs))"
  using assms by (induction rs arbitrary: seen) auto

lemma until_err_stop: "\<forall>(q, e) \<in> set rs. \<not> e \<Longrightarrow> until_err (rs @ [(p, True)]) = rs @ [(p, True)]"
  by (induction rs) auto

section \<open>Properties of the drain\<close>

text \<open>
  Claim C29. A drain loses no byte and needs bounded memory, however the stream is cut into reads.
  When what was read does not end in a carriage return that lacks its newline, the emitted texts are,
  in order, what consecutive pieces of it hold: each piece is a line with its terminator (a newline and
  the carriage return before it if there is one), of which the text is exactly the rest, or a
  newline-free fragment of exactly the cap taken verbatim; the remainder after the pieces holds no
  newline, is shorter than the cap and is the last text, verbatim, unless it is empty.  For every
  input no text is longer than the line cap plus one read.
\<close>

theorem drain_lossless_bounded:
  assumes "0 < maxLineBytes" "\<forall>(p, e) \<in> set src. length p \<le> readBufSize"
  shows "(no_bare_CR (data_of (until_err src)) \<longrightarrow>
      (\<exists>ps ts r. concat ps @ r = data_of (until_err src)
        \<and> list_all2 (full_piece (nat maxLineBytes)) ps ts
        \<and> LF \<notin> set r \<and> length r < nat maxLineBytes
        \<and> drainLines src maxLineBytes = ts @ (if r = [] then [] else [r])))
    \<and> (\<forall>t \<in> set (drainLines src maxLineBytes). int (length t) \<le> maxLineBytes + int readBufSize)"
proof -
  have d: "drainLines src maxLineBytes = drain_loop (nat maxLineBytes) src []"
    using assms(1) by (simp add: drainLines_def)
  from drain_loop_correct [of "nat maxLineBytes" "[]" src readBufSize] assms
  obtain ps ts r where p: "concat ps @ r = data_of (until_err src)"
    "list_all2 (full_piece (nat maxLineBytes)) ps ts" "LF \<notin> set r" "length r < nat maxLineBytes"
    "drainLines src maxLineBytes = ts @ drain_flush r"
    and b: "\<forall>t \<in> set (drainLines src maxLineBytes). length t \<le> nat maxLineBytes + readBufSize"
    unfolding d by auto
  have "drain_flush r = (if r = [] then [] else [r])" if "no_bare_CR (data_of (until_err src))"
    using that p(1,3) no_bare_CR_suffix [of "concat ps" r] by (simp add: drain_flush_verbatim)
  then have "no_bare_CR (data_of (until_err src)) \<longrightarrow>
      drainLines src maxLineBytes = ts @ (if r = [] then [] else [r])"
    using p(5) by simp
  moreover have "\<forall>t \<in> set (drainLines src maxLineBytes). int (length t) \<le> maxLineBytes + int readBufSize"
    using b assms(1) by (auto simp: nat_le_iff)
  ultimately show ?thesis using p(1-4) by (intro conjI impI exI [of _ ps] exI [of _ ts] exI [of _ r]) blast+
qed

theorem drain_lossless_bounded_witness:
  "\<exists>ps ts r. concat ps @ r = [CHR ''a'', CHR ''b'', CR, LF, CHR ''c''] \<and> list_all2 (full_piece 4) ps ts
    \<and> drainLines [([CHR ''a'', CHR ''b'', CR], False), ([LF, CHR ''c''], True)] 4
      = ts @ (if r = [] then [] else [r])"
proof -
  have "no_bare_CR [CHR ''a'', CHR ''b'', CR, LF, CHR ''c'']" by code_simp
  with drain_lossless_bounded [of 4 "[([CHR ''a'', CHR ''b'', CR], False), ([LF, CHR ''c''], True)]"]
  obtain ps ts r where "concat ps @ r = [CHR ''a'', CHR ''b'', CR, LF, CHR ''c'']" "list_all2 (full_piece 4) ps ts"
    "drainLines [([CHR ''a'', CHR ''b'', CR], False), ([LF, CHR ''c''], True)] 4 = ts @ (if r = [] then [] else [r])"
    by (auto simp: readBufSize_def)
  then show ?thesis by (intro exI conjI)
qed

text \<open>
  Claim C30. When every line of a stream is shorter than the cap and the stream does not end in a
  carriage return that lacks its newline, the texts emitted are exactly those of a scan of the whole
  output that ends a line at each newline and drops the newline and the carriage return before it,
  whatever the reads that delivered it: how the operating system chunks the pipe is not observable.
\<close>

theorem drain_equals_reference:
  assumes "0 < maxLineBytes" "lines_below (nat maxLineBytes) (data_of (until_err src))"
    "no_bare_CR (data_of (until_err src))"
  shows "drainLines src maxLineBytes = split_lines (data_of (until_err src))"
  using drain_loop_lines [of "nat maxLineBytes" "[]" src] assms by (simp add: drainLines_def)

theorem drain_equals_reference_witness:
  "drainLines [([CHR ''a'', LF, CHR ''b''], False), ([CHR ''c'', CR], False), ([LF], False)] 8
    = [''a'', ''bc'']"
proof -
  have "lines_below 8 [CHR ''a'', LF, CHR ''b'', CHR ''c'', CR, LF]"
    "no_bare_CR [CHR ''a'', LF, CHR ''b'', CHR ''c'', CR, LF]"
    "split_lines [CHR ''a'', LF, CHR ''b'', CHR ''c'', CR, LF] = [''a'', ''bc'']" by code_simp+
  then show ?thesis
    using drain_equals_reference [of 8 "[([CHR ''a'', LF, CHR ''b''], False), ([CHR ''c'', CR], False), ([LF], False)]"]
    by simp
qed

text \<open>
  While the tee takes every write, a drain without a decoder reads its pipe up to EOF or
  the first read error, and the tee has received exactly the bytes read, whether or not lines are
  wanted.
\<close>

theorem tee_verbatim:
  assumes "sc_decoder c = None" "accepts_all w [] pipe"
  shows "d_tee (drainOne c pipe (Some w) f) = data_of (until_err pipe)
    \<and> d_reads (drainOne c pipe (Some w) f) = length (until_err pipe)
    \<and> d_texts (drainOne c pipe (Some w) f) = d_texts (drainOne c pipe None f)"
  using assms
  by (simp add: drainOne_def io_Copy_all teeReader_transparent take_until_err tee_accepts_all
      accepts_all_until_err)

theorem tee_verbatim_witness:
  "d_tee (drainOne startConfig0 [(''ab'', False), (''c'', False)] (Some io_Discard) (Some 0)) = ''abc''"
  using tee_verbatim [of startConfig0 io_Discard "[(''ab'', False), (''c'', False)]" "Some 0"]
  by (simp add: io_Discard_def)

text \<open>
  A tee that refuses a write ends the drain of its stream at that read, in both modes:
  nothing of what the process writes afterwards is read from the pipe.
\<close>

theorem failed_tee_stops_drain:
  assumes "sc_decoder c = None" "accepts_all w [] rs" "\<forall>(q, e) \<in> set rs. \<not> e"
    "p \<noteq> []" "w (data_of rs) p = Some n"
  shows "d_reads (drainOne c (rs @ (p, e) # later) (Some w) f) = Suc (length rs)
    \<and> drainOne c (rs @ (p, e) # later) (Some w) f = drainOne c (rs @ [(p, e)]) (Some w) f"
  using assms tee_refusal [of w "[]" rs p n e later] tee_refusal [of w "[]" rs p n e "[]"]
    until_err_stop [of rs "take n p"]
  by (simp add: drainOne_def)

theorem failed_tee_stops_drain_witness:
  "d_reads (drainOne startConfig0 ([(''a'', False)] @ (''b'', False) # [(''c'', False), (''d'', False)])
     (Some (\<lambda>seen p. if seen = [] then None else Some 0)) (Some 0)) = 2"
  using conjunct1 [OF failed_tee_stops_drain [of startConfig0 "\<lambda>seen p. if seen = [] then None else Some 0"
      "[(''a'', False)]" "''b''" 0 False "[(''c'', False), (''d'', False)]" "Some 0"]]
  by simp

text \<open>
  The split is not the documented one at the cap: a line of exactly the cap is one text when
  its newline comes in the same read, but a fragment and an empty line when the newline comes in the
  next one, and then the carriage return of a CRLF stays in the fragment; and a carriage return that
  ends the stream is dropped though no newline follows it.
\<close>

theorem drain_boundary_cases:
  "drainLines [([CHR ''a'', CHR ''b'', LF], False)] 2 = [''ab'']
   \<and> drainLines [([CHR ''a'', CHR ''b''], False), ([LF], False)] 2 = [''ab'', []]
   \<and> drainLines [([CHR ''a'', CR], False), ([LF], False)] 2 = [[CHR ''a'', CR], []]
   \<and> drainLines [([CHR ''a'', CR], False)] 8 = [''a'']"
  by (intro conjI; code_simp)

end
