(* ===== verification/LineChannel.thy ===== *)
theory LineChannel
  imports Stream "HOL-Library.Multiset"
begin

text \<open>
  The merged line channel of a started process (\<^verbatim>\<open>lineSink.emit\<close> in \<^verbatim>\<open>stream.go\<close>, \<^verbatim>\<open>reap\<close>,
  \<^verbatim>\<open>DroppedLines\<close> and \<^verbatim>\<open>signalStop\<close> in \<^verbatim>\<open>running.go\<close>) as a step relation: each drain delivers its texts
  in order, first to the callback and then to the channel under the overflow policy, while the
  consumer receives, the start context is cancelled or the group is torn down.  The invariant
  accounts for every line; the progress lemma shows that teardown releases a blocked drain.
\<close>

section \<open>States and steps\<close>

text \<open>
  \<open>ch_todo\<close> are the texts a drain has still to emit, \<open>ch_pending\<close> the text whose callback has returned
  and whose send is outstanding.  \<open>ch_droplog\<close> and \<open>ch_lost\<close> are ghosts: the lines discarded by the
  policy, which the program only counts, and the lines released by cancellation or teardown.
\<close>

record chan =
  ch_todo :: "streamID \<Rightarrow> bytes list"
  ch_pending :: "streamID \<Rightarrow> bytes option"
  ch_calls :: "line list"
  ch_buf :: "line list"
  ch_got :: "line list"
  ch_dropped :: int
  ch_droplog :: "line list"
  ch_lost :: "line list"
  ch_cancelled :: bool
  ch_stopped :: bool
  ch_closed :: bool

definition chan_init :: "(streamID \<Rightarrow> bytes list) \<Rightarrow> chan" where
  "chan_init texts = \<lparr>ch_todo = texts, ch_pending = (\<lambda>_. None), ch_calls = [], ch_buf = [],
     ch_got = [], ch_dropped = 0, ch_droplog = [], ch_lost = [], ch_cancelled = False,
     ch_stopped = False, ch_closed = False\<rparr>"

abbreviation mk_line :: "streamID \<Rightarrow> bytes \<Rightarrow> line" where
  "mk_line sid t \<equiv> \<lparr>l_Stream = sid, l_Text = t\<rparr>"

definition two_streams :: "streamID list" where
  "two_streams = [StreamStdout, StreamStderr]"

definition drains_done :: "chan \<Rightarrow> bool" where
  "drains_done st \<longleftrightarrow> list_all (\<lambda>sid. ch_todo st sid = [] \<and> ch_pending st sid = None) two_streams"

text \<open>The steps of \<^verbatim>\<open>lineSink.emit\<close>: the callback, then one of the branches of the send.\<close>

inductive emit_step :: "overflowPolicy \<Rightarrow> nat \<Rightarrow> chan \<Rightarrow> chan \<Rightarrow> bool" for pol cap where
  callback: "sid \<in> set two_streams \<Longrightarrow> ch_pending st sid = None \<Longrightarrow> ch_todo st sid = t # ts \<Longrightarrow>
    emit_step pol cap st
      (st\<lparr>ch_todo := (ch_todo st)(sid := ts), ch_pending := (ch_pending st)(sid := Some t),
          ch_calls := ch_calls st @ [mk_line sid t]\<rparr>)"
| send: "sid \<in> set two_streams \<Longrightarrow> ch_pending st sid = Some t \<Longrightarrow> length (ch_buf st) < cap \<Longrightarrow>
    emit_step pol cap st
      (st\<lparr>ch_pending := (ch_pending st)(sid := None), ch_buf := ch_buf st @ [mk_line sid t]\<rparr>)"
| drop: "pol = OverflowDropNewest \<Longrightarrow> sid \<in> set two_streams \<Longrightarrow> ch_pending st sid = Some t \<Longrightarrow>
    \<not> length (ch_buf st) < cap \<Longrightarrow>
    emit_step pol cap st
      (st\<lparr>ch_pending := (ch_pending st)(sid := None), ch_dropped := ch_dropped st + 1,
          ch_droplog := ch_droplog st @ [mk_line sid t]\<rparr>)"
| release: "pol \<noteq> OverflowDropNewest \<Longrightarrow> sid \<in> set two_streams \<Longrightarrow> ch_pending st sid = Some t \<Longrightarrow>
    ch_cancelled st \<or> ch_stopped st \<Longrightarrow>
    emit_step pol cap st
      (st\<lparr>ch_pending := (ch_pending st)(sid := None), ch_lost := ch_lost st @ [mk_line sid t]\<rparr>)"

text \<open>
  The whole system: a drain step, a receive, cancellation of the start context, teardown
  (\<^verbatim>\<open>signalStop\<close>), and the close of the channel by \<^verbatim>\<open>reap\<close> once both drains are done.
\<close>

inductive chan_step :: "overflowPolicy \<Rightarrow> nat \<Rightarrow> chan \<Rightarrow> chan \<Rightarrow> bool" for pol cap where
  drain: "emit_step pol cap st st' \<Longrightarrow> chan_step pol cap st st'"
| receive: "ch_buf st = l # ls \<Longrightarrow>
    chan_step pol cap st (st\<lparr>ch_buf := ls, ch_got := ch_got st @ [l]\<rparr>)"
| cancel: "chan_step pol cap st (st\<lparr>ch_cancelled := True\<rparr>)"
| signalStop: "chan_step pol cap st (st\<lparr>ch_stopped := True\<rparr>)"
| close: "drains_done st \<Longrightarrow> chan_step pol cap st (st\<lparr>ch_closed := True\<rparr>)"

definition chan_reach :: "overflowPolicy \<Rightarrow> nat \<Rightarrow> (streamID \<Rightarrow> bytes list) \<Rightarrow> chan \<Rightarrow> bool" where
  "chan_reach pol cap texts = (chan_step pol cap)\<^sup>*\<^sup>* (chan_init texts)"

inductive_cases emit_stepE: "emit_step pol cap st st'"
inductive_cases chan_stepE: "chan_step pol cap st st'"

section \<open>Accounting\<close>

definition texts_of :: "streamID \<Rightarrow> line list \<Rightarrow> bytes list" where
  "texts_of sid ls = map l_Text (filter (\<lambda>l. l_Stream l = sid) ls)"

definition pending_list :: "chan \<Rightarrow> streamID \<Rightarrow> bytes list" where
  "pending_list st sid = (case ch_pending st sid of None \<Rightarrow> [] | Some t \<Rightarrow> [t])"

text \<open>What of a stream has been delivered or is on its way, in order.\<close>

definition in_flight :: "chan \<Rightarrow> streamID \<Rightarrow> bytes list" where
  "in_flight st sid =
    texts_of sid (ch_got st) @ texts_of sid (ch_buf st) @ pending_list st sid @ ch_todo st sid"

definition accounted :: "(streamID \<Rightarrow> bytes list) \<Rightarrow> chan \<Rightarrow> streamID \<Rightarrow> bool" where
  "accounted texts st sid \<longleftrightarrow>
    subseq (in_flight st sid) (texts sid)
    \<and> mset (in_flight st sid) + mset (texts_of sid (ch_droplog st)) + mset (texts_of sid (ch_lost st))
        = mset (texts sid)
    \<and> texts_of sid (ch_calls st) @ ch_todo st sid = texts sid"

definition chan_inv :: "overflowPolicy \<Rightarrow> nat \<Rightarrow> (streamID \<Rightarrow> bytes list) \<Rightarrow> chan \<Rightarrow> bool" where
  "chan_inv pol cap texts st \<longleftrightarrow>
    length (ch_buf st) \<le> cap
    \<and> ch_dropped st = int (length (ch_droplog st))
    \<and> (pol = OverflowBlock \<longrightarrow> ch_droplog st = [])
    \<and> (pol = OverflowDropNewest \<or> (\<not> ch_cancelled st \<and> \<not> ch_stopped st) \<longrightarrow> ch_lost st = [])
    \<and> (ch_closed st \<longrightarrow> drains_done st)
    \<and> (\<forall>sid. accounted texts st sid)"

lemma texts_of_simps [simp]:
  "texts_of sid [] = []"
  "texts_of sid (ls @ ls') = texts_of sid ls @ texts_of sid ls'"
  "texts_of sid (l # ls) = (if l_Stream l = sid then [l_Text l] else []) @ texts_of sid ls"
  by (simp_all add: texts_of_def)

lemma subseq_drop_middle: "subseq (xs @ ys @ y # zs) ws \<Longrightarrow> subseq (xs @ ys @ zs) ws"
proof -
  have "subseq (xs @ ys @ zs) (xs @ ys @ y # zs)"
    by (simp only: subseq_append' list_emb_Cons subseq_order.order_refl)
  then show "subseq (xs @ ys @ y # zs) ws \<Longrightarrow> subseq (xs @ ys @ zs) ws" by (rule subseq_order.trans)
qed

lemma chan_inv_init: "chan_inv pol cap texts (chan_init texts)"
  by (simp add: chan_inv_def chan_init_def accounted_def in_flight_def pending_list_def)

lemma accounted_emit:
  assumes "emit_step pol cap st st'" "accounted texts st sid"
  shows "accounted texts st' sid"
  using assms
  by (cases rule: emit_step.cases)
    (auto simp: accounted_def in_flight_def pending_list_def ac_simps dest: subseq_drop_middle
      split: if_splits)

lemma chan_inv_emit:
  assumes "emit_step pol cap st st'" "chan_inv pol cap texts st"
  shows "chan_inv pol cap texts st'"
proof -
  have "\<forall>sid. accounted texts st' sid"
    using assms accounted_emit by (auto simp: chan_inv_def)
  with assms show ?thesis
    by (cases rule: emit_step.cases) (auto simp: chan_inv_def drains_done_def two_streams_def)
qed

lemma chan_inv_step:
  assumes "chan_step pol cap st st'" "chan_inv pol cap texts st"
  shows "chan_inv pol cap texts st'"
  using assms
proof cases
  case drain
  then show ?thesis using assms(2) by (rule chan_inv_emit)
next
  case (receive l ls)
  with assms(2) show ?thesis
    by (auto simp: chan_inv_def accounted_def in_flight_def pending_list_def drains_done_def)
qed (use assms(2) in \<open>auto simp: chan_inv_def accounted_def in_flight_def pending_list_def drains_done_def\<close>)

lemma chan_inv_reach: "chan_reach pol cap texts st \<Longrightarrow> chan_inv pol cap texts st"
  unfolding chan_reach_def
  by (induction rule: rtranclp_induct) (auto intro: chan_inv_init chan_inv_step)

text \<open>A step loses a line only when a release was requested, and drops one only into a full channel.\<close>

lemma loss_step:
  assumes "chan_step pol cap st st'"
  shows "(ch_lost st' = ch_lost st \<or> ch_cancelled st \<or> ch_stopped st)
    \<and> (ch_droplog st' = ch_droplog st \<or> \<not> length (ch_buf st) < cap)"
  using assms by cases (auto elim!: emit_stepE)

section \<open>Progress\<close>

definition drain_work :: "chan \<Rightarrow> nat" where
  "drain_work st =
    sum_list (map (\<lambda>sid. 2 * length (ch_todo st sid) + length (pending_list st sid)) two_streams)"

lemma emit_step_work: "emit_step pol cap st st' \<Longrightarrow> drain_work st' < drain_work st"
  by (cases rule: emit_step.cases) (auto simp: drain_work_def two_streams_def pending_list_def)

lemma emit_steps_work: "(emit_step pol cap ^^ k) st st' \<Longrightarrow> k + drain_work st' \<le> drain_work st"
  by (induction k arbitrary: st') (fastforce dest!: emit_step_work)+

lemma emit_step_enabled:
  assumes "\<not> drains_done st" "pol = OverflowDropNewest \<or> ch_cancelled st \<or> ch_stopped st"
  shows "\<exists>st'. emit_step pol cap st st'"
proof -
  obtain sid where sid: "sid \<in> set two_streams" "ch_todo st sid \<noteq> [] \<or> ch_pending st sid \<noteq> None"
    using assms(1) by (auto simp: drains_done_def list_all_iff)
  show ?thesis
  proof (cases "ch_pending st sid")
    case None
    with sid obtain t ts where "ch_todo st sid = t # ts" by (cases "ch_todo st sid") auto
    with None sid show ?thesis by (blast intro: emit_step.callback)
  next
    case (Some t)
    with sid assms(2) show ?thesis
      by (cases "length (ch_buf st) < cap"; cases "pol = OverflowDropNewest")
        (blast intro: emit_step.send emit_step.drop emit_step.release)+
  qed
qed

lemma emit_steps_flags:
  "(emit_step pol cap ^^ k) st st' \<Longrightarrow>
    ch_cancelled st' = ch_cancelled st \<and> ch_stopped st' = ch_stopped st"
  by (induction k arbitrary: st') (auto elim!: emit_stepE)

section \<open>Composition with the drains\<close>

text \<open>The texts each drain of a start emits, from the reads of its pipe.\<close>

definition stream_texts :: "startConfig \<Rightarrow> reader \<Rightarrow> reader \<Rightarrow> streamID \<Rightarrow> bytes list" where
  "stream_texts c out err sid =
    (case sid of
       StreamStdout \<Rightarrow> (case fst (launchDrains c out err) of Some d \<Rightarrow> d_texts d | None \<Rightarrow> [])
     | StreamStderr \<Rightarrow> (case snd (launchDrains c out err) of Some d \<Rightarrow> d_texts d | None \<Rightarrow> [])
     | StreamUnnamed n \<Rightarrow> [])"

definition tee_accepting :: "writer option \<Rightarrow> reader \<Rightarrow> bool" where
  "tee_accepting tee pipe \<longleftrightarrow> (case tee of None \<Rightarrow> True | Some w \<Rightarrow> accepts_all w [] pipe)"

lemma drainOne_lines:
  assumes "sc_streamLines c" "sc_decoder c = None" "tee_accepting tee pipe" "0 < sc_maxLineBytes c"
    "lines_below (nat (sc_maxLineBytes c)) (data_of (until_err pipe))" "no_bare_CR (data_of (until_err pipe))"
  shows "d_texts (drainOne c pipe tee f) = split_lines (data_of (until_err pipe))"
proof -
  have "d_texts (drainOne c pipe tee f) = drainLines pipe (sc_maxLineBytes c)"
    using assms(1-3)
    by (auto simp: drainOne_def wantsLines_def tee_accepting_def teeReader_transparent split: option.splits)
  then show ?thesis using drain_loop_lines [of "nat (sc_maxLineBytes c)" "[]" pipe] assms(4-6)
    by (simp add: drainLines_def)
qed

lemma stream_texts_lines:
  assumes "sc_streamLines c" "sc_decoder c = None" "0 < sc_maxLineBytes c"
    "tee_accepting (sc_stdoutTee c) out" "tee_accepting (sc_stderrTee c) err"
    "lines_below (nat (sc_maxLineBytes c)) (data_of (until_err out))"
    "lines_below (nat (sc_maxLineBytes c)) (data_of (until_err err))"
    "no_bare_CR (data_of (until_err out))" "no_bare_CR (data_of (until_err err))"
  shows "stream_texts c out err StreamStdout = split_lines (data_of (until_err out))"
    and "stream_texts c out err StreamStderr = split_lines (data_of (until_err err))"
  using assms by (simp_all add: stream_texts_def launchDrains_def wantsStdout_def wantsStderr_def drainOne_lines)

lemma block_in_flight:
  assumes "chan_inv OverflowBlock cap texts st" "\<not> ch_cancelled st" "\<not> ch_stopped st"
  shows "in_flight st sid = texts sid"
proof -
  from assms have a: "subseq (in_flight st sid) (texts sid)"
    "mset (in_flight st sid) = mset (texts sid)"
    by (auto simp: chan_inv_def accounted_def)
  then have "length (in_flight st sid) = length (texts sid)" by (metis size_mset)
  with a(1) show ?thesis by (metis subseq_same_length)
qed

lemma closed_in_flight:
  assumes "chan_inv pol cap texts st" "ch_closed st" "sid \<in> set two_streams"
  shows "in_flight st sid = texts_of sid (ch_got st) @ texts_of sid (ch_buf st)"
    and "texts_of sid (ch_calls st) = texts sid"
proof -
  from assms have d: "ch_todo st sid = []" "ch_pending st sid = None"
    by (auto simp: chan_inv_def drains_done_def list_all_iff)
  then show "in_flight st sid = texts_of sid (ch_got st) @ texts_of sid (ch_buf st)"
    by (simp add: in_flight_def pending_list_def)
  from assms(1) have "accounted texts st sid" by (simp add: chan_inv_def)
  with d show "texts_of sid (ch_calls st) = texts sid" by (simp add: accounted_def)
qed

text \<open>A run in which one line passes through the channel, used to exhibit reachable states.\<close>

lemma one_line_run:
  assumes "0 < cap" "texts StreamStdout = [t]" "texts StreamStderr = []"
  shows "\<exists>st. chan_reach pol cap texts st \<and> ch_closed st \<and> ch_buf st = [] \<and> \<not> ch_cancelled st
    \<and> \<not> ch_stopped st \<and> ch_got st = [mk_line StreamStdout t]"
proof -
  let ?s0 = "chan_init texts"
  let ?s1 = "?s0\<lparr>ch_todo := (ch_todo ?s0)(StreamStdout := []),
    ch_pending := (ch_pending ?s0)(StreamStdout := Some t), ch_calls := ch_calls ?s0 @ [mk_line StreamStdout t]\<rparr>"
  let ?s2 = "?s1\<lparr>ch_pending := (ch_pending ?s1)(StreamStdout := None),
    ch_buf := ch_buf ?s1 @ [mk_line StreamStdout t]\<rparr>"
  let ?s3 = "?s2\<lparr>ch_buf := [], ch_got := ch_got ?s2 @ [mk_line StreamStdout t]\<rparr>"
  let ?s4 = "?s3\<lparr>ch_closed := True\<rparr>"
  have "chan_step pol cap ?s0 ?s1"
    by (intro chan_step.drain emit_step.callback) (auto simp: two_streams_def chan_init_def assms)
  moreover have "chan_step pol cap ?s1 ?s2"
    by (intro chan_step.drain emit_step.send) (auto simp: two_streams_def chan_init_def assms)
  moreover have "chan_step pol cap ?s2 ?s3"
    by (intro chan_step.receive) (auto simp: chan_init_def)
  moreover have "chan_step pol cap ?s3 ?s4"
    by (intro chan_step.close) (auto simp: two_streams_def chan_init_def drains_done_def assms)
  ultimately have "chan_reach pol cap texts ?s4"
    unfolding chan_reach_def by (meson rtranclp.rtrancl_into_rtrancl rtranclp.rtrancl_refl)
  then show ?thesis by (intro exI [of _ ?s4]) (simp add: chan_init_def)
qed

section \<open>Properties\<close>

text \<open>
  Claim C26. In every reachable state of the merged channel each line a drain emits goes to the
  callback in order and is delivered at most once and in order, and is accounted for: received,
  buffered, still to be sent, counted by the drop policy, or released.  A line is released only under
  \<^verbatim>\<open>OverflowBlock\<close> and only once the start context is cancelled or the group torn down; it is dropped
  only under \<^verbatim>\<open>OverflowDropNewest\<close> and only when the channel is full.  The buffer never exceeds its
  capacity and the counter is the number of dropped lines, 0 under \<^verbatim>\<open>OverflowBlock\<close>.
\<close>

theorem lines_accounted:
  assumes "chan_reach pol cap texts st"
  shows "texts_of sid (ch_calls st) @ ch_todo st sid = texts sid
    \<and> subseq (texts_of sid (ch_got st)) (texts sid)
    \<and> mset (texts_of sid (ch_got st)) + mset (texts_of sid (ch_buf st)) + mset (pending_list st sid)
        + mset (ch_todo st sid) + mset (texts_of sid (ch_droplog st)) + mset (texts_of sid (ch_lost st))
      = mset (texts sid)
    \<and> (ch_lost st = [] \<or> (pol = OverflowBlock \<and> (ch_cancelled st \<or> ch_stopped st)))
    \<and> (ch_droplog st = [] \<or> pol = OverflowDropNewest)
    \<and> length (ch_buf st) \<le> cap
    \<and> ch_dropped st = int (length (ch_droplog st))
    \<and> (pol = OverflowBlock \<longrightarrow> ch_dropped st = 0)
    \<and> (\<forall>st'. chan_step pol cap st st' \<longrightarrow>
        (ch_lost st' = ch_lost st \<or> ch_cancelled st \<or> ch_stopped st)
        \<and> (ch_droplog st' = ch_droplog st \<or> length (ch_buf st) = cap))"
proof -
  from chan_inv_reach [OF assms] have i: "chan_inv pol cap texts st" .
  then have "subseq (in_flight st sid) (texts sid)" by (auto simp: chan_inv_def accounted_def)
  then have "subseq (texts_of sid (ch_got st)) (texts sid)"
    unfolding in_flight_def by (metis list_emb_append2 subseq_order.order_refl subseq_order.trans prefix_imp_subseq prefixI)
  moreover have "(ch_lost st' = ch_lost st \<or> ch_cancelled st \<or> ch_stopped st)
      \<and> (ch_droplog st' = ch_droplog st \<or> length (ch_buf st) = cap)" if "chan_step pol cap st st'" for st'
    using loss_step [OF that] i by (auto simp: chan_inv_def)
  moreover have "ch_lost st = [] \<or> (pol = OverflowBlock \<and> (ch_cancelled st \<or> ch_stopped st))"
    "ch_droplog st = [] \<or> pol = OverflowDropNewest"
    using i by (cases pol; auto simp: chan_inv_def)+
  ultimately show ?thesis using i by (auto simp: chan_inv_def accounted_def in_flight_def ac_simps)
qed

theorem lines_accounted_witness:
  "\<exists>st :: chan. ch_got st = [mk_line StreamStdout ''a''] \<and> ch_dropped st = 0
    \<and> subseq (texts_of StreamStdout (ch_got st)) [''a'']"
proof -
  let ?texts = "(\<lambda>_. [])(StreamStdout := [''a''])"
  obtain st where "chan_reach OverflowBlock 1 ?texts st" "ch_got st = [mk_line StreamStdout ''a'']"
    using one_line_run [of 1 ?texts "''a''" OverflowBlock] by auto
  with lines_accounted [of OverflowBlock 1 ?texts st StreamStdout] show ?thesis
    by - (rule exI [of _ st], auto)
qed



text \<open>
  Claim C28. Teardown releases a drain: once the start context is cancelled or the group is torn down
  (or under the drop policy at any time), the drains alone, without a consumer, can always take a
  further step until both are done, and take at most two steps for each remaining text.
\<close>

theorem teardown_releases_drain:
  assumes "pol = OverflowDropNewest \<or> ch_cancelled st \<or> ch_stopped st" "(emit_step pol cap ^^ k) st st'"
  shows "k \<le> drain_work st \<and> (drains_done st' \<or> (\<exists>st''. emit_step pol cap st' st''))"
  using emit_steps_work [OF assms(2)] emit_steps_flags [OF assms(2)] emit_step_enabled [of st' pol cap] assms(1)
  by auto

theorem teardown_releases_drain_witness:
  "\<exists>st''. emit_step OverflowBlock 0 ((chan_init (\<lambda>_. [''a'']))\<lparr>ch_stopped := True\<rparr>) st''"
  using teardown_releases_drain [of OverflowBlock "(chan_init (\<lambda>_. [''a'']))\<lparr>ch_stopped := True\<rparr>" 0 0]
  by (simp add: drains_done_def two_streams_def chan_init_def)

end
