(* ===== verification/SysArith.thy ===== *)
theory SysArith
  imports GoText "HOL-Library.Word" "HOL-Library.Signed_Division"
begin

text \<open>
  The saturating arithmetic of \<^verbatim>\<open>internal/sys\<close> (\<^verbatim>\<open>sys.go\<close>, \<^verbatim>\<open>job_linux.go\<close>, \<^verbatim>\<open>job_windows.go\<close>,
  \<^verbatim>\<open>proc_windows.go\<close>) at its machine width: a \<^verbatim>\<open>uint64\<close> is a 64-bit word read by \<open>uint\<close>, an \<^verbatim>\<open>int64\<close>
  or a duration is a 64-bit word read by \<open>sint\<close>, and \<open>+\<close> and \<open>*\<close> wrap.  Each function is shown to
  be the exact operation clamped to the range of its type.
\<close>

type_synonym uint64 = "64 word"
type_synonym int64 = "64 word"

definition maxUint64 :: uint64 where
  "maxUint64 = 0xFFFFFFFFFFFFFFFF"

definition max_int64 :: int64 where
  "max_int64 = 0x7FFFFFFFFFFFFFFF"

text \<open>Comparison and division of \<^verbatim>\<open>int64\<close> values; division truncates.\<close>

definition s_less :: "int64 \<Rightarrow> int64 \<Rightarrow> bool" where
  "s_less a b \<longleftrightarrow> sint a < sint b"

definition s_div :: "int64 \<Rightarrow> int64 \<Rightarrow> int64" where
  "s_div a b = word_of_int (sint a sdiv sint b)"

definition saturatingMulU64 :: "uint64 \<Rightarrow> uint64 \<Rightarrow> uint64" where
  "saturatingMulU64 a b =
    (if a \<noteq> 0 \<and> b > maxUint64 div a then maxUint64 else a * b)"

definition nanosFromUnit :: "int64 \<Rightarrow> int64 \<Rightarrow> int64" where
  "nanosFromUnit count unit =
    (if \<not> s_less 0 unit then 0
     else if s_less count 0 \<or> s_less (s_div max_int64 unit) count then max_int64
     else count * unit)"

definition addDurationSat :: "int64 \<Rightarrow> int64 \<Rightarrow> int64" where
  "addDurationSat a b =
    (if s_less 0 b \<and> s_less (max_int64 - b) a then max_int64 else a + b)"

definition addU64Sat :: "uint64 \<Rightarrow> uint64 \<Rightarrow> uint64" where
  "addU64Sat a b = (if a > maxUint64 - b then maxUint64 else a + b)"

definition add100ns :: "int64 \<Rightarrow> int64 \<Rightarrow> int64" where
  "add100ns user kern =
    (let sum = user + kern
     in if s_less user 0 \<or> s_less kern 0 \<or> s_less sum 0 then max_int64
        else nanosFromUnit sum 100)"

text \<open>A FILETIME is two 32-bit words.\<close>

definition filetimeTo100ns :: "32 word \<Rightarrow> 32 word \<Rightarrow> int64" where
  "filetimeTo100ns high low = or (push_bit 32 (ucast high)) (ucast low)"

lemma uint_maxUint64 [simp]: "uint maxUint64 = 2 ^ 64 - 1"
  by (simp add: maxUint64_def)

lemma sint_max_int64 [simp]: "sint max_int64 = 2 ^ 63 - 1"
  by (simp add: max_int64_def)

lemma uint_range64 [simp]: "0 \<le> uint (w :: 64 word)" "uint (w :: 64 word) < 2 ^ 64"
  using uint_lt2p [of w] by simp_all

lemma sint_range64: "- (2 ^ 63) \<le> sint (w :: 64 word)" "sint (w :: 64 word) \<le> 2 ^ 63 - 1"
  using sint_ge [of w] sint_lt [of w] by simp_all

lemma sint_word_of_int64:
  "- (2 ^ 63) \<le> i \<Longrightarrow> i \<le> 2 ^ 63 - 1 \<Longrightarrow> sint (word_of_int i :: 64 word) = i"
  by (simp add: signed_of_int signed_take_bit_int_eq_self)

lemma word_of_sint64: "word_of_int (sint (w :: 64 word)) = w"
  by simp

lemma sint_mult64:
  assumes "- (2 ^ 63) \<le> sint a * sint b" "sint a * sint b \<le> 2 ^ 63 - 1"
  shows "sint (a * b) = sint (a :: 64 word) * sint b"
proof -
  have "a * b = word_of_int (sint a * sint b)" by simp
  with assms show ?thesis by (metis sint_word_of_int64)
qed

lemma sint_add64:
  assumes "- (2 ^ 63) \<le> sint a + sint b" "sint a + sint b \<le> 2 ^ 63 - 1"
  shows "sint (a + b) = sint (a :: 64 word) + sint b"
proof -
  have "a + b = word_of_int (sint a + sint b)" by simp
  with assms show ?thesis by (metis sint_word_of_int64)
qed

lemma sint_diff64:
  assumes "- (2 ^ 63) \<le> sint a - sint b" "sint a - sint b \<le> 2 ^ 63 - 1"
  shows "sint (a - b) = sint (a :: 64 word) - sint b"
proof -
  have "a - b = word_of_int (sint a - sint b)" by simp
  with assms show ?thesis by (metis sint_word_of_int64)
qed

lemma int_div_less_iff:
  assumes "0 < (a :: int)"
  shows "m div a < b \<longleftrightarrow> m < b * a"
proof
  assume "m div a < b"
  then have "m div a + 1 \<le> b" by simp
  then have "(m div a + 1) * a \<le> b * a" using assms by (simp add: mult_right_mono)
  moreover have "m = m div a * a + m mod a" by simp
  moreover have "m mod a < a" using assms by simp
  ultimately show "m < b * a" by (simp only: distrib_right)
next
  assume m: "m < b * a"
  show "m div a < b"
  proof (rule ccontr)
    assume "\<not> m div a < b"
    then have "b * a \<le> m div a * a" using assms by (simp add: mult_right_mono)
    moreover have "m = m div a * a + m mod a" by simp
    moreover have "0 \<le> m mod a" using assms by simp
    ultimately show False using m by linarith
  qed
qed

lemma int_div_le_self: "0 \<le> (m :: int) \<Longrightarrow> 0 < a \<Longrightarrow> m div a \<le> m"
  using zdiv_mono2 [of m 1 a] by simp

lemma uint_saturatingMulU64: "uint (saturatingMulU64 a b) = min (uint a * uint b) (2 ^ 64 - 1)"
proof (cases "a = 0")
  case True
  then show ?thesis by (simp add: saturatingMulU64_def)
next
  case False
  then have a: "0 < uint a" by (metis uint_0_iff uint_ge_0 order_le_less)
  have d: "uint (maxUint64 div a) = (2 ^ 64 - 1) div uint a" by (simp add: uint_div_distrib)
  have c: "maxUint64 div a < b \<longleftrightarrow> 2 ^ 64 - 1 < uint a * uint b"
  proof -
    have "maxUint64 div a < b \<longleftrightarrow> (2 ^ 64 - 1) div uint a < uint b"
      by (simp add: word_less_def d)
    also have "\<dots> \<longleftrightarrow> 2 ^ 64 - 1 < uint b * uint a" using a by (rule int_div_less_iff)
    finally show ?thesis by (simp add: mult.commute)
  qed
  show ?thesis
  proof (cases "maxUint64 div a < b")
    case True
    then show ?thesis using c False by (simp add: saturatingMulU64_def)
  next
    case not: False
    then have le: "uint a * uint b \<le> 2 ^ 64 - 1" using c by simp
    then have "uint (a * b) = uint a * uint b" by (simp add: uint_word_ariths mod_pos_pos_trivial)
    then show ?thesis using le not False by (simp add: saturatingMulU64_def)
  qed
qed

lemma uint_addU64Sat: "uint (addU64Sat a b) = min (uint a + uint b) (2 ^ 64 - 1)"
proof -
  have d: "uint (maxUint64 - b) = 2 ^ 64 - 1 - uint b"
    using uint_range64 [of b] by (simp add: uint_sub_if')
  show ?thesis
  proof (cases "maxUint64 - b < a")
    case True
    then show ?thesis by (simp add: addU64Sat_def word_less_def d)
  next
    case False
    then have le: "uint a + uint b \<le> 2 ^ 64 - 1" by (simp add: word_less_def d)
    then have "uint (a + b) = uint a + uint b" by (simp add: uint_word_ariths mod_pos_pos_trivial)
    with False le show ?thesis by (simp add: addU64Sat_def)
  qed
qed

lemma sint_nanosFromUnit:
  "sint (nanosFromUnit c u) =
    (if sint u \<le> 0 then 0 else if sint c < 0 then 2 ^ 63 - 1 else min (sint c * sint u) (2 ^ 63 - 1))"
proof (cases "0 < sint u \<and> 0 \<le> sint c")
  case False
  then show ?thesis by (auto simp: nanosFromUnit_def s_less_def)
next
  case True
  have "(2 ^ 63 - 1) sdiv sint u = (2 ^ 63 - 1) div sint u"
    using True by (simp add: signed_divide_int_def)
  moreover have "0 \<le> (2 ^ 63 - 1) div sint u" using True by (simp add: pos_imp_zdiv_nonneg_iff)
  moreover have "(2 ^ 63 - 1) div sint u \<le> 2 ^ 63 - 1" using True by (intro int_div_le_self) auto
  ultimately have d: "sint (s_div max_int64 u) = (2 ^ 63 - 1) div sint u"
    unfolding s_div_def sint_max_int64 by (subst sint_word_of_int64) auto
  have c: "(2 ^ 63 - 1) div sint u < sint c \<longleftrightarrow> 2 ^ 63 - 1 < sint c * sint u"
    using True by (intro int_div_less_iff) simp
  show ?thesis
  proof (cases "2 ^ 63 - 1 < sint c * sint u")
    case b: True
    then show ?thesis using True c by (simp add: nanosFromUnit_def s_less_def d)
  next
    case b: False
    have "0 \<le> sint c * sint u" using True by simp
    with b have "sint (c * u) = sint c * sint u" by (intro sint_mult64) auto
    then show ?thesis using True b c by (simp add: nanosFromUnit_def s_less_def d)
  qed
qed

lemma sint_addDurationSat:
  assumes "0 \<le> sint a" "0 \<le> sint b"
  shows "sint (addDurationSat a b) = min (sint a + sint b) (2 ^ 63 - 1)"
proof -
  have d: "sint (max_int64 - b) = 2 ^ 63 - 1 - sint b"
    using assms sint_range64 [of b] by (subst sint_diff64) auto
  show ?thesis
  proof (cases "sint a + sint b \<le> 2 ^ 63 - 1")
    case True
    moreover have "- (2 ^ 63) \<le> sint a + sint b" using assms by simp
    ultimately have "sint (a + b) = sint a + sint b" by (intro sint_add64)
    with True assms show ?thesis by (auto simp: addDurationSat_def s_less_def d)
  next
    case False
    with sint_range64 [of a] assms show ?thesis by (auto simp: addDurationSat_def s_less_def d)
  qed
qed

lemma sint_add_overflow:
  fixes a b :: int64
  assumes "0 \<le> sint a" "0 \<le> sint b"
  shows "sint (a + b) < 0 \<longleftrightarrow> 2 ^ 63 - 1 < sint a + sint b"
proof (cases "sint a + sint b \<le> 2 ^ 63 - 1")
  case True
  moreover have "- (2 ^ 63) \<le> sint a + sint b" using assms by simp
  ultimately have "sint (a + b) = sint a + sint b" by (intro sint_add64)
  with True assms show ?thesis by auto
next
  case False
  have "a + b = word_of_int (sint a + sint b - 2 ^ 64)"
  proof -
    have "(word_of_int (2 ^ 64) :: 64 word) = 0" by simp
    then show ?thesis by (simp only: wi_hom_sub [symmetric] wi_hom_add [symmetric] word_of_sint64) simp
  qed
  then have "sint (a + b) = sint a + sint b - 2 ^ 64"
    using False sint_range64 [of a] sint_range64 [of b] by (simp only:) (subst sint_word_of_int64, auto)
  then show ?thesis using False sint_range64 [of a] sint_range64 [of b] by auto
qed

lemma sint_add100ns:
  assumes "0 \<le> sint u" "0 \<le> sint k"
  shows "sint (add100ns u k) = min ((sint u + sint k) * 100) (2 ^ 63 - 1)"
proof (cases "sint u + sint k \<le> 2 ^ 63 - 1")
  case True
  moreover have "- (2 ^ 63) \<le> sint u + sint k" using assms by simp
  ultimately have "sint (u + k) = sint u + sint k" by (intro sint_add64)
  with True assms show ?thesis by (simp add: add100ns_def Let_def s_less_def sint_nanosFromUnit)
next
  case False
  with sint_add_overflow [OF assms] assms show ?thesis by (simp add: add100ns_def Let_def s_less_def)
qed

lemma uint_filetimeTo100ns: "uint (filetimeTo100ns h l) = uint h * 2 ^ 32 + uint l"
proof -
  have u: "uint (push_bit 32 (ucast h :: 64 word)) = uint h * 2 ^ 32"
    using uint_lt2p [of h]
    by (simp only: unsigned_push_bit_eq unsigned_ucast_eq)
      (simp add: push_bit_eq_mult take_bit_int_eq_self)
  have "uint (filetimeTo100ns h l) = or (uint h * 2 ^ 32) (uint l)"
    using uint_lt2p [of l] by (simp add: filetimeTo100ns_def unsigned_or_eq u unsigned_ucast_eq take_bit_int_eq_self)
  also have "\<dots> = uint h * 2 ^ 32 + uint l"
  proof (rule disjunctive_add_eq_or [symmetric])
    show "and (uint h * 2 ^ 32) (uint l) = 0"
    proof -
      have "uint l = take_bit 32 (uint l)" using uint_lt2p [of l] by (simp add: take_bit_int_eq_self)
      moreover have "and (push_bit 32 (uint h)) (take_bit 32 (uint l)) = 0"
        by (rule bit_eqI) (simp add: bit_simps)
      ultimately show ?thesis by (simp add: push_bit_eq_mult)
    qed
  qed
  finally show ?thesis .
qed

section \<open>Properties\<close>

text \<open>
  Claim C37. The saturating helpers compute the exact result clamped to the range of their type, and
  never a wrapped one: the unsigned product and sum, the conversion of a counter to nanoseconds (a
  negative, wrapped counter saturates), the sum of two durations and of two 100-ns counters.
\<close>

theorem saturating_arithmetic:
  "uint (saturatingMulU64 a b) = min (uint a * uint b) (2 ^ 64 - 1)
   \<and> uint (addU64Sat a b) = min (uint a + uint b) (2 ^ 64 - 1)
   \<and> sint (nanosFromUnit c u) =
       (if sint u \<le> 0 then 0 else if sint c < 0 then 2 ^ 63 - 1 else min (sint c * sint u) (2 ^ 63 - 1))
   \<and> uint (filetimeTo100ns h l) = uint h * 2 ^ 32 + uint l
   \<and> (0 \<le> sint x \<and> 0 \<le> sint y \<longrightarrow>
        sint (addDurationSat x y) = min (sint x + sint y) (2 ^ 63 - 1)
        \<and> sint (add100ns x y) = min ((sint x + sint y) * 100) (2 ^ 63 - 1))"
  by (simp add: uint_saturatingMulU64 uint_addU64Sat sint_nanosFromUnit sint_addDurationSat sint_add100ns
      uint_filetimeTo100ns)

theorem saturating_arithmetic_witness:
  "uint (saturatingMulU64 0xFFFFFFFFFFFFFFFF 1024) = 2 ^ 64 - 1
   \<and> sint (addDurationSat 0x7FFFFFFFFFFFFFFF 5) = 2 ^ 63 - 1"
  using saturating_arithmetic [of "0xFFFFFFFFFFFFFFFF" 1024 0 0 0 0 "0x7FFFFFFFFFFFFFFF" 5] by simp

end
