(* ===== verification/SysMachine.thy ===== *)
theory SysMachine
  imports SysArith GoFloat Machine
begin

text \<open>
  What the containment backends of \<^verbatim>\<open>internal/sys\<close> share: the machine their system calls run on (the
  outside world, the calls made so far as a ghost trace, and the package's directory counter), a
  predicate transformer for the calls a step appends, and the types of \<^verbatim>\<open>sys.go\<close> all backends use.
\<close>

section \<open>System calls\<close>

text \<open>A Windows handle is a machine word.\<close>

type_synonym handle = uint64

datatype syscall =
    SKill int int
  | SSetpgid int
  | SWrite bytes bytes bool
  | SSleep duration
  | SMkdir bytes bool
  | SRemove bytes
  | SOpenDir bytes "int option"
  | SCloseDir int
  | SRead bytes "bytes option"
  | WCreateJob "handle option"
  | WSetExtended handle "32 word" uint64 "32 word" bool
  | WSetCpuRate handle int bool
  | WOpenProcess "32 word" "32 word" "handle option"
  | WAssign handle handle bool
  | WResume handle bool
  | WTerminate handle
  | WTerminateJob handle bool
  | WCloseHandle handle

text \<open>Calls that close no directory handle: what such a handle refers to is the same after them.\<close>

fun closes_dir :: "syscall \<Rightarrow> bool" where
  "closes_dir (SCloseDir fd) = True"
| "closes_dir _ = False"

definition steady :: "syscall list \<Rightarrow> bool" where
  "steady tr \<longleftrightarrow> list_all (\<lambda>c. \<not> closes_dir c) tr"

lemma steady_simps [simp]:
  "steady []" "steady (c # tr) \<longleftrightarrow> \<not> closes_dir c \<and> steady tr" "steady (tr @ tr') \<longleftrightarrow> steady tr \<and> steady tr'"
  by (simp_all add: steady_def)

record 'w sysm =
  sm_world :: 'w
  sm_calls :: "syscall list"
  sm_counter :: uint64

definition sys_do :: "('w \<Rightarrow> 'a \<times> 'w) \<Rightarrow> ('a \<Rightarrow> syscall list) \<Rightarrow> ('w sysm, 'a) state" where
  "sys_do f c = State (\<lambda>m. case f (sm_world m) of
     (a, w') \<Rightarrow> (a, m\<lparr>sm_world := w', sm_calls := sm_calls m @ c a\<rparr>))"

lemma wp_sys_do [wp_simps]:
  "wp (sys_do f c) Q m \<longleftrightarrow>
    (\<forall>a w'. f (sm_world m) = (a, w') \<longrightarrow> Q a (m\<lparr>sm_world := w', sm_calls := sm_calls m @ c a\<rparr>))"
  by (auto simp: wp_def sys_do_def split: prod.split)

abbreviation emits :: "('w sysm, 'a) state \<Rightarrow> 'w sysm \<Rightarrow> (syscall list \<Rightarrow> 'a \<Rightarrow> bool) \<Rightarrow> bool" where
  "emits \<equiv> emits_on sm_calls"

lemma emits_sys_do: "(\<And>a. P (c a) a) \<Longrightarrow> emits (sys_do f c) m P"
  by (auto simp: emits_on_def wp_sys_do)

text \<open>Programs none of whose calls closes a directory.\<close>

definition quiet :: "('w sysm, 'a) state \<Rightarrow> bool" where
  "quiet c \<longleftrightarrow> (\<forall>m. emits c m (\<lambda>tr r. steady tr))"

lemma quiet_return [intro!]: "quiet (State_Monad.return a)"
  by (auto simp: quiet_def)

lemma quiet_bind [intro!]: "quiet c \<Longrightarrow> (\<And>a. quiet (f a)) \<Longrightarrow> quiet (State_Monad.bind c f)"
  unfolding quiet_def
  by (intro allI, rule emits_bind [where P = "\<lambda>tr r. steady tr"]) (auto intro: emits_mono)

lemma quiet_do [intro!]: "(\<And>a. steady (k a)) \<Longrightarrow> quiet (sys_do f k)"
  by (auto simp: quiet_def intro: emits_sys_do)

lemma quiet_if [intro!]: "(b \<Longrightarrow> quiet c) \<Longrightarrow> (\<not> b \<Longrightarrow> quiet d) \<Longrightarrow> quiet (if b then c else d)"
  by simp

lemma quiet_option [intro!]: "(x = None \<Longrightarrow> quiet c) \<Longrightarrow> (\<And>a. quiet (f a)) \<Longrightarrow> quiet (case x of None \<Rightarrow> c | Some a \<Rightarrow> f a)"
  by (cases x) simp_all

lemma quiet_sum [intro!]:
  "(\<And>a. quiet (f a)) \<Longrightarrow> (\<And>b. quiet (g b)) \<Longrightarrow> quiet (case x of Inl a \<Rightarrow> f a | Inr b \<Rightarrow> g b)"
  by (cases x) simp_all

lemma quiet_emits: "quiet c \<Longrightarrow> emits c m (\<lambda>tr r. steady tr)"
  by (simp add: quiet_def)

lemma emits_conj:
  assumes "emits c m P" "emits c m Q"
  shows "emits c m (\<lambda>tr r. P tr r \<and> Q tr r)"
proof -
  have "wp c (\<lambda>r m'. (\<exists>tr. sm_calls m' = sm_calls m @ tr \<and> P tr r)
      \<and> (\<exists>tr. sm_calls m' = sm_calls m @ tr \<and> Q tr r)) m"
    using assms by (simp add: emits_on_def wp_def split: prod.splits)
  then show ?thesis unfolding emits_on_def by (rule wp_mono) auto
qed

definition sysm0 :: "'w \<Rightarrow> uint64 \<Rightarrow> 'w sysm" where
  "sysm0 w k = \<lparr>sm_world = w, sm_calls = [], sm_counter = k\<rparr>"

lemma sysm0_sel [simp]: "sm_calls (sysm0 w k) = []" "sm_world (sysm0 w k) = w" "sm_counter (sysm0 w k) = k"
  by (simp_all add: sysm0_def)

section \<open>Limits and statistics\<close>

record limits =
  lim_MemoryMax :: uint64
  lim_HasMemoryMax :: bool
  lim_MaxProcesses :: "32 word"
  lim_HasMaxProcesses :: bool
  lim_CPUQuota :: f64
  lim_HasCPUQuota :: bool

definition limits_Any :: "limits \<Rightarrow> bool" where
  "limits_Any l \<longleftrightarrow> lim_HasMemoryMax l \<or> lim_HasMaxProcesses l \<or> lim_HasCPUQuota l"

record sysStats =
  ss_ActiveProcesses :: nat
  ss_CPUTime :: int64
  ss_HasCPU :: bool
  ss_PeakMemoryBytes :: uint64
  ss_HasMem :: bool

definition stats0 :: sysStats where
  "stats0 = \<lparr>ss_ActiveProcesses = 0, ss_CPUTime = 0, ss_HasCPU = False, ss_PeakMemoryBytes = 0,
     ss_HasMem = False\<rparr>"

end
