(* ===== verification/Group.thy ===== *)
theory Group
  imports Stream SysMachine Command
begin

text \<open>
  The shared group (\<^verbatim>\<open>group.go\<close>, \<^verbatim>\<open>running.go\<close>, \<^verbatim>\<open>signal.go\<close>, \<^verbatim>\<open>batch.go\<close>): its creation under
  resource caps, the start of a member with its pipes, adoption, signals, graceful shutdown and close,
  and the handle of a running member.  Each operation is the code between taking and releasing the
  group's lock as one program on the machine; the interleaving of several operations is the subject
  of \<open>GroupConcurrency\<close>.
\<close>

section \<open>Signals\<close>

datatype sigKind = SigUnset | SigTerm | SigKill | SigInt | SigHup | SigQuit | SigUsr1 | SigUsr2 | SigRaw

record signal =
  sg_name :: bytes
  sg_kind :: sigKind
  sg_raw :: int

definition mk_signal :: "bytes \<Rightarrow> sigKind \<Rightarrow> signal" where
  "mk_signal name k = \<lparr>sg_name = name, sg_kind = k, sg_raw = 0\<rparr>"

definition SignalTerm :: signal where "SignalTerm = mk_signal ''TERM'' SigTerm"
definition SignalKill :: signal where "SignalKill = mk_signal ''KILL'' SigKill"
definition SignalInt :: signal where "SignalInt = mk_signal ''INT'' SigInt"
definition SignalHup :: signal where "SignalHup = mk_signal ''HUP'' SigHup"
definition SignalQuit :: signal where "SignalQuit = mk_signal ''QUIT'' SigQuit"
definition SignalUsr1 :: signal where "SignalUsr1 = mk_signal ''USR1'' SigUsr1"
definition SignalUsr2 :: signal where "SignalUsr2 = mk_signal ''USR2'' SigUsr2"

definition RawSignal :: "int \<Rightarrow> signal" where
  "RawSignal n = \<lparr>sg_name = [], sg_kind = SigRaw, sg_raw = n\<rparr>"

definition signal_String :: "signal \<Rightarrow> bytes" where
  "signal_String s = (if sg_kind s = SigRaw then ''signal '' @ itoa (sg_raw s) else ''SIG'' @ sg_name s)"

definition isKill :: "signal \<Rightarrow> bool" where
  "isKill s \<longleftrightarrow> sg_kind s = SigKill"

definition isUnset :: "signal \<Rightarrow> bool" where
  "isUnset s \<longleftrightarrow> sg_kind s = SigUnset"

text \<open>The signal numbers of a Unix target; the two user signals differ between systems.\<close>

record signums =
  sn_USR1 :: int
  sn_USR2 :: int

fun signal_number_unix :: "signums \<Rightarrow> sigKind \<Rightarrow> int \<Rightarrow> int" where
  "signal_number_unix sn SigTerm raw = 15"
| "signal_number_unix sn SigKill raw = 9"
| "signal_number_unix sn SigInt raw = 2"
| "signal_number_unix sn SigHup raw = 1"
| "signal_number_unix sn SigQuit raw = 3"
| "signal_number_unix sn SigUsr1 raw = sn_USR1 sn"
| "signal_number_unix sn SigUsr2 raw = sn_USR2 sn"
| "signal_number_unix sn _ raw = raw"

definition signal_number_windows :: "signal \<Rightarrow> int" where
  "signal_number_windows s = sg_raw s"

section \<open>The group and its platform\<close>

text \<open>
  The answers of the operating system a group asks for beyond those of a single run.  \<open>gp_wake\<close> is
  the choice of the select in \<^verbatim>\<open>waitGrace\<close> and \<^verbatim>\<open>Wait\<close>: the member is done, or not.
\<close>

datatype wake = WakeDone | WakeTimer | WakeCtx

record 'w gplatform =
  gp_base :: "'w platform"
  gp_signums :: signums
  gp_newJob :: "limits \<Rightarrow> 'w \<Rightarrow> (goerr + sys_mechanism) \<times> 'w"
  gp_stdPipe :: "bool \<Rightarrow> 'w \<Rightarrow> goerr option \<times> 'w"
  gp_closeReader :: "bool \<Rightarrow> 'w \<Rightarrow> 'w"
  gp_adopt :: "pid \<Rightarrow> 'w \<Rightarrow> goerr option \<times> 'w"
  gp_signal :: "int \<Rightarrow> 'w \<Rightarrow> goerr option \<times> 'w"
  gp_suspend :: "'w \<Rightarrow> goerr option \<times> 'w"
  gp_resume :: "'w \<Rightarrow> goerr option \<times> 'w"
  gp_stats :: "'w \<Rightarrow> (goerr + sysStats) \<times> 'w"
  gp_newTimer :: "duration \<Rightarrow> 'w \<Rightarrow> unit \<times> 'w"
  gp_wake :: "ctx \<Rightarrow> pid \<Rightarrow> 'w \<Rightarrow> wake \<times> 'w"
  gp_killProc :: "pid \<Rightarrow> 'w \<Rightarrow> goerr option \<times> 'w"
  gp_done :: "pid \<Rightarrow> 'w \<Rightarrow> bool"

definition signal_number :: "'w gplatform \<Rightarrow> signal \<Rightarrow> int" where
  "signal_number G s =
    (if p_unix (gp_base G) then signal_number_unix (gp_signums G) (sg_kind s) (sg_raw s)
     else signal_number_windows s)"

record running =
  rp_pid :: pid
  rp_program :: bytes
  rp_mechanism :: mechanism
  rp_startTime :: int
  rp_log :: runLog
  rp_config :: startConfig
  rp_stopped :: bool

record groupConfig =
  gc_limits :: limits
  gc_log :: runLog

type_synonym groupOption = "groupConfig \<Rightarrow> groupConfig"

definition groupConfig0 :: groupConfig where
  "groupConfig0 = \<lparr>gc_limits = \<lparr>lim_MemoryMax = 0, lim_HasMemoryMax = False, lim_MaxProcesses = 0,
     lim_HasMaxProcesses = False, lim_CPUQuota = Fin 0, lim_HasCPUQuota = False\<rparr>, gc_log = False\<rparr>"

definition group_WithLogger :: "bool \<Rightarrow> groupOption" where
  "group_WithLogger l c = c\<lparr>gc_log := l\<rparr>"

definition WithMemoryMax :: "uint64 \<Rightarrow> groupOption" where
  "WithMemoryMax n c = c\<lparr>gc_limits := (gc_limits c)\<lparr>lim_MemoryMax := n, lim_HasMemoryMax := True\<rparr>\<rparr>"

definition WithMaxProcesses :: "32 word \<Rightarrow> groupOption" where
  "WithMaxProcesses n c = c\<lparr>gc_limits := (gc_limits c)\<lparr>lim_MaxProcesses := n, lim_HasMaxProcesses := True\<rparr>\<rparr>"

definition WithCPUQuota :: "f64 \<Rightarrow> groupOption" where
  "WithCPUQuota q c = c\<lparr>gc_limits := (gc_limits c)\<lparr>lim_CPUQuota := q, lim_HasCPUQuota := True\<rparr>\<rparr>"

record group =
  g_mechanism :: mechanism
  g_log :: runLog
  g_procs :: "running list"
  g_closed :: bool

section \<open>Creation\<close>

definition validateLimits :: "limits \<Rightarrow> goerr option" where
  "validateLimits l =
    (if lim_HasMemoryMax l \<and> lim_MemoryMax l = 0
     then Some (ResourceLimitError ''memory'' ''memory max must be greater than 0'' None)
     else if lim_HasMaxProcesses l \<and> lim_MaxProcesses l = 0
     then Some (ResourceLimitError ''processes'' ''max processes must be greater than 0'' None)
     else if lim_HasCPUQuota l \<and> \<not> (f_lt (Fin 0) (lim_CPUQuota l) \<and> \<not> f_isInf (lim_CPUQuota l))
     then Some (ResourceLimitError ''cpu'' ''cpu quota must be a finite value greater than 0'' None)
     else None)"

definition NewGroup :: "'w gplatform \<Rightarrow> groupOption list \<Rightarrow> ('w mach, goerr + group) state" where
  "NewGroup G opts =
    (let cfg = fold (\<lambda>opt c. opt c) opts groupConfig0
     in case validateLimits (gc_limits cfg) of
          Some err \<Rightarrow> State_Monad.return (Inl err)
        | None \<Rightarrow> do {
            nj \<leftarrow> os_call (gp_newJob G (gc_limits cfg)) (\<lambda>r. [CNewJob (\<not> isl r)]);
            State_Monad.return (case nj of
                Inl err \<Rightarrow>
                  if limits_Any (gc_limits cfg)
                  then Inl (ResourceLimitError [] (Error (p_fmt (gp_base G)) err) (Some err))
                  else Inl (StartError ''<group>'' err)
              | Inr sm \<Rightarrow> Inr \<lparr>g_mechanism = toMechanism sm, g_log = gc_log cfg, g_procs = [], g_closed = False\<rparr>)
          })"

section \<open>Start\<close>

definition std_pipe :: "'w gplatform \<Rightarrow> bool \<Rightarrow> ('w mach, goerr option) state" where
  "std_pipe G isErr = os_call (gp_stdPipe G isErr) (\<lambda>r. [CStdPipe isErr (r = None)])"

definition close_reader :: "'w gplatform \<Rightarrow> bool \<Rightarrow> ('w mach, unit) state" where
  "close_reader G isErr = os_call (\<lambda>w. ((), gp_closeReader G isErr w)) (\<lambda>_. [CCloseReader isErr])"

text \<open>\<^verbatim>\<open>closePipes\<close> closes the readers that were opened.\<close>

definition closePipes :: "'w gplatform \<Rightarrow> bool \<Rightarrow> bool \<Rightarrow> ('w mach, unit) state" where
  "closePipes G out err = do {
     (if out then close_reader G False else State_Monad.return ());
     (if err then close_reader G True else State_Monad.return ())
   }"

definition preparePipes :: "'w gplatform \<Rightarrow> startConfig \<Rightarrow> ('w mach, goerr option) state" where
  "preparePipes G c = do {
     e1 \<leftarrow> (if wantsStdout c then std_pipe G False else State_Monad.return None);
     case e1 of
       Some err \<Rightarrow> State_Monad.return (Some err)
     | None \<Rightarrow> do {
         e2 \<leftarrow> (if wantsStderr c then std_pipe G True else State_Monad.return None);
         case e2 of
           Some err \<Rightarrow> do { closePipes G (wantsStdout c) False; State_Monad.return (Some err) }
         | None \<Rightarrow> State_Monad.return None
       }
   }"

definition start_invocation :: "invocation \<Rightarrow> startConfig \<Rightarrow> invocation" where
  "start_invocation iv c = iv\<lparr>inv_Stdin := sc_stdin c\<rparr>"

text \<open>The critical section of \<^verbatim>\<open>Group.Start\<close> from the spawn on.\<close>

definition group_spawn ::
    "'w gplatform \<Rightarrow> ctx \<Rightarrow> group \<Rightarrow> invocation \<Rightarrow> startConfig
     \<Rightarrow> ('w mach, (goerr + running) \<times> group) state" where
  "group_spawn G ctx g iv c = do {
     let P = gp_base G;
     st \<leftarrow> cmd_Start P ctx (start_invocation iv c) (if wantsStdout c then ToDrain else ToNull);
     case st of
       Inl err \<Rightarrow> do {
         closePipes G (wantsStdout c) (wantsStderr c);
         e \<leftarrow> startErr P (inv_Program iv) err;
         State_Monad.return (Inl e, g)
       }
     | Inr p \<Rightarrow> do {
         asg \<leftarrow> job_Assign P p;
         case asg of
           Some err \<Rightarrow> do {
             kill_Proc P p;
             _ \<leftarrow> cmd_Wait P p;
             closePipes G (wantsStdout c) (wantsStderr c);
             State_Monad.return (Inl (StartError (inv_Program iv) err), g)
           }
         | None \<Rightarrow> do {
             now \<leftarrow> time_now P;
             let rp = \<lparr>rp_pid = p, rp_program = inv_Program iv, rp_mechanism = g_mechanism g,
                       rp_startTime = now, rp_log = g_log g, rp_config = c, rp_stopped = False\<rparr>;
             log_events (log_spawned (g_log g) (inv_Program iv) p (g_mechanism g));
             State_Monad.return (Inr rp, g\<lparr>g_procs := g_procs g @ [rp]\<rparr>)
           }
       }
   }"

definition group_Start ::
    "'w gplatform \<Rightarrow> ctx \<Rightarrow> group \<Rightarrow> invocation \<Rightarrow> startOption list
     \<Rightarrow> ('w mach, (goerr + running) \<times> group) state" where
  "group_Start G ctx g iv opts =
    (let c = start_config opts
     in if g_closed g
        then State_Monad.return (Inl (StartError (inv_Program iv) (Sentinel ErrGroupClosed)), g)
        else do {
          cfg \<leftarrow> configure (gp_base G) iv;
          case cfg of
            Some err \<Rightarrow> State_Monad.return (Inl (StartError (inv_Program iv) err), g)
          | None \<Rightarrow> do {
              pp \<leftarrow> preparePipes G c;
              case pp of
                Some err \<Rightarrow> State_Monad.return (Inl (StartError (inv_Program iv) err), g)
              | None \<Rightarrow> group_spawn G ctx g iv c
            }
        })"

section \<open>Members\<close>

definition group_Processes :: "'w gplatform \<Rightarrow> group \<Rightarrow> ('w mach, running list) state" where
  "group_Processes G g = read_world (\<lambda>w. filter (\<lambda>p. \<not> gp_done G (rp_pid p) w) (g_procs g))"

definition mapUnsupported :: "goerr option \<Rightarrow> bytes \<Rightarrow> goerr option" where
  "mapUnsupported err op =
    (case err of None \<Rightarrow> None
     | Some e \<Rightarrow>
         if is_err e Sys_ErrUnsupported
         then Some (Wrapped (''processkit: '' @ op @ '' is not supported on this platform: '')
                (Sentinel ErrUnsupported))
         else Some e)"

definition job_Signal :: "'w gplatform \<Rightarrow> int \<Rightarrow> ('w mach, goerr option) state" where
  "job_Signal G n = os_call (gp_signal G n) (\<lambda>r. [CSignal n (r = None)])"

definition group_Signal :: "'w gplatform \<Rightarrow> signal \<Rightarrow> ('w mach, goerr option) state" where
  "group_Signal G s =
    (if isUnset s then State_Monad.return (Some (Plain (''processkit: Group.Signal called with the zero Signal; use SignalTerm, SignalKill, ''
         @ [CHR 0xE2, CHR 0x80, CHR 0xA6] @ '', or RawSignal'')))
     else if isKill s then job_Kill (gp_base G)
     else do {
       e \<leftarrow> job_Signal G (signal_number G s);
       State_Monad.return (mapUnsupported e (''signal '' @ signal_String s))
     })"

definition group_Suspend :: "'w gplatform \<Rightarrow> ('w mach, goerr option) state" where
  "group_Suspend G = do {
     e \<leftarrow> os_call (gp_suspend G) (\<lambda>r. [CSuspend (r = None)]);
     State_Monad.return (mapUnsupported e ''suspend'')
   }"

definition group_Resume :: "'w gplatform \<Rightarrow> ('w mach, goerr option) state" where
  "group_Resume G = do {
     e \<leftarrow> os_call (gp_resume G) (\<lambda>r. [CResume (r = None)]);
     State_Monad.return (mapUnsupported e ''resume'')
   }"

definition group_Adopt :: "'w gplatform \<Rightarrow> group \<Rightarrow> pid option \<Rightarrow> ('w mach, goerr option) state" where
  "group_Adopt G g proc =
    (case proc of
       None \<Rightarrow> State_Monad.return (Some (Plain ''processkit: Adopt(nil)''))
     | Some p \<Rightarrow>
         if g_closed g then State_Monad.return (Some (Sentinel ErrGroupClosed))
         else do {
           e \<leftarrow> os_call (gp_adopt G p) (\<lambda>r. [CAdopt p (r = None)]);
           let err = mapUnsupported e ''adopt'';
           (if err = None then log_events (log_adopted (g_log g) p (g_mechanism g))
            else State_Monad.return ());
           State_Monad.return err
         })"

definition signalStop :: "running \<Rightarrow> running" where
  "signalStop p = p\<lparr>rp_stopped := True\<rparr>"

definition group_Close :: "'w gplatform \<Rightarrow> group \<Rightarrow> ('w mach, goerr option \<times> group) state" where
  "group_Close G g =
    (if g_closed g then State_Monad.return (None, g)
     else do {
       log_events (log_terminating (g_log g) (g_mechanism g));
       killErr \<leftarrow> job_Kill (gp_base G);
       closeErr \<leftarrow> job_Close (gp_base G);
       State_Monad.return (if killErr \<noteq> None then killErr else closeErr,
         g\<lparr>g_closed := True, g_procs := map signalStop (g_procs g)\<rparr>)
     })"

definition defaultShutdownGrace :: duration where
  "defaultShutdownGrace = 5000000000"

text \<open>\<^verbatim>\<open>waitGrace\<close>: the timer of the grace period, then one select for each member.\<close>

fun await_members :: "'w gplatform \<Rightarrow> ctx \<Rightarrow> running list \<Rightarrow> ('w mach, unit) state" where
  "await_members G ctx [] = State_Monad.return ()"
| "await_members G ctx (p # ps) = do {
     k \<leftarrow> os_call (gp_wake G ctx (rp_pid p)) (\<lambda>k. [CAwait (rp_pid p) (k = WakeDone)]);
     if k = WakeDone then await_members G ctx ps else State_Monad.return ()
   }"

definition waitGrace :: "'w gplatform \<Rightarrow> ctx \<Rightarrow> duration \<Rightarrow> running list \<Rightarrow> ('w mach, unit) state" where
  "waitGrace G ctx grace ps = do {
     os_call (gp_newTimer G grace) (\<lambda>_. [CTimer grace]);
     await_members G ctx ps
   }"

text \<open>\<^verbatim>\<open>ShutdownGrace\<close> options set the grace period; the last one counts.\<close>

definition shutdown_grace :: "duration list \<Rightarrow> duration" where
  "shutdown_grace opts = fold (\<lambda>d _. d) opts defaultShutdownGrace"

definition group_Shutdown ::
    "'w gplatform \<Rightarrow> ctx \<Rightarrow> group \<Rightarrow> duration list \<Rightarrow> ('w mach, goerr option \<times> group) state" where
  "group_Shutdown G ctx g opts = do {
     log_events (log_shuttingDown (g_log g) (g_mechanism g) (shutdown_grace opts));
     e \<leftarrow> job_Signal G (signal_number G SignalTerm);
     (if e \<noteq> None then State_Monad.return () else waitGrace G ctx (shutdown_grace opts) (g_procs g));
     group_Close G g
   }"

section \<open>The running process\<close>

record reaped =
  re_outcome :: outcome
  re_waitErr :: "goerr option"

text \<open>The zero \<^verbatim>\<open>Outcome\<close> is \<open>exited 0\<close>.\<close>

definition outcome_zero :: outcome where
  "outcome_zero = \<lparr>o_kind = OutcomeExited, o_code = 0, o_signal = 0, o_hasSignal = False\<rparr>"

text \<open>\<^verbatim>\<open>reap\<close>, after the drains have finished.\<close>

definition reap :: "'w platform \<Rightarrow> running \<Rightarrow> ('w mach, reaped) state" where
  "reap P rp = do {
     (ps, err) \<leftarrow> cmd_Wait P (rp_pid rp);
     case (ps, err) of
       (Some st, _) \<Rightarrow> do {
         now \<leftarrow> time_now P;
         log_events (log_exited (rp_log rp) (rp_program rp) (outcomeOf P st) (now - rp_startTime rp));
         State_Monad.return \<lparr>re_outcome = outcomeOf P st, re_waitErr = None\<rparr>
       }
     | (None, Some e) \<Rightarrow> do {
         log_events (log_reapFailed (p_fmt P) (rp_log rp) (rp_program rp) e);
         State_Monad.return \<lparr>re_outcome = outcome_zero, re_waitErr = Some e\<rparr>
       }
     | (None, None) \<Rightarrow> do {
         now \<leftarrow> time_now P;
         log_events (log_exited (rp_log rp) (rp_program rp) (exited 0) (now - rp_startTime rp));
         State_Monad.return \<lparr>re_outcome = exited 0, re_waitErr = None\<rparr>
       }
   }"

definition running_Kill :: "'w gplatform \<Rightarrow> running \<Rightarrow> ('w mach, goerr option \<times> running) state" where
  "running_Kill G rp = do {
     e \<leftarrow> os_call (gp_killProc G (rp_pid rp)) (\<lambda>_. [CKillProc (rp_pid rp)]);
     State_Monad.return (e, signalStop rp)
   }"

text \<open>
  A wait is answered by the choice of its select: the reaped state, once the process is done, or the
  error of the context.
\<close>

definition running_Wait :: "reaped option \<Rightarrow> goerr \<Rightarrow> outcome \<times> goerr option" where
  "running_Wait dn ctxe =
    (case dn of Some r \<Rightarrow> (re_outcome r, re_waitErr r) | None \<Rightarrow> (outcome_zero, Some ctxe))"

section \<open>Batches\<close>

text \<open>
  \<^verbatim>\<open>WaitAny\<close>, given which case its select chose: a process, or the context (the case after them).
\<close>

definition WaitAny :: "reaped list \<Rightarrow> nat \<Rightarrow> goerr \<Rightarrow> int \<times> outcome \<times> goerr option" where
  "WaitAny procs chosen ctxe =
    (if procs = [] then (0, outcome_zero, Some (Plain ''processkit: WaitAny needs at least one process''))
     else if chosen = length procs then (0, outcome_zero, Some ctxe)
     else (int chosen, re_outcome (procs ! chosen), re_waitErr (procs ! chosen)))"

text \<open>\<^verbatim>\<open>WaitAll\<close>: each select gives the reaped process, or \<open>None\<close> when the context won.\<close>

fun WaitAll_from :: "goerr \<Rightarrow> reaped option list \<Rightarrow> goerr + outcome list" where
  "WaitAll_from ctxe [] = Inr []"
| "WaitAll_from ctxe (None # ps) = Inl ctxe"
| "WaitAll_from ctxe (Some r # ps) =
    (case re_waitErr r of
       Some e \<Rightarrow> Inl e
     | None \<Rightarrow> (case WaitAll_from ctxe ps of Inl e \<Rightarrow> Inl e | Inr ocs \<Rightarrow> Inr (re_outcome r # ocs)))"

section \<open>Traces of the operations\<close>

definition readers_closed :: "call list \<Rightarrow> bool" where
  "readers_closed tr \<longleftrightarrow> (\<forall>b. CStdPipe b True \<in> set tr \<longrightarrow> CCloseReader b \<in> set tr)"

definition starts_reaped :: "call list \<Rightarrow> bool" where
  "starts_reaped tr \<longleftrightarrow>
    (\<forall>si so p. CStart si so (Some p) \<in> set tr \<longrightarrow> CKillProc p \<in> set tr \<and> CWait p \<in> set tr)"

text \<open>The processes a trace has started.\<close>

fun started_by :: "call \<Rightarrow> pid list" where
  "started_by (CStart si so (Some p)) = [p]"
| "started_by _ = []"

definition started :: "call list \<Rightarrow> pid list" where
  "started tr = concat (map started_by tr)"

lemma started_simps [simp]:
  "started [] = []" "started (c # tr) = started_by c @ started tr"
  "started (tr @ tr') = started tr @ started tr'"
  by (simp_all add: started_def)

definition group_untouched :: "call list \<Rightarrow> bool" where
  "group_untouched tr \<longleftrightarrow> CKill \<notin> set tr \<and> CClose \<notin> set tr"

lemma trace_preds_simps [simp]:
  "readers_closed []" "starts_reaped []" "group_untouched []"
  "group_untouched (xs @ ys) \<longleftrightarrow> group_untouched xs \<and> group_untouched ys"
  by (auto simp: readers_closed_def starts_reaped_def group_untouched_def)

definition opened :: "startConfig \<Rightarrow> call list" where
  "opened c = (if wantsStdout c then [CStdPipe False True] else [])
    @ (if wantsStderr c then [CStdPipe True True] else [])"

definition closing :: "bool \<Rightarrow> bool \<Rightarrow> call list" where
  "closing out err = (if out then [CCloseReader False] else []) @ (if err then [CCloseReader True] else [])"

lemma started_pipes [simp]: "started (opened c) = []" "started (closing out err) = []"
  by (simp_all add: opened_def closing_def)

lemma closePipes_emits: "emits_on m_calls (closePipes G out err) m (\<lambda>tr r. tr = closing out err)"
  unfolding closePipes_def close_reader_def emits_on_def closing_def
  by (auto simp: wp_simps)

lemma preparePipes_emits:
  "emits_on m_calls (preparePipes G c) m (\<lambda>tr r. group_untouched tr \<and> starts_reaped tr \<and> started tr = [] \<and>
    (if r = None then tr = opened c else readers_closed tr))"
  unfolding emits_on_def preparePipes_def std_pipe_def closePipes_def close_reader_def
  by (auto simp: wp_simps opened_def group_untouched_def starts_reaped_def readers_closed_def split: option.split)

lemma startErr_emits: "emits_on m_calls (startErr P program err) m (\<lambda>tr r. tr = [])"
  by (auto simp: emits_on_def startErr_def wp_simps)

text \<open>What the spawn part appends, and the group it leaves.\<close>

definition spawned_ok :: "group \<Rightarrow> startConfig \<Rightarrow> call list \<Rightarrow> (goerr + running) \<times> group \<Rightarrow> bool" where
  "spawned_ok g c tr rg \<longleftrightarrow> group_untouched tr \<and> length (started tr) \<le> 1 \<and>
    (case rg of
       (Inl e, g') \<Rightarrow> g' = g \<and> starts_reaped tr
         \<and> (\<exists>xs. tr = xs @ closing (wantsStdout c) (wantsStderr c) \<and> (\<forall>b ok. CStdPipe b ok \<notin> set tr))
     | (Inr rp, g') \<Rightarrow> g' = g\<lparr>g_procs := g_procs g @ [rp]\<rparr>
         \<and> (\<exists>si so. tr = [CStart si so (Some (rp_pid rp)), CAssign (rp_pid rp) True])
         \<and> rp_config rp = c \<and> rp_mechanism rp = g_mechanism g \<and> \<not> rp_stopped rp)"

lemma spawn_failed_ok:
  "spawned_ok g c (CStart si so None # closing (wantsStdout c) (wantsStderr c)) (Inl e, g)"
  "spawned_ok g c (CStart si so (Some p) # CAssign p False # CKillProc p # CWait p
     # closing (wantsStdout c) (wantsStderr c)) (Inl e, g)"
  by (auto simp: spawned_ok_def starts_reaped_def group_untouched_def closing_def
      intro: exI [of _ "[CStart si so None]"] exI [of _ "[CStart si so (Some p), CAssign p False, CKillProc p, CWait p]"])

lemma group_spawn_emits: "emits_on m_calls (group_spawn G ctx g iv c) m (spawned_ok g c)"
  unfolding group_spawn_def Let_def cmd_Start_def
proof (rule emits_bind [where P = "\<lambda>tr r. \<exists>si so. tr = [CStart si so (case r of Inl _ \<Rightarrow> None | Inr p \<Rightarrow> Some p)]"],
    goal_cases)
  case 1
  show ?case by (auto intro!: emits_os_call)
next
  case (2 tr st m1)
  then obtain si so where tr: "tr = [CStart si so (case st of Inl _ \<Rightarrow> None | Inr p \<Rightarrow> Some p)]" by blast
  show ?case
  proof (cases st)
    case (Inl err)
    show ?thesis unfolding Inl sum.case
      by (rule emits_bind [OF closePipes_emits], rule emits_bind [OF startErr_emits])
        (use tr Inl in \<open>auto intro!: emits_return spawn_failed_ok\<close>)
  next
    case (Inr p)
    show ?thesis unfolding Inr sum.case job_Assign_def
    proof (rule emits_bind [where P = "\<lambda>tr r. tr = [CAssign p (r = None)]"], goal_cases)
      case 1
      show ?case by (auto intro!: emits_os_call)
    next
      case (2 tr1 asg m2)
      show ?case
      proof (cases asg)
        case None
        show ?thesis unfolding None option.case time_now_def
          by (rule emits_bind [where P = "\<lambda>tr r. tr = []"], (auto intro!: emits_os_call)[1],
              rule emits_bind [where P = "\<lambda>tr r. tr = []"], (auto intro!: emits_log)[1])
            (use 2 tr None Inr in \<open>auto simp: spawned_ok_def group_untouched_def intro!: emits_return\<close>)
      next
        case (Some err)
        show ?thesis unfolding Some option.case kill_Proc_def cmd_Wait_def
          by (rule emits_bind [where P = "\<lambda>tr r. tr = [CKillProc p]"], (auto intro!: emits_os_call)[1],
              rule emits_bind [where P = "\<lambda>tr r. tr = [CWait p]"], (auto intro!: emits_os_call)[1],
              rule emits_bind [OF closePipes_emits])
            (use 2 tr Some Inr in \<open>auto intro!: emits_return spawn_failed_ok\<close>)
      qed
    qed
  qed
qed

definition start_ok :: "group \<Rightarrow> startConfig \<Rightarrow> call list \<Rightarrow> (goerr + running) \<times> group \<Rightarrow> bool" where
  "start_ok g c tr rg \<longleftrightarrow> group_untouched tr \<and> length (started tr) \<le> 1 \<and>
    (case rg of
       (Inl e, g') \<Rightarrow> g' = g \<and> starts_reaped tr \<and> readers_closed tr
     | (Inr rp, g') \<Rightarrow> \<not> g_closed g \<and> g' = g\<lparr>g_procs := g_procs g @ [rp]\<rparr>
         \<and> (\<exists>si so. tr = CConfigure True # opened c
              @ [CStart si so (Some (rp_pid rp)), CAssign (rp_pid rp) True])
         \<and> rp_config rp = c \<and> rp_mechanism rp = g_mechanism g \<and> \<not> rp_stopped rp)
    \<and> (g_closed g \<longrightarrow> tr = [] \<and> (\<exists>e. fst rg = Inl e \<and> is_err e ErrGroupClosed \<and> is_err e ErrStart))"

lemma group_Start_emits: "emits_on m_calls (group_Start G ctx g iv opts) m (start_ok g (start_config opts))"
  unfolding group_Start_def Let_def configure_def
proof (rule emits_if)
  assume "g_closed g"
  then show "emits_on m_calls (State_Monad.return (Inl (StartError (inv_Program iv) (Sentinel ErrGroupClosed)), g)) m
      (start_ok g (start_config opts))"
    by (auto intro!: emits_return simp: start_ok_def)
next
  assume open_g: "\<not> g_closed g"
  let ?c = "start_config opts"
  show "emits_on m_calls (do {
      cfg \<leftarrow> os_call (p_configure (gp_base G) iv) (\<lambda>r. [CConfigure (r = None)]);
      case cfg of
        None \<Rightarrow> do {
          pp \<leftarrow> preparePipes G ?c;
          case pp of
            None \<Rightarrow> group_spawn G ctx g iv ?c
          | Some err \<Rightarrow> State_Monad.return (Inl (StartError (inv_Program iv) err), g)
        }
      | Some err \<Rightarrow> State_Monad.return (Inl (StartError (inv_Program iv) err), g)
    }) m (start_ok g ?c)"
  proof (rule emits_bind [where P = "\<lambda>tr r. tr = [CConfigure (r = None)]"], (auto intro!: emits_os_call)[1], goal_cases)
    case (1 tr cfg m1)
    show ?case
    proof (cases cfg)
      case (Some err)
      with 1 open_g show ?thesis
        by (auto intro!: emits_return simp: start_ok_def group_untouched_def starts_reaped_def readers_closed_def)
    next
      case None
      show ?thesis unfolding None option.case
      proof (rule emits_bind [OF preparePipes_emits], goal_cases)
        case (1 tr1 pp m2)
        show ?case
        proof (cases pp)
          case (Some err)
          with 1 \<open>tr = _\<close> open_g show ?thesis
            by (auto intro!: emits_return simp: start_ok_def group_untouched_def starts_reaped_def readers_closed_def)
        next
          case no: None
          show ?thesis unfolding no option.case
            by (rule emits_mono [OF group_spawn_emits])
              (use 1 no \<open>tr = _\<close> None open_g in \<open>auto simp: start_ok_def spawned_ok_def group_untouched_def
                starts_reaped_def readers_closed_def opened_def closing_def split: sum.splits if_splits\<close>)
        qed
      qed
    qed
  qed
qed

lemma group_Close_emits:
  "emits_on m_calls (group_Close G g) m (\<lambda>tr (r, g').
    g_closed g' \<and> (if g_closed g then tr = [] \<and> r = None \<and> g' = g
      else tr = [CKill, CClose] \<and> list_all rp_stopped (g_procs g')))"
  unfolding emits_on_def group_Close_def job_Kill_def job_Close_def
  by (auto simp: wp_simps list_all_iff signalStop_def)

text \<open>
  The wait of a shutdown, stated over its trace: the timer of the grace period, then the members in
  order, each having exited but perhaps the last one asked, where the timer or the context ended the wait.
\<close>

fun members_asked :: "pid list \<Rightarrow> call list \<Rightarrow> bool" where
  "members_asked (p # ps) (CAwait q True # tr) \<longleftrightarrow> q = p \<and> members_asked ps tr"
| "members_asked (p # ps) tr \<longleftrightarrow> tr = [CAwait p False]"
| "members_asked [] tr \<longleftrightarrow> tr = []"

definition grace_wait :: "duration \<Rightarrow> pid list \<Rightarrow> call list \<Rightarrow> bool" where
  "grace_wait grace ps tr \<longleftrightarrow> (\<exists>tr'. tr = CTimer grace # tr' \<and> members_asked ps tr')"

lemma await_members_emits:
  "emits_on m_calls (await_members G ctx ps) m (\<lambda>tr r. members_asked (map rp_pid ps) tr)"
proof (induction ps arbitrary: m)
  case (Cons p ps)
  show ?case unfolding await_members.simps
  proof (rule emits_bind [where P = "\<lambda>tr r. tr = [CAwait (rp_pid p) (r = WakeDone)]"], goal_cases)
    case 1
    show ?case by (auto intro!: emits_os_call)
  next
    case (2 tr k m1)
    show ?case
      by (rule emits_if, rule emits_mono [OF Cons]) (use 2 in \<open>auto intro!: emits_return\<close>)
  qed
qed (auto intro!: emits_return)

lemma waitGrace_emits:
  "emits_on m_calls (waitGrace G ctx grace ps) m (\<lambda>tr r. grace_wait grace (map rp_pid ps) tr)"
  unfolding waitGrace_def
proof (rule emits_bind [where P = "\<lambda>tr r. tr = [CTimer grace]"], goal_cases)
  case 1
  show ?case by (auto intro!: emits_os_call)
next
  case (2 tr u m1)
  show ?case by (rule emits_mono [OF await_members_emits]) (use 2 in \<open>simp add: grace_wait_def\<close>)
qed

lemma group_Shutdown_emits:
  assumes "\<not> g_closed g"
  shows "emits_on m_calls (group_Shutdown G ctx g opts) m (\<lambda>tr (r, g').
    g_closed g' \<and> list_all rp_stopped (g_procs g')
    \<and> (\<exists>ok ws. tr = CSignal (signal_number G SignalTerm) ok # ws @ [CKill, CClose]
        \<and> (if ok then grace_wait (shutdown_grace opts) (map rp_pid (g_procs g)) ws else ws = [])))"
  unfolding group_Shutdown_def job_Signal_def
proof (rule emits_bind [where P = "\<lambda>tr r. tr = []"], (auto intro!: emits_log)[1],
    rule emits_bind [where P = "\<lambda>tr r. tr = [CSignal (signal_number G SignalTerm) (r = None)]"],
    (auto intro!: emits_os_call)[1], goal_cases)
  case (1 tr u m1 tr1 e m2)
  show ?case
  proof (rule emits_bind [where P = "\<lambda>tr r. if e = None
      then grace_wait (shutdown_grace opts) (map rp_pid (g_procs g)) tr else tr = []"], goal_cases)
    case 1
    show ?case by (rule emits_if) (auto intro!: waitGrace_emits)
  next
    case (2 ws u2 m3)
    show ?case
      by (rule emits_mono [OF group_Close_emits])
        (use 1 2 assms in \<open>auto split: if_splits\<close>)
  qed
qed

lemma mach0_calls [simp]: "m_calls (mach0 w) = []"
  by (simp add: mach0_def)

section \<open>Properties\<close>

text \<open>
  Claim C13. A start either registers its child or leaves nothing: on success the calls are exactly
  configure, the wanted pipes, start and assign, and the handle is appended to the group; on any error
  the group is unchanged, a child that was started has been killed and waited for, every opened pipe
  reader has been closed, and the group's job was not touched, so its other members live on; and a
  closed group answers \<^verbatim>\<open>errGroupClosed\<close> without any call.
\<close>

theorem group_start_registers_or_reaps:
  "case run_state (group_Start G ctx g iv opts) (mach0 w) of
     (rg, m') \<Rightarrow> start_ok g (start_config opts) (m_calls m') rg"
proof -
  obtain rg m' where run: "run_state (group_Start G ctx g iv opts) (mach0 w) = (rg, m')" by fastforce
  from emits_run [OF group_Start_emits run] show ?thesis unfolding run by simp
qed

text \<open>
  Closing is final and idempotent: the first close kills the job and then releases it, stops
  every member's drain, and answers the kill's error before the release's; every later close, start
  and adoption makes no call, and the last two answer \<^verbatim>\<open>errGroupClosed\<close>.
\<close>

theorem closed_group_is_final:
  "case run_state (group_Close G g) m of ((e, g'), m1) \<Rightarrow>
     m_calls m1 = m_calls m @ (if g_closed g then [] else [CKill, CClose])
     \<and> g_closed g'
     \<and> run_state (group_Close G g') m1 = ((None, g'), m1)
     \<and> run_state (group_Start G ctx g' iv opts) m1
         = ((Inl (StartError (inv_Program iv) (Sentinel ErrGroupClosed)), g'), m1)
     \<and> run_state (group_Adopt G g' (Some p)) m1 = (Some (Sentinel ErrGroupClosed), m1)"
proof -
  obtain e g' m1 where run: "run_state (group_Close G g) m = ((e, g'), m1)" by (metis surj_pair)
  from emits_run [OF group_Close_emits run] have "g_closed g'"
    "m_calls m1 = m_calls m @ (if g_closed g then [] else [CKill, CClose])" by (auto split: if_splits)
  then show ?thesis unfolding run by (simp add: group_Close_def group_Start_def group_Adopt_def Let_def)
qed

text \<open>
  Claim C35. A graceful shutdown of an open group always ends in the kill, and gives the members their
  grace first: its calls are the broadcast of SIGTERM (15 on Unix), then, if that was delivered, the
  wait under a timer of the configured grace (the last option, 5 s by default), asking the members in
  order until one is still running when the timer or the context ends the wait; then, whatever the
  signal and the wait answered, the kill and the release of the job.  The group is closed afterwards
  and every member's drain is released.
\<close>

theorem shutdown_always_kills:
  assumes "\<not> g_closed g"
  shows "case run_state (group_Shutdown G ctx g opts) (mach0 w) of ((e, g'), m') \<Rightarrow>
     g_closed g' \<and> list_all rp_stopped (g_procs g')
     \<and> (\<exists>sig ok ws. m_calls m' = CSignal sig ok # ws @ [CKill, CClose]
         \<and> (if p_unix (gp_base G) then sig = 15 else sig = sg_raw SignalTerm)
         \<and> (if ok then grace_wait (if opts = [] then 5000000000 else last opts) (map rp_pid (g_procs g)) ws
            else ws = []))"
proof -
  obtain e g' m' where run: "run_state (group_Shutdown G ctx g opts) (mach0 w) = ((e, g'), m')"
    by (metis surj_pair)
  have "fold (\<lambda>d _. d) opts d0 = (if opts = [] then d0 else last opts)" for d0 :: duration
    by (induction opts arbitrary: d0) auto
  then have grace: "shutdown_grace opts = (if opts = [] then 5000000000 else last opts)"
    by (simp add: shutdown_grace_def defaultShutdownGrace_def)
  have sig: "signal_number G SignalTerm = (if p_unix (gp_base G) then 15 else sg_raw SignalTerm)"
    by (simp add: signal_number_def signal_number_windows_def SignalTerm_def mk_signal_def)
  from emits_run [OF group_Shutdown_emits [OF assms] run] obtain ok ws where
    "m_calls m' = CSignal (signal_number G SignalTerm) ok # ws @ [CKill, CClose]" "g_closed g'"
    "list_all rp_stopped (g_procs g')"
    "if ok then grace_wait (shutdown_grace opts) (map rp_pid (g_procs g)) ws else ws = []" by auto
  then show ?thesis unfolding run sig grace prod.case
    by (intro conjI exI [of _ "if p_unix (gp_base G) then 15 else sg_raw SignalTerm"] exI [of _ ok] exI [of _ ws])
      (simp_all split: if_splits)
qed

text \<open>A platform on which everything succeeds, and a group with one running member.\<close>

definition calm_gplatform :: "nat gplatform" where
  "calm_gplatform = \<lparr>gp_base = quiet_platform \<lparr>ps_signaled = False, ps_signal = 0, ps_exitCode = 0\<rparr> None,
    gp_signums = \<lparr>sn_USR1 = 10, sn_USR2 = 12\<rparr>,
    gp_newJob = (\<lambda>l w. (Inr Sys_ProcessGroup, w)), gp_stdPipe = (\<lambda>b w. (None, w)),
    gp_closeReader = (\<lambda>b w. w), gp_adopt = (\<lambda>p w. (None, w)), gp_signal = (\<lambda>n w. (None, w)),
    gp_suspend = (\<lambda>w. (None, w)), gp_resume = (\<lambda>w. (None, w)), gp_stats = (\<lambda>w. (Inr stats0, w)),
    gp_newTimer = (\<lambda>d w. ((), w)),
    gp_wake = (\<lambda>c p w. (WakeDone, w)), gp_killProc = (\<lambda>p w. (None, w)), gp_done = (\<lambda>p w. False)\<rparr>"

definition one_member :: group where
  "one_member = \<lparr>g_mechanism = MechanismProcessGroup, g_log = False,
     g_procs = [\<lparr>rp_pid = 100, rp_program = ''svc'', rp_mechanism = MechanismProcessGroup,
       rp_startTime = 0, rp_log = False, rp_config = startConfig0, rp_stopped = False\<rparr>], g_closed = False\<rparr>"

theorem shutdown_always_kills_witness:
  "\<exists>sig ok ws. m_calls (snd (run_state (group_Shutdown calm_gplatform 0 one_member [7]) (mach0 0)))
      = CSignal sig ok # ws @ [CKill, CClose] \<and> (if ok then grace_wait 7 [100] ws else ws = [])"
proof -
  have c: "\<not> g_closed one_member" and pids: "map rp_pid (g_procs one_member) = [100]"
    by (simp_all add: one_member_def)
  obtain e g' m' where run: "run_state (group_Shutdown calm_gplatform 0 one_member [7]) (mach0 0) = ((e, g'), m')"
    by (metis surj_pair)
  from shutdown_always_kills [OF c, where G = calm_gplatform and ctx = 0 and opts = "[7]" and w = 0, unfolded run prod.case pids]
  obtain sig ok ws where "m_calls m' = CSignal sig ok # ws @ [CKill, CClose]"
    "if ok then grace_wait 7 [100] ws else ws = []" by (elim conjE exE) (simp split: if_splits)
  then show ?thesis unfolding run snd_conv by (intro exI conjI)
qed

text \<open>
  Creating a group never ignores a cap: an invalid cap is refused before any call with an
  error matching \<^verbatim>\<open>ErrResourceLimit\<close>; when the platform cannot create the job the error matches
  \<^verbatim>\<open>ErrResourceLimit\<close> exactly when a cap was asked for, unless its cause does already; and the group
  that is returned is empty and open.
\<close>

theorem new_group_caps:
  "case run_state (NewGroup G opts) (mach0 w) of (r, m') \<Rightarrow>
    (let cfg = fold (\<lambda>opt c. opt c) opts groupConfig0
     in case validateLimits (gc_limits cfg) of
          Some err \<Rightarrow> r = Inl err \<and> is_err err ErrResourceLimit \<and> m_calls m' = []
        | None \<Rightarrow>
            (case gp_newJob G (gc_limits cfg) w of
               (Inl err, _) \<Rightarrow> (\<exists>e. r = Inl e
                 \<and> (limits_Any (gc_limits cfg) \<or> is_err err ErrResourceLimit \<longleftrightarrow> is_err e ErrResourceLimit))
             | (Inr sm, _) \<Rightarrow> r = Inr \<lparr>g_mechanism = toMechanism sm, g_log = gc_log cfg, g_procs = [],
                 g_closed = False\<rparr>))"
  by (auto simp: NewGroup_def Let_def mach0_def validateLimits_def
      split: option.splits if_splits prod.splits sum.splits)

end
