(* ===== verification/GroupConcurrency.thy ===== *)
theory GroupConcurrency
  imports Group
begin

text \<open>
  The race between \<^verbatim>\<open>Group.Start\<close>, \<^verbatim>\<open>Group.Adopt\<close> and \<^verbatim>\<open>Group.Close\<close> (\<^verbatim>\<open>group.go\<close>) on the
  process-group backend (\<^verbatim>\<open>job_unix.go\<close>) as a step relation.  Threads run the operations one atomic action
  at a time; the critical sections of Start and Adopt hold the group's lock from the test of the closed
  flag to the registration of the process, and Close sets the flag under the lock and kills outside it.
  Meanwhile processes fork, exit, and may leave their group.  The invariant gives the no-orphan guarantee:
  once a Close has finished its kill, no process of a tracked process group and no process adopted on its
  own is alive; what is alive left its group, descends from a child whose assignment failed, or descends
  from a process adopted on its own, whose descendants the backend does not capture.
\<close>

section \<open>States\<close>

text \<open>
  A live process is a pair of its pid and its tree: the process group led by a child the group started,
  by an adopted process that was made a group leader, or by a process that left for a group of its own;
  or the processes that descend from one adopted without a group of its own, which are in no group the
  code knows.  A step of the kill is a delivered signal.  Ghost fields: the leaders that left their group
  by \<^verbatim>\<open>setsid\<close>, and the children whose assignment failed.
\<close>

datatype tree = Led pid | Loose pid

text \<open>The hard kill signals the process groups first and then the processes adopted on their own.\<close>

datatype target = Pgrp pid | Single pid

fun hits :: "target \<Rightarrow> pid \<times> tree \<Rightarrow> bool" where
  "hits (Pgrp p) (q, r) \<longleftrightarrow> r = Led p"
| "hits (Single p) (q, r) \<longleftrightarrow> q = p"

datatype tpc =
    Idle
  | Checked
  | Spawned pid
  | Unassigned pid
  | Flagged
  | Sweeping "target list"
  | Swept

record gstate =
  gs_closed :: bool
  gs_lock :: "nat option"
  gs_pc :: "nat \<Rightarrow> tpc"
  gs_live :: "(pid \<times> tree) set"
  gs_tracked :: "pid list"
  gs_solo :: "pid list"
  gs_escaped :: "pid set"
  gs_failed :: "pid set"

definition gs_init :: gstate where
  "gs_init = \<lparr>gs_closed = False, gs_lock = None, gs_pc = (\<lambda>_. Idle), gs_live = {},
     gs_tracked = [], gs_solo = [], gs_escaped = {}, gs_failed = {}\<rparr>"

definition targets :: "gstate \<Rightarrow> target list" where
  "targets s = map Pgrp (gs_tracked s) @ map Single (gs_solo s)"

lemma targets_simps [simp]:
  "Pgrp p \<in> set (targets s) \<longleftrightarrow> p \<in> set (gs_tracked s)" "Single p \<in> set (targets s) \<longleftrightarrow> p \<in> set (gs_solo s)"
  by (auto simp: targets_def)

section \<open>Steps\<close>

text \<open>
  The actions of a thread.  The group's lock is held in the states \<open>Checked\<close> and \<open>Spawned\<close>; \<open>refuse\<close> is
  the path that finds the group closed, and \<open>start_error\<close> every failure before the spawn.  An adoption
  makes the process the leader of a group of its own when \<^verbatim>\<open>setpgid\<close> allows it, which it never does for a
  process that leads a session; otherwise it records the process alone, which stays in the tree it is in;
  or the process is gone or cannot be signalled, and nothing is recorded.
\<close>

inductive thread_step :: "nat \<Rightarrow> gstate \<Rightarrow> gstate \<Rightarrow> bool" for t where
  lock_start: "gs_pc s t = Idle \<Longrightarrow> gs_lock s = None \<Longrightarrow> \<not> gs_closed s \<Longrightarrow>
    thread_step t s (s\<lparr>gs_lock := Some t, gs_pc := (gs_pc s)(t := Checked)\<rparr>)"
| refuse: "gs_pc s t = Idle \<Longrightarrow> gs_lock s = None \<Longrightarrow> gs_closed s \<Longrightarrow> thread_step t s s"
| start_error: "gs_pc s t = Checked \<Longrightarrow>
    thread_step t s (s\<lparr>gs_lock := None, gs_pc := (gs_pc s)(t := Idle)\<rparr>)"
| spawn: "gs_pc s t = Checked \<Longrightarrow>
    thread_step t s (s\<lparr>gs_live := insert (p, Led p) (gs_live s), gs_pc := (gs_pc s)(t := Spawned p)\<rparr>)"
| assign: "gs_pc s t = Spawned p \<Longrightarrow>
    thread_step t s (s\<lparr>gs_tracked := gs_tracked s @ [p], gs_lock := None, gs_pc := (gs_pc s)(t := Idle)\<rparr>)"
| assign_error: "gs_pc s t = Spawned p \<Longrightarrow>
    thread_step t s (s\<lparr>gs_failed := insert p (gs_failed s), gs_lock := None,
      gs_pc := (gs_pc s)(t := Unassigned p)\<rparr>)"
| kill_child: "gs_pc s t = Unassigned p \<Longrightarrow>
    thread_step t s (s\<lparr>gs_live := gs_live s - {(p, Led p)}, gs_pc := (gs_pc s)(t := Idle)\<rparr>)"
| adopt_leader: "gs_pc s t = Idle \<Longrightarrow> gs_lock s = None \<Longrightarrow> \<not> gs_closed s \<Longrightarrow> p \<notin> gs_escaped s \<Longrightarrow>
    thread_step t s (s\<lparr>gs_live := {(q, r) \<in> gs_live s. q \<noteq> p} \<union> {(p, Led p)}, gs_tracked := gs_tracked s @ [p]\<rparr>)"
| adopt_solo: "gs_pc s t = Idle \<Longrightarrow> gs_lock s = None \<Longrightarrow> \<not> gs_closed s \<Longrightarrow>
    thread_step t s (s\<lparr>gs_live := (if p \<in> fst ` gs_live s then gs_live s else insert (p, Loose p) (gs_live s)),
      gs_solo := gs_solo s @ [p]\<rparr>)"
| adopt_nothing: "gs_pc s t = Idle \<Longrightarrow> gs_lock s = None \<Longrightarrow> \<not> gs_closed s \<Longrightarrow> thread_step t s s"
| close_flag: "gs_pc s t = Idle \<Longrightarrow> gs_lock s = None \<Longrightarrow> \<not> gs_closed s \<Longrightarrow>
    thread_step t s (s\<lparr>gs_closed := True, gs_pc := (gs_pc s)(t := Flagged)\<rparr>)"
| close_kill: "gs_pc s t = Flagged \<Longrightarrow>
    thread_step t s (s\<lparr>gs_pc := (gs_pc s)(t := Sweeping (targets s))\<rparr>)"
| sweep: "gs_pc s t = Sweeping (x # xs) \<Longrightarrow>
    thread_step t s (s\<lparr>gs_live := {y \<in> gs_live s. \<not> hits x y}, gs_pc := (gs_pc s)(t := Sweeping xs)\<rparr>)"
| swept: "gs_pc s t = Sweeping [] \<Longrightarrow> thread_step t s (s\<lparr>gs_pc := (gs_pc s)(t := Swept)\<rparr>)"

text \<open>
  What the processes do.  A leader of a tracked group cannot leave it, and a process that leaves leads a
  tree of its own.  A forked process is in the tree of its parent and has a fresh pid, which is never that
  of a process adopted on its own.
\<close>

inductive proc_step :: "gstate \<Rightarrow> gstate \<Rightarrow> bool" where
  fork: "(q, r) \<in> gs_live s \<Longrightarrow> q' \<notin> fst ` gs_live s \<Longrightarrow> q' \<notin> set (gs_solo s) \<Longrightarrow>
    proc_step s (s\<lparr>gs_live := insert (q', r) (gs_live s)\<rparr>)"
| exit: "proc_step s (s\<lparr>gs_live := gs_live s - {(q, r)}\<rparr>)"
| escape: "(q, r) \<in> gs_live s \<Longrightarrow> q \<notin> set (gs_tracked s) \<Longrightarrow>
    proc_step s (s\<lparr>gs_live := insert (q, Led q) (gs_live s - {(q, r)}), gs_escaped := insert q (gs_escaped s)\<rparr>)"

inductive group_step :: "gstate \<Rightarrow> gstate \<Rightarrow> bool" where
  thread: "thread_step t s s' \<Longrightarrow> group_step s s'"
| process: "proc_step s s' \<Longrightarrow> group_step s s'"

definition group_reach :: "gstate \<Rightarrow> bool" where
  "group_reach = group_step\<^sup>*\<^sup>* gs_init"

inductive_cases thread_stepE: "thread_step t s s'"
inductive_cases proc_stepE: "proc_step s s'"
inductive_cases group_stepE: "group_step s s'"

section \<open>The invariant\<close>

fun holds_lock :: "tpc \<Rightarrow> bool" where
  "holds_lock Checked = True"
| "holds_lock (Spawned p) = True"
| "holds_lock _ = False"

fun closing_pc :: "tpc \<Rightarrow> bool" where
  "closing_pc Flagged = True"
| "closing_pc (Sweeping rs) = True"
| "closing_pc Swept = True"
| "closing_pc _ = False"

text \<open>The targets a closing thread has already hit.\<close>

fun cleared :: "tpc \<Rightarrow> target list \<Rightarrow> target set" where
  "cleared (Sweeping xs) ts = set ts - set xs"
| "cleared Swept ts = set ts"
| "cleared _ ts = {}"

definition lock_inv :: "gstate \<Rightarrow> bool" where
  "lock_inv s \<longleftrightarrow> (\<forall>t. holds_lock (gs_pc s t) \<longrightarrow> gs_lock s = Some t \<and> \<not> gs_closed s)
    \<and> (\<forall>t. closing_pc (gs_pc s t) \<longrightarrow> gs_closed s)
    \<and> (gs_closed s \<longrightarrow> gs_lock s = None)"

fun accounted :: "gstate \<Rightarrow> tree \<Rightarrow> bool" where
  "accounted s (Led r) \<longleftrightarrow>
    r \<in> set (gs_tracked s) \<or> r \<in> gs_escaped s \<or> r \<in> gs_failed s \<or> (\<exists>t. gs_pc s t = Spawned r)"
| "accounted s (Loose r) \<longleftrightarrow> r \<in> set (gs_solo s)"

definition root_inv :: "gstate \<Rightarrow> bool" where
  "root_inv s \<longleftrightarrow> (\<forall>q r. (q, r) \<in> gs_live s \<longrightarrow> accounted s r)"

definition cleared_inv :: "gstate \<Rightarrow> bool" where
  "cleared_inv s \<longleftrightarrow> (\<forall>t y x. y \<in> gs_live s \<longrightarrow> x \<in> cleared (gs_pc s t) (targets s) \<longrightarrow> \<not> hits x y)"

definition group_inv :: "gstate \<Rightarrow> bool" where
  "group_inv s \<longleftrightarrow> lock_inv s \<and> root_inv s \<and> cleared_inv s"

lemma group_inv_init: "group_inv gs_init"
  by (simp add: group_inv_def lock_inv_def root_inv_def cleared_inv_def gs_init_def)

lemma lock_invD:
  "lock_inv s \<Longrightarrow> holds_lock (gs_pc s t) \<Longrightarrow> gs_lock s = Some t"
  "lock_inv s \<Longrightarrow> holds_lock (gs_pc s t) \<Longrightarrow> \<not> gs_closed s"
  "lock_inv s \<Longrightarrow> closing_pc (gs_pc s t) \<Longrightarrow> gs_closed s"
  "lock_inv s \<Longrightarrow> gs_closed s \<Longrightarrow> gs_lock s = None"
  by (auto simp: lock_inv_def)

lemma lock_free: "lock_inv s \<Longrightarrow> gs_lock s = None \<Longrightarrow> \<not> holds_lock (gs_pc s t)"
  using lock_invD(1) by fastforce

lemma lock_mine: "lock_inv s \<Longrightarrow> holds_lock (gs_pc s t) \<Longrightarrow> t' \<noteq> t \<Longrightarrow> \<not> holds_lock (gs_pc s t')"
  using lock_invD(1) by (metis option.inject)

lemma lock_invI:
  assumes "\<And>t. holds_lock (gs_pc s t) \<Longrightarrow> gs_lock s = Some t \<and> \<not> gs_closed s"
    "\<And>t. closing_pc (gs_pc s t) \<Longrightarrow> gs_closed s" "gs_closed s \<Longrightarrow> gs_lock s = None"
  shows "lock_inv s"
  using assms by (simp add: lock_inv_def)

lemma lock_inv_thread:
  assumes "thread_step t s s'" "lock_inv s"
  shows "lock_inv s'"
  using assms(1)
proof cases
  case lock_start
  show ?thesis
    by (rule lock_invI) (use lock_start lock_free [OF assms(2)] lock_invD(3) [OF assms(2)] in \<open>auto split: if_splits\<close>)
next
  case start_error
  show ?thesis
    by (rule lock_invI) (use start_error lock_mine [OF assms(2), of t] lock_invD(2-3) [OF assms(2)] in \<open>auto split: if_splits\<close>)
next
  case (assign p)
  show ?thesis
    by (rule lock_invI) (use assign lock_mine [OF assms(2), of t] lock_invD(2-3) [OF assms(2)] in \<open>auto split: if_splits\<close>)
next
  case (assign_error p)
  show ?thesis
    by (rule lock_invI) (use assign_error lock_mine [OF assms(2), of t] lock_invD(2-3) [OF assms(2)] in \<open>auto split: if_splits\<close>)
next
  case close_flag
  show ?thesis
    by (rule lock_invI) (use close_flag lock_free [OF assms(2)] in \<open>auto split: if_splits\<close>)
next
  case (spawn p)
  show ?thesis
    by (rule lock_invI) (use spawn lock_invD(1,2) [OF assms(2), of t] lock_invD [OF assms(2)] in \<open>auto split: if_splits\<close>)
next
  case close_kill
  show ?thesis
    by (rule lock_invI) (use close_kill lock_invD(3) [OF assms(2), of t] lock_invD [OF assms(2)] in \<open>auto split: if_splits\<close>)
next
  case (sweep x xs)
  show ?thesis
    by (rule lock_invI) (use sweep lock_invD(3) [OF assms(2), of t] lock_invD [OF assms(2)] in \<open>auto split: if_splits\<close>)
next
  case swept
  show ?thesis
    by (rule lock_invI) (use swept lock_invD(3) [OF assms(2), of t] lock_invD [OF assms(2)] in \<open>auto split: if_splits\<close>)
qed (rule lock_invI; use assms(2) lock_invD [OF assms(2)] in \<open>auto split: if_splits\<close>)+

lemma spawned_kept:
  assumes "thread_step t s s'" "t' \<noteq> t"
  shows "gs_pc s' t' = gs_pc s t'"
  using assms by (cases rule: thread_step.cases) auto

lemma accounted_mono:
  assumes "thread_step t s s'" "accounted s r"
  shows "accounted s' r"
proof (cases r)
  case (Led p)
  show ?thesis
  proof (cases "\<exists>t'. t' \<noteq> t \<and> gs_pc s t' = Spawned p")
    case True
    then obtain t' where "t' \<noteq> t" "gs_pc s t' = Spawned p" by blast
    then have "gs_pc s' t' = Spawned p" using spawned_kept [OF assms(1)] by simp
    then show ?thesis unfolding Led accounted.simps by blast
  next
    case False
    with assms(2) Led have "p \<in> set (gs_tracked s) \<or> p \<in> gs_escaped s \<or> p \<in> gs_failed s \<or> gs_pc s t = Spawned p"
      by auto
    with assms(1) show ?thesis unfolding Led
      by (cases rule: thread_step.cases) auto
  qed
next
  case (Loose p)
  with assms(2) have "p \<in> set (gs_solo s)" by simp
  with assms(1) show ?thesis unfolding Loose
    by (cases rule: thread_step.cases) auto
qed

lemma live_roots_thread:
  assumes "thread_step t s s'" "(q, r) \<in> gs_live s'"
  shows "(\<exists>q'. (q', r) \<in> gs_live s) \<or> accounted s' r"
  using assms by (cases rule: thread_step.cases) (auto split: if_splits)

lemma root_inv_thread: "thread_step t s s' \<Longrightarrow> root_inv s \<Longrightarrow> root_inv s'"
  unfolding root_inv_def using live_roots_thread accounted_mono by blast

lemma cleared_closing: "r \<in> cleared pc tr \<Longrightarrow> closing_pc pc"
  by (cases pc) auto

lemma cleared_open:
  assumes "lock_inv s" "\<not> gs_closed s"
  shows "cleared (gs_pc s t) x = {}"
  using assms cleared_closing unfolding lock_inv_def by (metis equals0I)

lemma cleared_inv_open: "lock_inv s \<Longrightarrow> \<not> gs_closed s \<Longrightarrow> cleared_inv s"
  by (simp add: cleared_inv_def cleared_open)

lemma cleared_invD:
  "cleared_inv s \<Longrightarrow> y \<in> gs_live s \<Longrightarrow> x \<in> cleared (gs_pc s t) (targets s) \<Longrightarrow> \<not> hits x y"
  unfolding cleared_inv_def by blast

lemma cleared_inv_thread:
  assumes "thread_step t s s'" "lock_inv s" "cleared_inv s"
  shows "cleared_inv s'"
proof (cases "gs_closed s'")
  case False
  with assms lock_inv_thread show ?thesis by (blast intro: cleared_inv_open)
next
  case True
  have held: "\<not> holds_lock (gs_pc s t)" if "gs_closed s"
    using assms(2) that by (auto simp: lock_inv_def)
  from assms(1) show ?thesis
  proof cases
    case close_flag
    with assms(2) show ?thesis
      by (auto simp: cleared_inv_def cleared_open targets_def)
  next
    case (sweep z zs)
    have mine: "\<not> hits x y" if "y \<in> gs_live s" "x \<in> set (targets s)" "x \<notin> set zs" "x \<noteq> z" for x y
      using cleared_invD [OF assms(3) that(1), of x t] that sweep(2) by simp
    have t: "targets s' = targets s" using sweep(1) by (simp add: targets_def)
    show ?thesis unfolding cleared_inv_def t
    proof (intro allI impI)
      fix u y x
      assume "y \<in> gs_live s'" "x \<in> cleared (gs_pc s' u) (targets s)"
      then show "\<not> hits x y" using mine [of y x] cleared_invD [OF assms(3), of y x u] sweep(1)
        by (cases "u = t"; cases "x = z") simp_all
    qed
  next
    case swept
    have mine: "\<not> hits x y" if "y \<in> gs_live s" "x \<in> set (targets s)" for x y
      using cleared_invD [OF assms(3) that(1), of x t] that swept(2) by simp
    have t: "targets s' = targets s" using swept(1) by (simp add: targets_def)
    show ?thesis unfolding cleared_inv_def t
    proof (intro allI impI)
      fix u y x
      assume "y \<in> gs_live s'" "x \<in> cleared (gs_pc s' u) (targets s)"
      then show "\<not> hits x y" using mine cleared_invD [OF assms(3), of y x u] swept(1)
        by (cases "u = t") auto
    qed
  qed (use True held assms(3) in \<open>auto simp: cleared_inv_def targets_def\<close>)
qed

lemma cleared_targets: "cleared pc ts \<subseteq> set ts"
  by (cases pc) auto

lemma cleared_inv_proc:
  assumes "proc_step s s'" "cleared_inv s"
  shows "cleared_inv s'"
proof -
  have t: "targets s' = targets s" "gs_pc s' = gs_pc s"
    using assms(1) by (cases rule: proc_step.cases, simp_all add: targets_def)+
  have "\<not> hits x y" if x: "x \<in> cleared (gs_pc s u) (targets s)" and y: "y \<in> gs_live s'" for u x y
  proof -
    note old = cleared_invD [OF assms(2) _ x]
    have m: "x \<in> set (targets s)" using x cleared_targets by blast
    show ?thesis using assms(1)
    proof cases
      case (fork q r q')
      with y have "y \<in> gs_live s \<or> y = (q', r)" by auto
      then show ?thesis using old [of y] old [OF fork(2)] fork(4) m by (cases x) auto
    next
      case (exit q r)
      with y old show ?thesis by simp
    next
      case (escape q r)
      with y have "y \<in> gs_live s \<or> y = (q, Led q)" by auto
      then show ?thesis using old [of "(q, r)"] old [of y] escape(2,3) m by (cases x) auto
    qed
  qed
  then show ?thesis unfolding cleared_inv_def t by blast
qed

lemma group_inv_proc:
  assumes "proc_step s s'" "group_inv s"
  shows "group_inv s'"
proof -
  have a: "accounted s r \<Longrightarrow> accounted s' r" for r
    using assms(1) by (cases rule: proc_step.cases; cases r) auto
  have "root_inv s'"
    using assms a
    by (cases rule: proc_step.cases) (auto simp: group_inv_def root_inv_def)
  moreover have "lock_inv s'"
    using assms by (cases rule: proc_step.cases) (auto simp: group_inv_def lock_inv_def)
  moreover have "cleared_inv s'"
    using assms cleared_inv_proc by (simp add: group_inv_def)
  ultimately show ?thesis by (simp add: group_inv_def)
qed

lemma group_inv_step: "group_step s s' \<Longrightarrow> group_inv s \<Longrightarrow> group_inv s'"
  by (elim group_stepE)
    (auto simp: group_inv_def intro: lock_inv_thread root_inv_thread cleared_inv_thread
      dest: group_inv_proc)

lemma group_inv_reach: "group_reach s \<Longrightarrow> group_inv s"
  unfolding group_reach_def by (induction rule: rtranclp_induct) (auto intro: group_inv_init group_inv_step)

section \<open>The operations as steps\<close>

text \<open>
  The concurrent state a sequential group corresponds to, seen by a thread about to run an
  operation on it.
\<close>

definition represents :: "nat \<Rightarrow> gstate \<Rightarrow> group \<Rightarrow> bool" where
  "represents t s g \<longleftrightarrow> gs_closed s = g_closed g \<and> gs_tracked s = map rp_pid (g_procs g)
    \<and> gs_lock s = None \<and> gs_pc s t = Idle"

text \<open>
  What the two have in common: a process is spawned, assigned, or refused by the job and then killed, and
  the whole group is killed.  The calls of an operation and the steps of a thread each give such events.
\<close>

datatype event = EStart pid | EAssign pid | EReject pid | EKillChild pid | EKillAll

fun call_event :: "call \<Rightarrow> event list" where
  "call_event (CStart si so (Some p)) = [EStart p]"
| "call_event (CAssign p ok) = [if ok then EAssign p else EReject p]"
| "call_event (CKillProc p) = [EKillChild p]"
| "call_event CKill = [EKillAll]"
| "call_event _ = []"

definition call_events :: "call list \<Rightarrow> event list" where
  "call_events tr = concat (map call_event tr)"

lemma call_events_simps [simp]:
  "call_events [] = []" "call_events (c # tr) = call_event c @ call_events tr"
  "call_events (tr @ tr') = call_events tr @ call_events tr'"
  by (simp_all add: call_events_def)

fun step_event :: "tpc \<Rightarrow> tpc \<Rightarrow> event list" where
  "step_event Checked (Spawned p) = [EStart p]"
| "step_event (Spawned p) Idle = [EAssign p]"
| "step_event (Spawned p) (Unassigned q) = [EReject p]"
| "step_event (Unassigned p) Idle = [EKillChild p]"
| "step_event (Sweeping xs) Swept = [EKillAll]"
| "step_event _ _ = []"

inductive runs_as :: "nat \<Rightarrow> event list \<Rightarrow> gstate \<Rightarrow> gstate \<Rightarrow> bool" for t where
  stop: "runs_as t [] s s"
| step: "thread_step t s s' \<Longrightarrow> runs_as t evs s' s'' \<Longrightarrow>
    runs_as t (step_event (gs_pc s t) (gs_pc s' t) @ evs) s s''"

lemma runs_step:
  "thread_step t s s' \<Longrightarrow> runs_as t evs s' s'' \<Longrightarrow> evs' = step_event (gs_pc s t) (gs_pc s' t) @ evs \<Longrightarrow>
    runs_as t evs' s s''"
  using runs_as.step by simp

lemma runs_as_steps: "runs_as t evs s s' \<Longrightarrow> (thread_step t)\<^sup>*\<^sup>* s s'"
  by (induction rule: runs_as.induct) (auto intro: converse_rtranclp_into_rtranclp)

lemma failed_start_steps:
  assumes "represents t s g" "\<not> g_closed g"
  shows "\<exists>s'. runs_as t [EStart p, EReject p, EKillChild p] s s' \<and> represents t s' g
    \<and> p \<in> gs_failed s' \<and> (p, Led p) \<notin> gs_live s'"
proof -
  let ?s1 = "s\<lparr>gs_lock := Some t, gs_pc := (gs_pc s)(t := Checked)\<rparr>"
  let ?s2 = "?s1\<lparr>gs_live := insert (p, Led p) (gs_live ?s1), gs_pc := (gs_pc ?s1)(t := Spawned p)\<rparr>"
  let ?s3 = "?s2\<lparr>gs_failed := insert p (gs_failed ?s2), gs_lock := None, gs_pc := (gs_pc ?s2)(t := Unassigned p)\<rparr>"
  let ?s4 = "?s3\<lparr>gs_live := gs_live ?s3 - {(p, Led p)}, gs_pc := (gs_pc ?s3)(t := Idle)\<rparr>"
  have a: "thread_step t s ?s1" using assms by (intro lock_start) (auto simp: represents_def)
  have b: "thread_step t ?s1 ?s2" by (rule spawn) simp
  have c: "thread_step t ?s2 ?s3" by (rule assign_error) simp
  have d: "thread_step t ?s3 ?s4" by (rule kill_child) simp
  have "runs_as t [EStart p, EReject p, EKillChild p] s ?s4"
    by (rule runs_step [OF a runs_step [OF b runs_step [OF c runs_step [OF d runs_as.stop]]]])
      (use assms in \<open>simp_all add: represents_def\<close>)
  then show ?thesis using assms by (intro exI [of _ ?s4]) (simp add: represents_def)
qed

lemma good_start_steps:
  assumes "represents t s g" "\<not> g_closed g"
  shows "\<exists>s'. runs_as t [EStart (rp_pid rp), EAssign (rp_pid rp)] s s'
    \<and> represents t s' (g\<lparr>g_procs := g_procs g @ [rp]\<rparr>) \<and> (rp_pid rp, Led (rp_pid rp)) \<in> gs_live s'"
proof -
  let ?p = "rp_pid rp"
  let ?s1 = "s\<lparr>gs_lock := Some t, gs_pc := (gs_pc s)(t := Checked)\<rparr>"
  let ?s2 = "?s1\<lparr>gs_live := insert (?p, Led ?p) (gs_live ?s1), gs_pc := (gs_pc ?s1)(t := Spawned ?p)\<rparr>"
  let ?s3 = "?s2\<lparr>gs_tracked := gs_tracked ?s2 @ [?p], gs_lock := None, gs_pc := (gs_pc ?s2)(t := Idle)\<rparr>"
  have a: "thread_step t s ?s1" using assms by (intro lock_start) (auto simp: represents_def)
  have b: "thread_step t ?s1 ?s2" by (rule spawn) simp
  have c: "thread_step t ?s2 ?s3" by (rule assign) simp
  have "runs_as t [EStart ?p, EAssign ?p] s ?s3"
    by (rule runs_step [OF a runs_step [OF b runs_step [OF c runs_as.stop]]])
      (use assms in \<open>simp_all add: represents_def\<close>)
  then show ?thesis using assms by (intro exI [of _ ?s3]) (simp add: represents_def)
qed

lemma sweep_steps:
  "gs_pc s t = Sweeping xs \<Longrightarrow> \<exists>s'. runs_as t [EKillAll] s s' \<and> gs_pc s' t = Swept \<and> gs_closed s' = gs_closed s
    \<and> gs_tracked s' = gs_tracked s \<and> gs_solo s' = gs_solo s
    \<and> gs_live s' = {y \<in> gs_live s. \<forall>x\<in>set xs. \<not> hits x y}"
proof (induction xs arbitrary: s)
  case Nil
  let ?s1 = "s\<lparr>gs_pc := (gs_pc s)(t := Swept)\<rparr>"
  have st: "thread_step t s ?s1" using Nil by (intro swept) simp
  have "runs_as t [EKillAll] s ?s1" by (rule runs_step [OF st runs_as.stop]) (simp add: Nil)
  then show ?case by (intro exI [of _ ?s1]) auto
next
  case (Cons x xs)
  let ?s1 = "s\<lparr>gs_live := {y \<in> gs_live s. \<not> hits x y}, gs_pc := (gs_pc s)(t := Sweeping xs)\<rparr>"
  have st: "thread_step t s ?s1" using Cons.prems by (intro sweep) simp
  have "gs_pc ?s1 t = Sweeping xs" by simp
  from Cons.IH [OF this] obtain s' where s': "runs_as t [EKillAll] ?s1 s'" "gs_pc s' t = Swept"
    "gs_closed s' = gs_closed s" "gs_tracked s' = gs_tracked s" "gs_solo s' = gs_solo s"
    "gs_live s' = {y \<in> gs_live ?s1. \<forall>x\<in>set xs. \<not> hits x y}" by auto
  have "runs_as t [EKillAll] s s'" by (rule runs_step [OF st s'(1)]) (simp add: Cons.prems)
  with s'(2-6) show ?case by (intro exI [of _ s']) auto
qed

lemma close_steps:
  assumes "represents t s g" "\<not> g_closed g"
  shows "\<exists>s'. runs_as t [EKillAll] s s' \<and> gs_pc s' t = Swept \<and> gs_closed s'
    \<and> (\<forall>q r. (q, Led r) \<in> gs_live s' \<longrightarrow> r \<notin> rp_pid ` set (g_procs g))"
proof -
  let ?s1 = "s\<lparr>gs_closed := True, gs_pc := (gs_pc s)(t := Flagged)\<rparr>"
  let ?s2 = "?s1\<lparr>gs_pc := (gs_pc ?s1)(t := Sweeping (targets ?s1))\<rparr>"
  have a: "thread_step t s ?s1" using assms by (intro close_flag) (auto simp: represents_def)
  have b: "thread_step t ?s1 ?s2" by (intro close_kill) simp
  have "gs_pc ?s2 t = Sweeping (targets s)" by (simp add: targets_def)
  from sweep_steps [OF this] obtain s' where s': "runs_as t [EKillAll] ?s2 s'" "gs_pc s' t = Swept"
    "gs_closed s' = gs_closed ?s2" "gs_live s' = {y \<in> gs_live ?s2. \<forall>x\<in>set (targets s). \<not> hits x y}" by blast
  have "runs_as t [EKillAll] s s'"
    by (rule runs_step [OF a runs_step [OF b s'(1)]]) (use assms in \<open>simp_all add: represents_def\<close>)
  moreover have "r \<notin> rp_pid ` set (g_procs g)" if "(q, Led r) \<in> gs_live s'" for q r
  proof -
    from that have "\<forall>x\<in>set (targets s). \<not> hits x (q, Led r)" unfolding s'(4) by simp
    then have "Pgrp r \<notin> set (targets s)" using hits.simps(1) by blast
    with assms(1) show ?thesis by (simp add: represents_def)
  qed
  ultimately show ?thesis using s'(2,3) by (intro exI [of _ s']) simp
qed

text \<open>The events of a start.\<close>

definition spawns :: "event list \<Rightarrow> pid list" where
  "spawns evs = concat (map (\<lambda>ev. case ev of EStart p \<Rightarrow> [p] | _ \<Rightarrow> []) evs)"

lemma started_events: "started tr = spawns (call_events tr)"
proof (induction tr)
  case (Cons c tr)
  then show ?case by (cases c rule: call_event.cases) (auto simp: spawns_def)
qed (simp add: spawns_def)

lemma opening_events [simp]: "call_events (opened c) = []" "call_events (closing out err) = []"
  by (simp_all add: opened_def closing_def)

lemma preparePipes_events: "emits_on m_calls (preparePipes G c) m (\<lambda>tr r. call_events tr = [])"
  unfolding emits_on_def preparePipes_def std_pipe_def closePipes_def close_reader_def
  by (auto simp: wp_simps split: option.split)

definition start_events :: "(goerr + running) \<Rightarrow> event list \<Rightarrow> bool" where
  "start_events r evs \<longleftrightarrow> (case r of
     Inr rp \<Rightarrow> evs = [EStart (rp_pid rp), EAssign (rp_pid rp)]
   | Inl e \<Rightarrow> evs = [] \<or> (\<exists>p. evs = [EStart p, EReject p, EKillChild p]))"

lemma group_spawn_events:
  "emits_on m_calls (group_spawn G ctx g iv c) m (\<lambda>tr (r, g'). start_events r (call_events tr))"
  unfolding group_spawn_def emits_on_def Let_def
  by (auto simp: wp_simps os_defs startErr_def closePipes_def close_reader_def start_events_def split: sum.split option.split)

lemma group_Start_events:
  "emits_on m_calls (group_Start G ctx g iv opts) m
    (\<lambda>tr (r, g'). start_events r (call_events tr) \<and> (g_closed g \<longrightarrow> tr = []))"
proof (cases "g_closed g")
  case True
  then show ?thesis by (auto simp: group_Start_def Let_def start_events_def intro!: emits_return)
next
  case False
  have quiet: "start_events (Inl e) []" for e by (simp add: start_events_def)
  from False show ?thesis unfolding group_Start_def Let_def configure_def
  proof (simp only: if_False, intro emits_bind [where P = "\<lambda>tr r. call_events tr = []"], goal_cases)
    case 1
    show ?case by (auto intro!: emits_os_call)
  next
    case (2 tr cfg m1)
    show ?case
    proof (cases cfg)
      case None
      show ?thesis unfolding None option.case
      proof (rule emits_bind [OF preparePipes_events], goal_cases)
        case (1 tr' pp m2)
        show ?case
          by (cases pp) (use 1 2 in \<open>auto intro!: emits_return emits_mono [OF group_spawn_events] simp: quiet\<close>)
      qed
    qed (use 2 in \<open>auto intro!: emits_return simp: quiet\<close>)
  qed
qed

text \<open>
  A run to the end of a close: child 5 is started and forks 7, which leaves the group, and 6 is adopted
  on its own and forks 8; the close then kills the group of 5, and 6.
\<close>

definition demo_running :: gstate where
  "demo_running = gs_init\<lparr>gs_live := {(8, Loose 6), (6, Loose 6), (7, Led 7), (5, Led 5)},
     gs_tracked := [5], gs_solo := [6], gs_escaped := {7}\<rparr>"

lemma reach_thread:
  assumes "group_reach s" "(thread_step t)\<^sup>*\<^sup>* s s'"
  shows "group_reach s'"
  using assms(2)
proof (induction rule: rtranclp_induct)
  case base
  show ?case by (rule assms(1))
next
  case (step y z)
  then show ?case unfolding group_reach_def
    by (meson group_step.thread rtranclp.rtrancl_into_rtrancl)
qed

lemma reach_thread_step: "group_reach s \<Longrightarrow> thread_step t s s' \<Longrightarrow> group_reach s'"
  by (rule reach_thread) auto

lemma reach_process: "group_reach s \<Longrightarrow> proc_step s s' \<Longrightarrow> group_reach s'"
  unfolding group_reach_def by (meson group_step.process rtranclp.rtrancl_into_rtrancl)

lemma demo_running_reach: "group_reach demo_running"
proof -
  let ?s1 = "gs_init\<lparr>gs_lock := Some 0, gs_pc := (gs_pc gs_init)(0 := Checked)\<rparr>"
  let ?s2 = "?s1\<lparr>gs_live := insert (5, Led 5) (gs_live ?s1), gs_pc := (gs_pc ?s1)(0 := Spawned 5)\<rparr>"
  let ?s3 = "?s2\<lparr>gs_tracked := gs_tracked ?s2 @ [5], gs_lock := None, gs_pc := (gs_pc ?s2)(0 := Idle)\<rparr>"
  let ?s4 = "?s3\<lparr>gs_live := insert (7, Led 5) (gs_live ?s3)\<rparr>"
  let ?s5 = "?s4\<lparr>gs_live := insert (7, Led 7) (gs_live ?s4 - {(7, Led 5)}), gs_escaped := insert 7 (gs_escaped ?s4)\<rparr>"
  let ?s6 = "?s5\<lparr>gs_live := (if 6 \<in> fst ` gs_live ?s5 then gs_live ?s5 else insert (6, Loose 6) (gs_live ?s5)),
    gs_solo := gs_solo ?s5 @ [6]\<rparr>"
  let ?s7 = "?s6\<lparr>gs_live := insert (8, Loose 6) (gs_live ?s6)\<rparr>"
  have "group_reach gs_init" by (simp add: group_reach_def)
  moreover have "thread_step 0 gs_init ?s1" by (rule lock_start) (auto simp: gs_init_def)
  ultimately have "group_reach ?s1" by (rule reach_thread_step)
  moreover have "thread_step 0 ?s1 ?s2" by (rule spawn) simp
  ultimately have "group_reach ?s2" by (rule reach_thread_step)
  moreover have "thread_step 0 ?s2 ?s3" by (rule assign) simp
  ultimately have "group_reach ?s3" by (rule reach_thread_step)
  moreover have "proc_step ?s3 ?s4" by (rule fork [where q = 5]) (simp_all add: gs_init_def)
  ultimately have "group_reach ?s4" by (rule reach_process)
  moreover have "proc_step ?s4 ?s5" by (rule escape) (simp_all add: gs_init_def)
  ultimately have "group_reach ?s5" by (rule reach_process)
  moreover have "thread_step 0 ?s5 ?s6" by (rule adopt_solo) (simp_all add: gs_init_def)
  ultimately have "group_reach ?s6" by (rule reach_thread_step)
  moreover have "proc_step ?s6 ?s7" by (rule fork [where q = 6]) (simp_all add: gs_init_def)
  ultimately have "group_reach ?s7" by (rule reach_process)
  moreover have "?s7 = demo_running" by (auto simp: demo_running_def gs_init_def)
  ultimately show ?thesis by simp
qed

lemma demo_swept:
  "\<exists>s. group_reach s \<and> gs_pc s 0 = Swept \<and> gs_closed s \<and> gs_tracked s = [5] \<and> gs_solo s = [6]
    \<and> gs_live s = {(8, Loose 6), (7, Led 7)}"
proof -
  let ?s1 = "demo_running\<lparr>gs_closed := True, gs_pc := (gs_pc demo_running)(0 := Flagged)\<rparr>"
  let ?s2 = "?s1\<lparr>gs_pc := (gs_pc ?s1)(0 := Sweeping (targets ?s1))\<rparr>"
  have a: "thread_step 0 demo_running ?s1" by (rule close_flag) (simp_all add: demo_running_def gs_init_def)
  have b: "thread_step 0 ?s1 ?s2" by (rule close_kill) simp
  have reach: "group_reach ?s2" by (rule reach_thread_step [OF reach_thread_step [OF demo_running_reach a] b])
  have "gs_pc ?s2 0 = Sweeping [Pgrp 5, Single 6]" by (simp add: demo_running_def targets_def)
  from sweep_steps [OF this] obtain s where s: "runs_as 0 [EKillAll] ?s2 s" "gs_pc s 0 = Swept"
    "gs_closed s = gs_closed ?s2" "gs_tracked s = gs_tracked ?s2" "gs_solo s = gs_solo ?s2"
    "gs_live s = {y \<in> gs_live ?s2. \<forall>x\<in>set [Pgrp 5, Single 6]. \<not> hits x y}" by blast
  have "gs_live s = {(8, Loose 6), (7, Led 7)}"
    unfolding s(6) by (auto simp: demo_running_def)
  moreover have "gs_closed s" "gs_tracked s = [5]" "gs_solo s = [6]"
    using s(3-5) by (simp_all add: demo_running_def)
  moreover have "group_reach s" by (rule reach_thread [OF reach runs_as_steps [OF s(1)]])
  ultimately show ?thesis using s(2) by (intro exI [of _ s] conjI)
qed

section \<open>Properties\<close>

text \<open>
  Claim C7. The no-orphan guarantee under concurrency: in every reachable interleaving of starts,
  adoptions, closes and process activity, once a close has finished its kill no process of a tracked
  process group is alive and no process adopted on its own is, and whatever is still alive left its group
  by \<^verbatim>\<open>setsid\<close>, or descends from a child whose assignment failed, or descends from a process adopted on
  its own.
\<close>

theorem close_leaves_no_member:
  assumes "group_reach s" "gs_pc s t = Swept" "(q, r) \<in> gs_live s"
  shows "q \<notin> set (gs_solo s)
    \<and> (case r of
         Led p \<Rightarrow> p \<notin> set (gs_tracked s) \<and> (p \<in> gs_escaped s \<or> p \<in> gs_failed s)
       | Loose p \<Rightarrow> p \<in> set (gs_solo s))"
proof -
  from group_inv_reach [OF assms(1)] have i: "lock_inv s" "root_inv s" "cleared_inv s"
    by (simp_all add: group_inv_def)
  have "\<not> hits x (q, r)" if "x \<in> set (targets s)" for x
    using cleared_invD [OF i(3) assms(3), of x t] that assms(2) by simp
  from this [of "Single q"] this [of "Pgrp p" for p]
  have a: "q \<notin> set (gs_solo s)" "r = Led p \<Longrightarrow> p \<notin> set (gs_tracked s)" for p
    by auto
  have "gs_closed s" using lock_invD(3) [OF i(1), of t] assms(2) by simp
  then have "\<not> holds_lock (gs_pc s t')" for t' using lock_invD(2) [OF i(1)] by blast
  then have "gs_pc s t' \<noteq> Spawned p" for t' p by (metis holds_lock.simps(2))
  moreover have "accounted s r" using i(2) assms(3) unfolding root_inv_def by blast
  ultimately show ?thesis using a by (cases r) auto
qed

theorem close_leaves_no_member_witness:
  "\<exists>s. gs_pc s 0 = Swept \<and> gs_live s = {(8, Loose 6), (7, Led 7)}
    \<and> (8 :: pid) \<notin> set (gs_solo s) \<and> (6 :: pid) \<in> set (gs_solo s) \<and> (7 :: pid) \<notin> set (gs_tracked (s :: gstate))"
proof -
  obtain s where s: "group_reach s" "gs_pc s 0 = Swept" "gs_live s = {(8, Loose 6), (7, Led 7)}"
    using demo_swept by blast
  have "(7 :: pid) \<notin> set (gs_tracked s)"
    using close_leaves_no_member [OF s(1,2), of 7 "Led 7"] s(3) by simp
  moreover have "(8 :: pid) \<notin> set (gs_solo s)" "(6 :: pid) \<in> set (gs_solo s)"
    using close_leaves_no_member [OF s(1,2), of 8 "Loose 6"] s(3) by simp_all
  ultimately show ?thesis using s(2,3) by (intro exI [of _ s] conjI)
qed

text \<open>
  A closed group spawns nothing: no step taken after the flag is set adds a tracked tree, and
  every live process it leaves belongs to a tree that was alive before or has just left its group.
\<close>

theorem closed_group_spawns_nothing:
  assumes "group_reach s" "gs_closed s" "group_step s s'"
  shows "gs_closed s' \<and> gs_tracked s' = gs_tracked s \<and> gs_solo s' = gs_solo s
    \<and> (\<forall>q r. (q, r) \<in> gs_live s' \<longrightarrow> (\<exists>q'. (q', r) \<in> gs_live s) \<or> (\<exists>p \<in> gs_escaped s'. r = Led p))"
proof -
  from group_inv_reach [OF assms(1)] have i: "lock_inv s" by (simp add: group_inv_def)
  then have n: "\<not> holds_lock (gs_pc s t)" for t using lock_invD(2) assms(2) by blast
  from assms(3) show ?thesis
  proof cases
    case (thread t)
    then show ?thesis using n [of t] assms(2) by (cases rule: thread_step.cases) auto
  next
    case process
    then show ?thesis using assms(2) by (cases rule: proc_step.cases) auto
  qed
qed

theorem closed_group_spawns_nothing_witness:
  "\<exists>s s'. group_step s s' \<and> gs_closed s' \<and> gs_tracked s' = [5 :: pid]"
proof -
  obtain s where s: "group_reach s" "gs_closed s" "gs_tracked s = [5]" using demo_swept by blast
  have st: "group_step s (s\<lparr>gs_live := gs_live s - {(7, Led 7)}\<rparr>)" by (intro group_step.process proc_step.exit)
  from closed_group_spawns_nothing [OF s(1,2) st] s(3) st show ?thesis by metis
qed

text \<open>
  Claim C8. The sequential operations refine the step relation, call by call: whatever the platform
  answers, a run of Start from a group the concurrent state represents is matched by steps of its thread
  with the same spawns, assignments, rejections and kills, in the same order, that end in a state
  representing the group it returns, with the started child alive in it, or killed and recorded as failed.
  A run of Close on an open group leaves it closed, having killed the job and then released it, once each;
  when it reports no error its kill is matched by steps that set the flag and after which no member's tree
  is alive; on a closed group it does nothing.
\<close>

theorem start_and_close_refine_steps:
  assumes "represents t s g" "run_state (group_Start G ctx g iv opts) m = ((r, g'), m')"
    "run_state (group_Close G g) n = ((e, gc), n')"
  shows "(\<exists>s' tr. m_calls m' = m_calls m @ tr \<and> runs_as t (call_events tr) s s' \<and> represents t s' g'
      \<and> (case r of
           Inr rp \<Rightarrow> started tr = [rp_pid rp] \<and> (rp_pid rp, Led (rp_pid rp)) \<in> gs_live s'
         | Inl e \<Rightarrow> \<forall>p \<in> set (started tr). p \<in> gs_failed s' \<and> (p, Led p) \<notin> gs_live s'))
    \<and> (if g_closed g then gc = g \<and> n' = n
       else g_closed gc \<and> (\<exists>tr. m_calls n' = m_calls n @ tr \<and> tr = [CKill, CClose]
         \<and> (e = None \<longrightarrow> (\<exists>s'. runs_as t (call_events tr) s s' \<and> gs_pc s' t = Swept \<and> gs_closed s'
              \<and> (\<forall>q r. (q, Led r) \<in> gs_live s' \<longrightarrow> r \<notin> rp_pid ` set (g_procs g))))))"
proof
  from emits_run [OF group_Start_emits assms(2)] obtain tr where
    tr: "m_calls m' = m_calls m @ tr" "start_ok g (start_config opts) tr (r, g')" by blast
  from emits_run [OF group_Start_events assms(2)] tr(1) have
    ev: "start_events r (call_events tr)" "g_closed g \<Longrightarrow> tr = []" by auto
  show "\<exists>s' tr. m_calls m' = m_calls m @ tr \<and> runs_as t (call_events tr) s s' \<and> represents t s' g'
      \<and> (case r of
           Inr rp \<Rightarrow> started tr = [rp_pid rp] \<and> (rp_pid rp, Led (rp_pid rp)) \<in> gs_live s'
         | Inl e \<Rightarrow> \<forall>p \<in> set (started tr). p \<in> gs_failed s' \<and> (p, Led p) \<notin> gs_live s')"
  proof (cases r)
    case (Inr rp)
    with tr(2) ev(1) have "\<not> g_closed g" "g' = g\<lparr>g_procs := g_procs g @ [rp]\<rparr>" "started tr = [rp_pid rp]"
      "call_events tr = [EStart (rp_pid rp), EAssign (rp_pid rp)]"
      by (auto simp: start_ok_def start_events_def)
    with good_start_steps [OF assms(1), of rp] tr(1) Inr show ?thesis by auto
  next
    case (Inl e)
    with tr(2) have g': "g' = g" by (simp add: start_ok_def)
    from Inl ev(1) consider "call_events tr = []" | p where "call_events tr = [EStart p, EReject p, EKillChild p]"
      by (auto simp: start_events_def)
    then show ?thesis
    proof cases
      case 1
      then have "started tr = []" by (simp add: started_events spawns_def)
      with 1 assms(1) g' tr(1) Inl show ?thesis
        by (intro exI [of _ s] exI [of _ tr]) (simp add: runs_as.stop)
    next
      case (2 p)
      then have "started tr = [p]" "\<not> g_closed g" using ev(2) by (auto simp: started_events spawns_def)
      with 2 failed_start_steps [OF assms(1), of p] g' tr(1) Inl show ?thesis by auto
    qed
  qed
next
  show "if g_closed g then gc = g \<and> n' = n
       else g_closed gc \<and> (\<exists>tr. m_calls n' = m_calls n @ tr \<and> tr = [CKill, CClose]
         \<and> (e = None \<longrightarrow> (\<exists>s'. runs_as t (call_events tr) s s' \<and> gs_pc s' t = Swept \<and> gs_closed s'
              \<and> (\<forall>q r. (q, Led r) \<in> gs_live s' \<longrightarrow> r \<notin> rp_pid ` set (g_procs g)))))"
  proof (cases "g_closed g")
    case True
    with assms(3) show ?thesis by (simp add: group_Close_def)
  next
    case False
    from emits_run [OF group_Close_emits assms(3)] False
    have "g_closed gc" "m_calls n' = m_calls n @ [CKill, CClose]" by auto
    with close_steps [OF assms(1) False] False show ?thesis by auto
  qed
qed

theorem start_and_close_refine_steps_witness:
  "\<exists>s' g'. runs_as 0 [EStart 100, EAssign 100] gs_init s' \<and> represents 0 s' g' \<and> map rp_pid (g_procs g') = [100]
    \<and> (100, Led 100) \<in> gs_live s'"
proof -
  let ?g = "\<lparr>g_mechanism = MechanismUnknown, g_log = False, g_procs = [], g_closed = False\<rparr>"
  let ?G = "\<lparr>gp_base = quiet_platform \<lparr>ps_signaled = False, ps_signal = 0, ps_exitCode = 0\<rparr> None,
    gp_signums = \<lparr>sn_USR1 = 10, sn_USR2 = 12\<rparr>,
    gp_newJob = (\<lambda>l w. (Inr Sys_ProcessGroup, w)), gp_stdPipe = (\<lambda>b w. (None, w)),
    gp_closeReader = (\<lambda>b w. w), gp_adopt = (\<lambda>p w. (None, w)), gp_signal = (\<lambda>n w. (None, w)),
    gp_suspend = (\<lambda>w. (None, w)), gp_resume = (\<lambda>w. (None, w)), gp_stats = (\<lambda>w. (Inr stats0, w)),
    gp_newTimer = (\<lambda>d w. ((), w)),
    gp_wake = (\<lambda>c p w. (WakeDone, w)), gp_killProc = (\<lambda>p w. (None, w)), gp_done = (\<lambda>p w. False)\<rparr>"
  have r: "represents 0 gs_init ?g" by (simp add: represents_def gs_init_def)
  obtain rp g' m' where run: "run_state (group_Start ?G 0 ?g inv0 []) (mach0 (0 :: nat)) = ((Inr rp, g'), m')"
    and g': "map rp_pid (g_procs g') = [100]" "rp_pid rp = 100"
      "call_events (m_calls m') = [EStart 100, EAssign 100]"
    by (simp add: group_Start_def start_config_def start_resolve_def startConfig0_def Let_def wantsStdout_def
        wantsStderr_def group_spawn_def preparePipes_def os_defs quiet_platform_def mach0_def log_spawned_def)
  obtain e gc n' where close: "run_state (group_Close ?G ?g) (mach0 (0 :: nat)) = ((e, gc), n')" by (metis surj_pair)
  from start_and_close_refine_steps [OF r run close] g'(2,3)
  obtain s' where "runs_as 0 [EStart 100, EAssign 100] gs_init s'" "represents 0 s' g'" "(100, Led 100) \<in> gs_live s'"
    by (auto simp: mach0_def)
  with g'(1) show ?thesis by (intro exI [of _ s'] exI [of _ g'] conjI)
qed

end
