(* ===== verification/Lifecycle.thy ===== *)
theory Lifecycle
  imports Group
begin

text \<open>
  The life of one started process (\<^verbatim>\<open>running.go\<close>, the end of \<^verbatim>\<open>Group.Start\<close> in \<^verbatim>\<open>group.go\<close> and
  \<^verbatim>\<open>launchDrains\<close> in \<^verbatim>\<open>stream.go\<close>) as a step relation between the starting goroutine, the drains, the
  reaper and any number of goroutines that hold the handle.  The reaper writes the outcome before it
  closes \<^verbatim>\<open>done\<close>, so everybody who waits gets the same answer, after all output has been drained; the line
  channel, however, is written after the handle has become visible to \<^verbatim>\<open>Processes\<close>.
\<close>

section \<open>States\<close>

text \<open>
  Where \<^verbatim>\<open>Start\<close> is: the child is spawned and assigned, the handle is in the group, the line channel is
  set, the drains run, and the reaper runs and the handle is returned.
\<close>

datatype starter = Spawned | Registered | LinesSet | Launched | Returned

datatype reaper =
    NotRunning
  | Draining
  | Waited "processState option" "goerr option"
  | Stored
  | LinesClosed
  | Closed

datatype lineChan = NoChan | OpenChan | ClosedChan

text \<open>The shared fields of the handle, and as ghosts what its holders have been answered.\<close>

record life =
  lf_starter :: starter
  lf_reaper :: reaper
  lf_lines :: lineChan
  lf_drains :: nat
  lf_outcome :: outcome
  lf_waitErr :: "goerr option"
  lf_done :: bool
  lf_waits :: "(outcome \<times> goerr option) list"
  lf_seen :: "(bool \<times> lineChan) list"

definition life0 :: life where
  "life0 = \<lparr>lf_starter = Spawned, lf_reaper = NotRunning, lf_lines = NoChan, lf_drains = 0,
     lf_outcome = outcome_zero, lf_waitErr = None, lf_done = False, lf_waits = [], lf_seen = []\<rparr>"

text \<open>The pipes of a start that are drained.\<close>

definition drain_count :: "startConfig \<Rightarrow> nat" where
  "drain_count c = (if wantsStdout c then 1 else 0) + (if wantsStderr c then 1 else 0)"

text \<open>\<^verbatim>\<open>Lines\<close> on the field it reads: without a channel it answers one that is closed.\<close>

definition Lines :: "lineChan \<Rightarrow> lineChan" where
  "Lines l = (if l = NoChan then ClosedChan else l)"

text \<open>What \<^verbatim>\<open>reap\<close> stores, from what \<^verbatim>\<open>cmd.Wait\<close> left.\<close>

definition reap_store :: "'w platform \<Rightarrow> processState option \<Rightarrow> goerr option \<Rightarrow> life \<Rightarrow> life" where
  "reap_store P ps err s =
    (case (ps, err) of
       (Some st, _) \<Rightarrow> s\<lparr>lf_outcome := outcomeOf P st\<rparr>
     | (None, Some e) \<Rightarrow> s\<lparr>lf_waitErr := Some e\<rparr>
     | (None, None) \<Rightarrow> s\<lparr>lf_outcome := exited 0\<rparr>)"

text \<open>The same as the two fields it leaves on a handle that was not reaped before.\<close>

definition verdict :: "'w platform \<Rightarrow> processState option \<Rightarrow> goerr option \<Rightarrow> outcome \<times> goerr option" where
  "verdict P ps err = (lf_outcome (reap_store P ps err life0), lf_waitErr (reap_store P ps err life0))"

section \<open>Steps\<close>

text \<open>
  A handle is held by whoever got it from \<^verbatim>\<open>Processes\<close>, once it is registered, or from \<^verbatim>\<open>Start\<close>, once that
  has returned; \<open>read_lines\<close> records which of the two was possible.
\<close>

inductive life_step :: "'w platform \<Rightarrow> startConfig \<Rightarrow> life \<Rightarrow> life \<Rightarrow> bool" for P c where
  register: "lf_starter s = Spawned \<Longrightarrow> life_step P c s (s\<lparr>lf_starter := Registered\<rparr>)"
| set_lines: "lf_starter s = Registered \<Longrightarrow>
    life_step P c s (s\<lparr>lf_starter := LinesSet, lf_lines := (if sc_streamLines c then OpenChan else NoChan)\<rparr>)"
| launch: "lf_starter s = LinesSet \<Longrightarrow> life_step P c s (s\<lparr>lf_starter := Launched, lf_drains := drain_count c\<rparr>)"
| go_reap: "lf_starter s = Launched \<Longrightarrow> life_step P c s (s\<lparr>lf_starter := Returned, lf_reaper := Draining\<rparr>)"
| drain_ends: "0 < lf_drains s \<Longrightarrow> life_step P c s (s\<lparr>lf_drains := lf_drains s - 1\<rparr>)"
| wait: "lf_reaper s = Draining \<Longrightarrow> lf_drains s = 0 \<Longrightarrow> life_step P c s (s\<lparr>lf_reaper := Waited ps err\<rparr>)"
| store: "lf_reaper s = Waited ps err \<Longrightarrow> life_step P c s ((reap_store P ps err s)\<lparr>lf_reaper := Stored\<rparr>)"
| close_lines: "lf_reaper s = Stored \<Longrightarrow>
    life_step P c s (s\<lparr>lf_reaper := LinesClosed, lf_lines := (if lf_lines s = NoChan then NoChan else ClosedChan)\<rparr>)"
| close_done: "lf_reaper s = LinesClosed \<Longrightarrow> life_step P c s (s\<lparr>lf_reaper := Closed, lf_done := True\<rparr>)"
| read_outcome: "lf_done s \<Longrightarrow>
    life_step P c s (s\<lparr>lf_waits := lf_waits s @ [(lf_outcome s, lf_waitErr s)]\<rparr>)"
| read_lines: "lf_starter s \<noteq> Spawned \<Longrightarrow>
    life_step P c s (s\<lparr>lf_seen := lf_seen s @ [(lf_starter s = Returned, Lines (lf_lines s))]\<rparr>)"

inductive_cases life_stepE: "life_step P c s s'"

definition life_reach :: "'w platform \<Rightarrow> startConfig \<Rightarrow> life \<Rightarrow> bool" where
  "life_reach P c = (life_step P c)\<^sup>*\<^sup>* life0"

section \<open>The invariant\<close>

fun starter_rank :: "starter \<Rightarrow> nat" where
  "starter_rank Spawned = 4"
| "starter_rank Registered = 3"
| "starter_rank LinesSet = 2"
| "starter_rank Launched = 1"
| "starter_rank Returned = 0"

fun reaper_rank :: "reaper \<Rightarrow> nat" where
  "reaper_rank NotRunning = 5"
| "reaper_rank Draining = 4"
| "reaper_rank (Waited ps err) = 3"
| "reaper_rank Stored = 2"
| "reaper_rank LinesClosed = 1"
| "reaper_rank Closed = 0"

text \<open>The phases of a start in the order it goes through them.\<close>

instantiation starter :: linorder
begin

definition less_eq_starter :: "starter \<Rightarrow> starter \<Rightarrow> bool" where
  "less_eq_starter x y \<longleftrightarrow> starter_rank y \<le> starter_rank x"

definition less_starter :: "starter \<Rightarrow> starter \<Rightarrow> bool" where
  "less_starter x y \<longleftrightarrow> starter_rank y < starter_rank x"

instance
proof
  show "x \<le> y \<Longrightarrow> y \<le> x \<Longrightarrow> x = y" for x y :: starter
    by (cases x; cases y) (simp_all add: less_eq_starter_def)
qed (auto simp: less_eq_starter_def less_starter_def)

end

lemmas starter_order [simp] = less_eq_starter_def less_starter_def

text \<open>Where the two goroutines can be, what the fields then hold, and what has been answered so far.\<close>

definition control_inv :: "life \<Rightarrow> bool" where
  "control_inv s \<longleftrightarrow>
    (lf_reaper s = NotRunning) = (lf_starter s \<noteq> Returned)
    \<and> lf_done s = (lf_reaper s = Closed)
    \<and> (reaper_rank (lf_reaper s) < 4 \<or> lf_starter s < Launched \<longrightarrow> lf_drains s = 0)"

definition field_inv :: "'w platform \<Rightarrow> startConfig \<Rightarrow> life \<Rightarrow> bool" where
  "field_inv P c s \<longleftrightarrow>
    (reaper_rank (lf_reaper s) \<le> 2 \<longrightarrow> (\<exists>ps err. (lf_outcome s, lf_waitErr s) = verdict P ps err)) \<and>
    (2 < reaper_rank (lf_reaper s) \<longrightarrow> lf_outcome s = outcome_zero \<and> lf_waitErr s = None)
    \<and> lf_lines s = (if lf_starter s < LinesSet \<or> \<not> sc_streamLines c then NoChan
        else if reaper_rank (lf_reaper s) \<le> 1 then ClosedChan else OpenChan)"

definition answer_inv :: "startConfig \<Rightarrow> life \<Rightarrow> bool" where
  "answer_inv c s \<longleftrightarrow>
    (lf_waits s \<noteq> [] \<longrightarrow> lf_done s)
    \<and> (\<forall>a\<in>set (lf_waits s). a = (lf_outcome s, lf_waitErr s))
    \<and> (\<forall>x\<in>set (lf_seen s). fst x \<longrightarrow> sc_streamLines c \<longrightarrow>
          snd x = OpenChan \<or> (snd x = ClosedChan \<and> reaper_rank (lf_reaper s) \<le> 1))"

lemma reap_store_fields [simp]:
  "lf_starter (reap_store P ps err s) = lf_starter s" "lf_reaper (reap_store P ps err s) = lf_reaper s"
  "lf_lines (reap_store P ps err s) = lf_lines s" "lf_drains (reap_store P ps err s) = lf_drains s"
  "lf_done (reap_store P ps err s) = lf_done s" "lf_waits (reap_store P ps err s) = lf_waits s"
  "lf_seen (reap_store P ps err s) = lf_seen s"
  by (simp_all add: reap_store_def split: option.split)

lemma start_goes_forward: "life_step P c s s' \<Longrightarrow> lf_starter s \<le> lf_starter s'"
  by (erule life_stepE) simp_all

lemma store_verdict:
  "lf_outcome s = outcome_zero \<Longrightarrow> lf_waitErr s = None \<Longrightarrow>
    (lf_outcome (reap_store P ps err s), lf_waitErr (reap_store P ps err s)) = verdict P ps err"
  by (simp add: reap_store_def verdict_def life0_def split: option.split)

lemma control_step: "life_step P c s s' \<Longrightarrow> control_inv s \<Longrightarrow> control_inv s'"
  by (erule life_stepE) (simp_all add: control_inv_def, auto?)

lemma field_step:
  assumes "life_step P c s s'" "control_inv s" "field_inv P c s"
  shows "field_inv P c s'"
  using assms(1)
proof (cases rule: life_step.cases)
  case (store ps err)
  with assms(2,3) store_verdict [of s P ps err] show ?thesis
    by (auto simp: control_inv_def field_inv_def)
qed (use assms(2,3) in \<open>simp_all add: control_inv_def field_inv_def split: if_splits, auto?\<close>)

lemma answer_step:
  "life_step P c s s' \<Longrightarrow> control_inv s \<Longrightarrow> field_inv P c s \<Longrightarrow> answer_inv c s \<Longrightarrow> answer_inv c s'"
  by (erule life_stepE) (simp_all add: control_inv_def field_inv_def answer_inv_def Lines_def split: if_splits, auto?)

lemma life_invs:
  assumes "life_reach P c s"
  shows "control_inv s \<and> field_inv P c s \<and> answer_inv c s"
  using assms unfolding life_reach_def
proof (induction rule: rtranclp_induct)
  case base
  show ?case by (simp add: life0_def control_inv_def field_inv_def answer_inv_def)
next
  case (step s s')
  then show ?case using control_step field_step answer_step by blast
qed

lemma outcome_stable:
  assumes "(life_step P c)\<^sup>*\<^sup>* s s'" "life_reach P c s" "lf_done s"
  shows "lf_done s' \<and> lf_outcome s' = lf_outcome s \<and> lf_waitErr s' = lf_waitErr s"
  using assms(1)
proof (induction rule: rtranclp_induct)
  case (step t u)
  have "life_reach P c t" using assms(2) step.hyps(1) unfolding life_reach_def by (rule rtranclp_trans)
  then have "control_inv t" using life_invs by blast
  with step.hyps(2) step.IH show ?case
    by (elim life_stepE) (simp_all add: control_inv_def)
qed (use assms(3) in simp)

section \<open>Progress\<close>

text \<open>The steps of the program itself, as opposed to those of the holders of the handle.\<close>

definition life_work :: "life \<Rightarrow> nat" where
  "life_work s = 3 * starter_rank (lf_starter s) + lf_drains s + reaper_rank (lf_reaper s)"

lemma work_bounds: "life_step P c s s' \<Longrightarrow> control_inv s \<Longrightarrow> life_work s' \<le> life_work s"
  by (erule life_stepE) (simp_all add: control_inv_def life_work_def drain_count_def)

lemma progressI:
  "life_step P c s s' \<Longrightarrow> life_work s' < life_work s \<Longrightarrow> \<exists>s'. life_step P c s s' \<and> life_work s' < life_work s"
  by blast

lemma reap_progress:
  assumes "control_inv s" "\<not> lf_done s" "lf_starter s = Returned" "lf_drains s = 0"
  shows "\<exists>s'. life_step P c s s' \<and> life_work s' < life_work s"
proof (cases "lf_reaper s")
  case Draining
  with assms show ?thesis
    by (intro progressI [OF life_step.wait [where ps = None and err = None]]) (simp_all add: life_work_def)
next
  case (Waited ps err)
  then show ?thesis by (intro progressI [OF life_step.store]) (assumption, simp add: life_work_def)
next
  case Stored
  then show ?thesis by (intro progressI [OF life_step.close_lines]) (simp_all add: life_work_def)
next
  case LinesClosed
  then show ?thesis by (intro progressI [OF life_step.close_done]) (simp_all add: life_work_def)
qed (use assms in \<open>simp_all add: control_inv_def\<close>)

lemma life_progress:
  assumes "control_inv s" "\<not> lf_done s"
  shows "\<exists>s'. life_step P c s s' \<and> life_work s' < life_work s"
proof (cases "lf_starter s")
  case Spawned
  then show ?thesis by (intro progressI [OF life_step.register]) (simp_all add: life_work_def)
next
  case Registered
  then show ?thesis by (intro progressI [OF life_step.set_lines]) (simp_all add: life_work_def)
next
  case LinesSet
  with assms show ?thesis
    by (intro progressI [OF life_step.launch]) (simp_all add: life_work_def control_inv_def drain_count_def)
next
  case Launched
  with assms show ?thesis
    by (intro progressI [OF life_step.go_reap]) (simp_all add: life_work_def control_inv_def)
next
  case Returned
  show ?thesis
  proof (cases "lf_drains s = 0")
    case False
    then show ?thesis by (intro progressI [OF life_step.drain_ends]) (simp_all add: life_work_def)
  next
    case True
    with assms Returned show ?thesis by (rule reap_progress)
  qed
qed

lemma life_completes:
  assumes "control_inv s"
  shows "\<exists>s'. (life_step P c)\<^sup>*\<^sup>* s s' \<and> lf_done s'"
  using assms
proof (induction "life_work s" arbitrary: s rule: less_induct)
  case less
  show ?case
  proof (cases "lf_done s")
    case False
    then obtain t where t: "life_step P c s t" "life_work t < life_work s"
      using life_progress [OF less.prems] by blast
    from less.hyps [OF t(2) control_step [OF t(1) less.prems]] t(1) show ?thesis
      by (meson converse_rtranclp_into_rtranclp)
  qed blast
qed

section \<open>The sequential reaper\<close>

text \<open>What \<open>reap_store\<close> writes is what the reaper of the machine answers for the same wait.\<close>

lemma reap_stores_verdict:
  assumes "p_wait P (rp_pid rp) (m_world m) = ((ps, err), w)"
  shows "(re_outcome (fst (run_state (reap P rp) m)), re_waitErr (fst (run_state (reap P rp) m))) = verdict P ps err"
  using assms
  by (simp add: reap_def verdict_def reap_store_def life0_def outcome_zero_def exited_def cmd_Wait_def os_call_def
      time_now_def log_events_def run_state_bind split: option.split prod.split)

section \<open>Properties\<close>

lemma reach_trans: "life_reach P c s \<Longrightarrow> (life_step P c)\<^sup>*\<^sup>* s s' \<Longrightarrow> life_reach P c s'"
  unfolding life_reach_def by (rule rtranclp_trans)

lemma reach_step: "life_reach P c s \<Longrightarrow> life_step P c s s' \<Longrightarrow> life_reach P c s'"
  unfolding life_reach_def by (rule rtranclp.rtrancl_into_rtrancl)

lemma reach_start: "life_reach P c life0"
  unfolding life_reach_def by simp

text \<open>
  A streaming life step by step: a look at the channel while \<^verbatim>\<open>Start\<close> still runs, the two drains, the
  reaper, and two answered waits.
\<close>

definition watched :: life where
  "watched = life0\<lparr>lf_starter := Registered, lf_seen := [(False, ClosedChan)]\<rparr>"

lemma watched_reachable: "life_reach P c watched"
proof -
  have 1: "life_reach P c (life0\<lparr>lf_starter := Registered\<rparr>)"
    by (rule reach_step [OF reach_start life_step.register]) (simp add: life0_def)
  from reach_step [OF 1 life_step.read_lines] show ?thesis
    by (simp add: watched_def life0_def Lines_def)
qed

definition drained :: life where
  "drained = watched\<lparr>lf_starter := Returned, lf_reaper := Draining, lf_lines := OpenChan\<rparr>"

lemma drained_reachable:
  assumes "sc_streamLines c"
  shows "life_reach P c drained"
proof -
  note s = watched_def life0_def drained_def drain_count_def wantsStdout_def wantsStderr_def assms
  from reach_step [OF watched_reachable [of P c] life_step.set_lines]
  have "life_reach P c (watched\<lparr>lf_starter := LinesSet, lf_lines := OpenChan\<rparr>)" by (simp add: s)
  from reach_step [OF this life_step.launch]
  have "life_reach P c (watched\<lparr>lf_starter := Launched, lf_lines := OpenChan, lf_drains := 2\<rparr>)" by (simp add: s numeral_2_eq_2)
  from reach_step [OF this life_step.drain_ends]
  have "life_reach P c (watched\<lparr>lf_starter := Launched, lf_lines := OpenChan, lf_drains := 1\<rparr>)" by (simp add: s)
  from reach_step [OF this life_step.go_reap]
  have "life_reach P c (watched\<lparr>lf_starter := Returned, lf_reaper := Draining, lf_lines := OpenChan, lf_drains := 1\<rparr>)"
    by (simp add: s)
  from reach_step [OF this life_step.drain_ends] show ?thesis by (simp add: s)
qed

definition ended :: "'w platform \<Rightarrow> processState \<Rightarrow> nat \<Rightarrow> life" where
  "ended P ps n =
    drained\<lparr>lf_reaper := Closed, lf_lines := ClosedChan, lf_done := True, lf_outcome := outcomeOf P ps,
      lf_waits := replicate n (outcomeOf P ps, None)\<rparr>"

lemma ended_reachable:
  assumes "sc_streamLines c"
  shows "life_reach P c (ended P ps n)"
proof (induction n)
  case 0
  note s = watched_def life0_def drained_def ended_def reap_store_def
  from reach_step [OF drained_reachable [OF assms] life_step.wait [where ps = "Some ps" and err = None]]
  have "life_reach P c (drained\<lparr>lf_reaper := Waited (Some ps) None\<rparr>)" by (simp add: s)
  from reach_step [OF this life_step.store]
  have "life_reach P c (drained\<lparr>lf_reaper := Stored, lf_outcome := outcomeOf P ps\<rparr>)" by (simp add: s)
  from reach_step [OF this life_step.close_lines]
  have "life_reach P c (drained\<lparr>lf_reaper := LinesClosed, lf_lines := ClosedChan, lf_outcome := outcomeOf P ps\<rparr>)"
    by (simp add: s)
  from reach_step [OF this life_step.close_done] show ?case by (simp add: s)
next
  case (Suc n)
  from reach_step [OF this life_step.read_outcome] show ?case
    by (simp add: watched_def life0_def drained_def ended_def replicate_append_same)
qed

lemma ended_later: "(life_step P c)\<^sup>*\<^sup>* (ended P ps n) (ended P ps (n + k))"
proof (induction k)
  case (Suc k)
  have "life_step P c (ended P ps (n + k)) (ended P ps (n + Suc k))"
    using life_step.read_outcome [of "ended P ps (n + k)" P c]
    by (simp add: watched_def life0_def drained_def ended_def replicate_append_same)
  with Suc show ?case by (rule rtranclp.rtrancl_into_rtrancl)
qed simp

text \<open>
  Claim C27. Everybody who waits for a process is told the same: whatever wait is answered, before or
  later, by \<^verbatim>\<open>Wait\<close>, \<^verbatim>\<open>WaitAny\<close> or \<^verbatim>\<open>WaitAll\<close>, the answer is what \<^verbatim>\<open>reap\<close> made of the one result of
  \<^verbatim>\<open>cmd.Wait\<close>, and it is given only when every output pipe has been drained and the line channel closed.
\<close>

theorem all_waiters_agree:
  assumes "life_reach P c s" "(life_step P c)\<^sup>*\<^sup>* s s'" "a \<in> set (lf_waits s)" "b \<in> set (lf_waits s')"
  shows "a = b \<and> (\<exists>ps err. a = verdict P ps err) \<and> lf_drains s = 0 \<and> lf_lines s \<noteq> OpenChan"
proof -
  have i: "control_inv s" "field_inv P c s" "answer_inv c s" using life_invs [OF assms(1)] by auto
  with assms(3) have d: "lf_done s" and a: "a = (lf_outcome s, lf_waitErr s)" by (auto simp: answer_inv_def)
  from life_invs [OF reach_trans [OF assms(1,2)]] assms(4)
  have "b = (lf_outcome s', lf_waitErr s')" by (auto simp: answer_inv_def)
  moreover have "\<exists>ps err. (lf_outcome s, lf_waitErr s) = verdict P ps err" "lf_drains s = 0" "lf_lines s \<noteq> OpenChan"
    using i d by (simp_all add: control_inv_def field_inv_def)
  ultimately show ?thesis using a outcome_stable [OF assms(2,1) d] by simp
qed

definition exit3 :: processState where
  "exit3 = \<lparr>ps_signaled = False, ps_signal = 0, ps_exitCode = 3\<rparr>"

lemma streaming_start: "sc_streamLines (start_config [StreamLines])"
  by (simp add: start_config_def start_resolve_def startConfig0_def StreamLines_def Let_def)

theorem all_waiters_agree_witness:
  "\<exists>(s::life) (s'::life). length (lf_waits s) = 1 \<and> length (lf_waits s') = 2
    \<and> hd (lf_waits s) = (exited 3, None) \<and> last (lf_waits s') = hd (lf_waits s)"
proof -
  let ?e = "ended (quiet_platform exit3 None) exit3"
  have "hd (lf_waits (?e 1)) \<in> set (lf_waits (?e 1))" "last (lf_waits (?e 2)) \<in> set (lf_waits (?e 2))"
    by (simp_all add: ended_def numeral_2_eq_2)
  moreover have "(life_step (quiet_platform exit3 None) (start_config [StreamLines]))\<^sup>*\<^sup>* (?e 1) (?e 2)"
    using ended_later [where n = 1 and k = 1] by (simp add: numeral_2_eq_2)
  ultimately have "hd (lf_waits (?e 1)) = last (lf_waits (?e 2))"
    using all_waiters_agree [OF ended_reachable [OF streaming_start]] by blast
  moreover have "length (lf_waits (?e 1)) = 1" "length (lf_waits (?e 2)) = 2" "hd (lf_waits (?e 1)) = (exited 3, None)"
    by (simp_all add: ended_def quiet_platform_def exit3_def outcomeOf_def outcomeOf_unix_def)
  ultimately show ?thesis by metis
qed

text \<open>
  Whoever holds the handle because \<^verbatim>\<open>Start\<close> returned it finds the line channel of a streaming
  start open until the output has been drained and the outcome recorded; but a handle taken from
  \<^verbatim>\<open>Processes\<close> while \<^verbatim>\<open>Start\<close> is still running can be told a closed channel before a single byte has been
  read, because the channel is created after the handle has been made visible.
\<close>

theorem lines_of_a_fresh_handle:
  assumes "sc_streamLines c"
  shows "(\<exists>s. life_reach P c s \<and> (False, ClosedChan) \<in> set (lf_seen s) \<and> lf_starter s = Registered)
    \<and> (\<forall>s l. life_reach P c s \<and> (True, l) \<in> set (lf_seen s) \<longrightarrow>
        l = OpenChan \<or>
        (l = ClosedChan \<and> lf_drains s = 0 \<and> (\<exists>ps err. (lf_outcome s, lf_waitErr s) = verdict P ps err)))"
proof (intro conjI allI impI)
  show "\<exists>s. life_reach P c s \<and> (False, ClosedChan) \<in> set (lf_seen s) \<and> lf_starter s = Registered"
    by (rule exI [of _ watched]) (simp add: watched_reachable, simp add: watched_def)
next
  fix s l assume "life_reach P c s \<and> (True, l) \<in> set (lf_seen s)"
  then have r: "life_reach P c s" and l: "(True, l) \<in> set (lf_seen s)" by auto
  from life_invs [OF r] have i: "control_inv s" "field_inv P c s" "answer_inv c s" by auto
  from i(3) l assms have "l = OpenChan \<or> l = ClosedChan \<and> reaper_rank (lf_reaper s) \<le> 1"
    by (auto simp: answer_inv_def)
  with i(1,2) show "l = OpenChan \<or>
      (l = ClosedChan \<and> lf_drains s = 0 \<and> (\<exists>ps err. (lf_outcome s, lf_waitErr s) = verdict P ps err))"
    by (auto simp: control_inv_def field_inv_def)
qed

theorem lines_of_a_fresh_handle_witness:
  "\<exists>s. life_reach (quiet_platform exit3 None) (start_config [StreamLines]) s
    \<and> (False, ClosedChan) \<in> set (lf_seen s) \<and> lf_starter s = Registered"
  using lines_of_a_fresh_handle [OF streaming_start] by blast

text \<open>
  A start never leaves its handle waiting for ever on the program's own account: from every
  reachable state the starting goroutine, the drains and the reaper alone can go on to close \<^verbatim>\<open>done\<close>, and
  no step, of whoever holds the handle, adds to the work that is left.
\<close>

theorem handle_completes:
  assumes "life_reach P c s"
  shows "(\<exists>s'. (life_step P c)\<^sup>*\<^sup>* s s' \<and> lf_done s')
    \<and> (\<forall>s'. life_step P c s s' \<longrightarrow> life_work s' \<le> life_work s)"
  using life_completes [of s P c] work_bounds [of P c s] life_invs [OF assms] by blast

theorem handle_completes_witness:
  "\<exists>s'. (life_step (quiet_platform exit3 None) (start_config []))\<^sup>*\<^sup>* watched s' \<and> lf_done s'"
  using handle_completes [OF watched_reachable] by blast

end
