(* ===== verification/Proc.thy ===== *)
theory Proc
  imports SysArith GoFloat Outcome
begin

text \<open>
  The readings of the platform layer: \<^verbatim>\<open>/proc\<close> and cgroup files on Linux (\<^verbatim>\<open>proc_linux.go\<close> and the
  parsers of \<^verbatim>\<open>job_linux.go\<close>) and the conversions of a CPU quota (\<^verbatim>\<open>cpuMaxValue\<close>,
  \<^verbatim>\<open>cpuHardCapRate\<close>).  The content of a file is an argument, absent when \<^verbatim>\<open>os.ReadFile\<close> fails.  The
  first section adds the string functions these parsers use.
\<close>

section \<open>Fields and integers\<close>

text \<open>\<^verbatim>\<open>strings.Fields\<close>: the maximal runs of runes that are not white space.\<close>

definition emit_field :: "bytes \<Rightarrow> bytes list" where
  "emit_field cur = (if cur = [] then [] else [cur])"

function fields_from :: "bytes \<Rightarrow> bytes \<Rightarrow> bytes list" where
  "fields_from cur s =
    (if s = [] then emit_field cur
     else case decode_rune s of
         (r, n) \<Rightarrow> if is_space r then emit_field cur @ fields_from [] (drop n s)
                  else fields_from (cur @ take n s) (drop n s))"
  by pat_completeness auto
termination
  by (relation "measure (\<lambda>(cur, s). length s)")
    (auto dest: decode_rune_size simp: Suc_le_eq, (metis decode_rune_size diff_less length_greater_0_conv
      less_eq_Suc_le One_nat_def snd_conv)+)

declare fields_from.simps [simp del]

definition str_fields :: "bytes \<Rightarrow> bytes list" where
  "str_fields s = fields_from [] s"

definition is_digit :: "char \<Rightarrow> bool" where
  "is_digit c \<longleftrightarrow> 48 \<le> byte c \<and> byte c \<le> 57"

fun digits_from :: "nat \<Rightarrow> bytes \<Rightarrow> nat option" where
  "digits_from v [] = Some v"
| "digits_from v (c # s) = (if is_digit c then digits_from (v * 10 + (byte c - 48)) s else None)"

definition digits_value :: "bytes \<Rightarrow> nat option" where
  "digits_value s = (if s = [] then None else digits_from 0 s)"

text \<open>\<^verbatim>\<open>strconv.ParseUint(s, 10, 64)\<close>; an out-of-range value is an error.\<close>

definition parse_uint :: "bytes \<Rightarrow> nat option" where
  "parse_uint s =
    (case digits_value s of None \<Rightarrow> None | Some v \<Rightarrow> if v < 2 ^ 64 then Some v else None)"

text \<open>\<^verbatim>\<open>strconv.ParseInt(s, 10, 64)\<close> and, on a 64-bit target, \<^verbatim>\<open>strconv.Atoi\<close>.\<close>

definition parse_int :: "bytes \<Rightarrow> int option" where
  "parse_int s =
    (let neg = (s \<noteq> [] \<and> hd s = CHR ''-'');
         body = (if s \<noteq> [] \<and> (hd s = CHR ''-'' \<or> hd s = CHR ''+'') then tl s else s)
     in case digits_value body of
          None \<Rightarrow> None
        | Some v \<Rightarrow> if neg then (if v \<le> 2 ^ 63 then Some (- int v) else None)
                    else (if v < 2 ^ 63 then Some (int v) else None))"

text \<open>\<^verbatim>\<open>strings.CutPrefix\<close>.\<close>

definition cut_prefix :: "bytes \<Rightarrow> bytes \<Rightarrow> bytes option" where
  "cut_prefix p s = (if take (length p) s = p then Some (drop (length p) s) else None)"

text \<open>What follows the last occurrence of a byte (\<^verbatim>\<open>strings.LastIndexByte\<close> and a slice).\<close>

definition after_last :: "char \<Rightarrow> bytes \<Rightarrow> bytes option" where
  "after_last c s = (if c \<in> set s then Some (rev (takeWhile (\<lambda>x. x \<noteq> c) (rev s))) else None)"

section \<open>Process metrics\<close>

definition userHZ :: nat where
  "userHZ = 100"

text \<open>\<^verbatim>\<open>procCPUTime\<close>, given \<^verbatim>\<open>/proc/<pid>/stat\<close>.\<close>

definition procCPUTime :: "bytes option \<Rightarrow> int64 option" where
  "procCPUTime file =
    (case file of None \<Rightarrow> None
     | Some s \<Rightarrow>
    (case after_last (CHR '')'') s of None \<Rightarrow> None
     | Some tail \<Rightarrow>
    (let fs = str_fields tail
     in if length fs < 13 then None
        else case (parse_int (fs ! 11), parse_int (fs ! 12)) of
            (Some utime, Some stime) \<Rightarrow>
              if utime < 0 \<or> stime < 0 then None
              else
                (let ticks = word_of_int utime + word_of_int stime;
                     ticks' = (if s_less ticks 0 then max_int64 else ticks)
                 in Some (nanosFromUnit ticks' (word_of_nat (1000000000 div userHZ))))
          | _ \<Rightarrow> None)))"

fun peakRSS_lines :: "bytes list \<Rightarrow> uint64 option" where
  "peakRSS_lines [] = None"
| "peakRSS_lines (l # ls) =
    (case cut_prefix ''VmHWM:'' l of
       None \<Rightarrow> peakRSS_lines ls
     | Some rest \<Rightarrow>
         (case str_fields rest of
            [] \<Rightarrow> None
          | f # _ \<Rightarrow>
              (case parse_uint f of
                 None \<Rightarrow> None
               | Some kb \<Rightarrow> Some (saturatingMulU64 (word_of_nat kb) 1024))))"

text \<open>\<^verbatim>\<open>procPeakRSS\<close>, given \<^verbatim>\<open>/proc/<pid>/status\<close>.\<close>

definition procPeakRSS :: "bytes option \<Rightarrow> uint64 option" where
  "procPeakRSS file = (case file of None \<Rightarrow> None | Some s \<Rightarrow> peakRSS_lines (split_on LF s))"

record procMetrics =
  pm_cpu :: "int64 option"
  pm_mem :: "uint64 option"

text \<open>\<^verbatim>\<open>processMetrics\<close> on Linux, given the two files; and on macOS and the BSDs.\<close>

definition processMetrics_linux :: "bytes option \<Rightarrow> bytes option \<Rightarrow> procMetrics" where
  "processMetrics_linux stat_file status_file =
    \<lparr>pm_cpu = procCPUTime stat_file, pm_mem = procPeakRSS status_file\<rparr>"

definition processMetrics_bsd :: procMetrics where
  "processMetrics_bsd = \<lparr>pm_cpu = None, pm_mem = None\<rparr>"

text \<open>
  \<^verbatim>\<open>processMetrics\<close> on Windows, given the kernel and user times of \<^verbatim>\<open>GetProcessTimes\<close> (each a FILETIME)
  and the peak working set, where the process can be opened and the reads succeed.
\<close>

definition processMetrics_windows ::
    "(((32 word \<times> 32 word) \<times> (32 word \<times> 32 word)) option \<times> uint64 option) option \<Rightarrow> procMetrics" where
  "processMetrics_windows reads =
    (case reads of
       None \<Rightarrow> \<lparr>pm_cpu = None, pm_mem = None\<rparr>
     | Some (tms, peak) \<Rightarrow>
         \<lparr>pm_cpu = (case tms of
              None \<Rightarrow> None
            | Some ((kh, kl), (uh, ul)) \<Rightarrow>
                Some (nanosFromUnit (filetimeTo100ns kh kl + filetimeTo100ns uh ul) 100)),
          pm_mem = peak\<rparr>)"

section \<open>Cgroup files\<close>

text \<open>\<^verbatim>\<open>cgroupJob.members\<close>, given \<^verbatim>\<open>cgroup.procs\<close>.\<close>

definition members_line :: "bytes \<Rightarrow> int list" where
  "members_line l = (case parse_int (trim_space l) of Some p \<Rightarrow> if 0 < p then [p] else [] | None \<Rightarrow> [])"

definition members :: "bytes option \<Rightarrow> int list" where
  "members file = (case file of None \<Rightarrow> [] | Some s \<Rightarrow> concat (map members_line (split_on LF s)))"

text \<open>\<^verbatim>\<open>selfCgroupRel\<close>, given \<^verbatim>\<open>/proc/self/cgroup\<close>.\<close>

fun cgroupRel_lines :: "bytes list \<Rightarrow> bytes" where
  "cgroupRel_lines [] = ''/''"
| "cgroupRel_lines (l # ls) =
    (case cut_prefix ''0::'' l of Some rel \<Rightarrow> trim_space rel | None \<Rightarrow> cgroupRel_lines ls)"

definition selfCgroupRel :: "bytes option \<Rightarrow> bytes option" where
  "selfCgroupRel file = (case file of None \<Rightarrow> None | Some s \<Rightarrow> Some (cgroupRel_lines (split_on LF s)))"

definition controllersToEnable :: "bytes list \<Rightarrow> bytes \<Rightarrow> bytes list" where
  "controllersToEnable needed subtreeControl =
    (let already = str_fields subtreeControl in filter (\<lambda>c. c \<notin> set already) needed)"

section \<open>The kernel version\<close>

text \<open>
  \<^verbatim>\<open>fmt.Sscanf\<close> with \<^verbatim>\<open>%d\<close>: leading space, newlines excepted, an optional sign, decimal digits.
\<close>

function skip_space :: "bytes \<Rightarrow> bytes" where
  "skip_space s =
    (if s \<noteq> [] \<and> hd s \<noteq> LF \<and> is_space (fst (decode_rune s))
     then skip_space (drop (snd (decode_rune s)) s) else s)"
  by pat_completeness auto
termination
  by (relation "measure length") (use decode_rune_size in \<open>fastforce simp: Suc_le_eq\<close>)+

declare skip_space.simps [simp del]

definition scan_int :: "bytes \<Rightarrow> (int \<times> bytes) option" where
  "scan_int s0 =
    (let s = skip_space s0;
         sgn_s = (if s \<noteq> [] \<and> (hd s = CHR ''-'' \<or> hd s = CHR ''+'') then [hd s] else []);
         body = drop (length sgn_s) s;
         ds = takeWhile is_digit body
     in if ds = [] then None
        else map_option (\<lambda>v. (v, drop (length ds) body)) (parse_int (sgn_s @ ds)))"

text \<open>\<^verbatim>\<open>Sscanf(release, "%d.%d", \<dots>)\<close>, when both numbers are read.\<close>

definition scan_version :: "bytes \<Rightarrow> (int \<times> int) option" where
  "scan_version release =
    (case scan_int release of
       Some (a, CHR ''.'' # s) \<Rightarrow> (case scan_int s of Some (b, _) \<Rightarrow> Some (a, b) | None \<Rightarrow> None)
     | _ \<Rightarrow> None)"

definition kernelAtLeast :: "bytes \<Rightarrow> int \<Rightarrow> int \<Rightarrow> bool" where
  "kernelAtLeast release major minor =
    (case scan_version release of
       None \<Rightarrow> False
     | Some (a, b) \<Rightarrow> major < a \<or> (a = major \<and> minor \<le> b))"

text \<open>\<^verbatim>\<open>unameRelease\<close>: the bytes before the first NUL.\<close>

definition unameRelease :: "bytes \<Rightarrow> bytes" where
  "unameRelease b = takeWhile (\<lambda>c. c \<noteq> CHR 0x00) b"

section \<open>CPU quotas\<close>

text \<open>\<^verbatim>\<open>math.Round\<close>: to the nearest integer, halves away from zero.\<close>

fun f_round :: "f64 \<Rightarrow> f64" where
  "f_round (Fin q) = Fin (of_int (if q < 0 then - \<lfloor>1 / 2 - q\<rfloor> else \<lfloor>q + 1 / 2\<rfloor>))"
| "f_round x = x"

definition f_clamp :: "f64 \<Rightarrow> f64 \<Rightarrow> f64" where
  "f_clamp hi q =
    (let q1 = (if f_lt q (Fin 1) then Fin 1 else q) in if f_lt hi q1 then hi else q1)"

definition cpuMax_quota :: "f64 \<Rightarrow> int" where
  "cpuMax_quota cores = f_to_int (f_clamp (Fin (2 ^ 62)) (f_round (f_mul cores (Fin 100000))))"

definition cpuMaxValue :: "f64 \<Rightarrow> bytes" where
  "cpuMaxValue cores = itoa (cpuMax_quota cores) @ '' '' @ itoa 100000"

definition cpuHardCapRate :: "f64 \<Rightarrow> f64 \<Rightarrow> int" where
  "cpuHardCapRate cores cpus0 =
    (let cpus = (if f_le cpus0 (Fin 0) then Fin 1 else cpus0)
     in f_to_int (f_clamp (Fin 10000) (f_round (f_mul (f_div cores cpus) (Fin 10000)))))"

section \<open>Laws of the string functions\<close>

definition ascii_word :: "char \<Rightarrow> bool" where
  "ascii_word c \<longleftrightarrow> byte c < 0x80 \<and> \<not> is_space (byte c)"

definition token :: "bytes \<Rightarrow> bool" where
  "token t \<longleftrightarrow> t \<noteq> [] \<and> list_all ascii_word t"

lemma fields_from_word: "ascii_word c \<Longrightarrow> fields_from cur (c # s) = fields_from (cur @ [c]) s"
  by (subst fields_from.simps) (simp add: ascii_word_def decode_ascii del: decode_rune.simps)

lemma fields_from_words: "list_all ascii_word t \<Longrightarrow> fields_from cur (t @ s) = fields_from (cur @ t) s"
  by (induction t arbitrary: cur) (simp_all add: fields_from_word)

lemma fields_from_space:
  "byte c < 0x80 \<Longrightarrow> is_space (byte c) \<Longrightarrow> fields_from cur (c # s) = emit_field cur @ fields_from [] s"
  by (subst fields_from.simps) (simp add: decode_ascii del: decode_rune.simps)

lemma space_bytes: "byte (CHR '' '') = (32 :: nat)" "byte LF = (10 :: nat)" "is_space 32" "is_space 10"
  by (simp_all add: LF_def is_space_def)

lemma fields_from_spaced:
  "list_all token ts \<Longrightarrow>
    fields_from cur (concat (map (\<lambda>t. CHR '' '' # t) ts) @ [LF]) = emit_field cur @ ts"
proof (induction ts arbitrary: cur)
  case Nil
  have "fields_from [] [] = []" by (subst fields_from.simps) (simp add: emit_field_def)
  then show ?case by (simp add: fields_from_space space_bytes)
next
  case (Cons t ts)
  then show ?case
    by (simp add: fields_from_space space_bytes fields_from_words token_def emit_field_def)
qed

lemma fields_spaced: "list_all token ts \<Longrightarrow> str_fields (concat (map (\<lambda>t. CHR '' '' # t) ts) @ [LF]) = ts"
  by (simp add: str_fields_def fields_from_spaced emit_field_def)

lemma digit_of: "d < 10 \<Longrightarrow> is_digit (byte_of (48 + d)) \<and> byte (byte_of (48 + d)) = 48 + d"
  by (simp add: is_digit_def)

lemma digits_from_append:
  "digits_from v (s @ t) = (case digits_from v s of None \<Rightarrow> None | Some w \<Rightarrow> digits_from w t)"
  by (induction s arbitrary: v) auto

lemma nat_dec_nonempty [simp]: "nat_dec n \<noteq> []"
  by (subst nat_dec.simps) simp

lemma digits_nat_dec: "digits_from 0 (nat_dec n) = Some n"
proof (induction n rule: nat_dec.induct)
  case (1 n)
  show ?case
  proof (cases "n < 10")
    case True
    then show ?thesis using digit_of [of n] by (subst nat_dec.simps) simp
  next
    case False
    with 1 digit_of [of "n mod 10"] show ?thesis
      by (subst nat_dec.simps) (simp add: digits_from_append)
  qed
qed

lemma nat_dec_digits: "list_all is_digit (nat_dec n)"
proof (induction n rule: nat_dec.induct)
  case (1 n)
  then show ?case using digit_of [of n] digit_of [of "n mod 10"]
    by (subst nat_dec.simps) simp
qed

lemma digits_value_nat_dec [simp]: "digits_value (nat_dec n) = Some n"
  by (simp add: digits_value_def digits_nat_dec)

lemma parse_uint_nat_dec: "n < 2 ^ 64 \<Longrightarrow> parse_uint (nat_dec n) = Some n"
  by (simp add: parse_uint_def)

lemma hd_nat_dec: "hd (nat_dec n) \<noteq> CHR ''-'' \<and> hd (nat_dec n) \<noteq> CHR ''+''"
proof -
  have "is_digit (hd (nat_dec n))"
    using nat_dec_digits [of n] by (cases "nat_dec n") auto
  moreover have "\<not> is_digit (CHR ''-'')" "\<not> is_digit (CHR ''+'')" by (simp_all add: is_digit_def)
  ultimately show ?thesis by metis
qed

lemma parse_int_nat_dec: "n < 2 ^ 63 \<Longrightarrow> parse_int (nat_dec n) = Some (int n)"
  using hd_nat_dec [of n] by (simp add: parse_int_def Let_def)

lemma parse_int_itoa: "- (2 ^ 63) \<le> i \<Longrightarrow> i < 2 ^ 63 \<Longrightarrow> parse_int (itoa i) = Some i"
proof (cases "i < 0")
  case True
  moreover assume "- (2 ^ 63) \<le> i"
  ultimately show ?thesis by (simp add: itoa_def parse_int_def Let_def nat_le_iff)
next
  case False
  moreover assume "i < 2 ^ 63"
  ultimately show ?thesis by (simp add: itoa_def parse_int_nat_dec nat_less_iff)
qed

lemma takeWhile_notin: "c \<notin> set ys \<Longrightarrow> rev (takeWhile (\<lambda>x. x \<noteq> c) (rev ys)) = ys"
  by (subst takeWhile_eq_all_conv [THEN iffD2]) auto

lemma after_last_found: "c \<notin> set ys \<Longrightarrow> after_last c (xs @ c # ys) = Some ys"
  by (simp add: after_last_def takeWhile_tail takeWhile_notin)

lemma is_digit_word: "is_digit c \<Longrightarrow> ascii_word c"
  by (auto simp: is_digit_def ascii_word_def is_space_def)

lemma token_nat_dec: "token (nat_dec n)"
  using nat_dec_digits [of n] by (auto simp: token_def list_all_iff is_digit_word)

lemma trim_left_word: "ascii_word c \<Longrightarrow> trim_left_space (c # s) = c # s"
  by (subst trim_left_space.simps) (simp add: ascii_word_def decode_ascii del: decode_rune.simps)

lemma trim_right_word: "ascii_word c \<Longrightarrow> trim_right_space (s @ [c]) = s @ [c]"
  by (subst trim_right_space.simps) (simp add: ascii_word_def decode_last_rune_def)

lemma trim_space_token: "token t \<Longrightarrow> trim_space t = t"
proof -
  assume t: "token t"
  then obtain c s where "t = c # s" "ascii_word c" by (cases t) (auto simp: token_def)
  then have l: "trim_left_space t = t" by (simp add: trim_left_word)
  from t obtain s' c' where "t = s' @ [c']" "ascii_word c'"
    by (cases t rule: rev_cases) (auto simp: token_def)
  then have "trim_right_space t = t" by (simp add: trim_right_word)
  with l show ?thesis by (simp add: trim_space_def)
qed

lemma split_on_line: "c \<notin> set l \<Longrightarrow> split_on c (l @ c # s) = l # split_on c s"
  by (induction l) auto

lemma split_on_lines:
  "list_all (\<lambda>l. c \<notin> set l) ls \<Longrightarrow> split_on c (concat (map (\<lambda>l. l @ [c]) ls)) = ls @ [[]]"
  by (induction ls) (auto simp: split_on_line)

lemma LF_not_word: "\<not> ascii_word LF"
  by (simp add: ascii_word_def space_bytes)

lemma LF_notin_token: "token t \<Longrightarrow> LF \<notin> set t"
  using LF_not_word by (auto simp: token_def list_all_iff)

section \<open>Versions and rates\<close>

lemma digit_word_dec: "list_all is_digit ds \<Longrightarrow> rest = [] \<or> \<not> is_digit (hd rest) \<Longrightarrow>
    takeWhile is_digit (ds @ rest) = ds"
  by (induction ds; cases rest) auto

lemma skip_space_word: "ascii_word c \<Longrightarrow> skip_space (c # s) = c # s"
  by (subst skip_space.simps) (simp add: ascii_word_def decode_ascii del: decode_rune.simps)

lemma scan_int_nat_dec:
  assumes "n < 2 ^ 63" "rest = [] \<or> \<not> is_digit (hd rest)"
  shows "scan_int (nat_dec n @ rest) = Some (int n, rest)"
proof -
  obtain c s where n: "nat_dec n = c # s" by (cases "nat_dec n") auto
  have "ascii_word c" using token_nat_dec [of n] n by (simp add: token_def)
  then have sk: "skip_space (nat_dec n @ rest) = nat_dec n @ rest" using n by (simp add: skip_space_word)
  have h: "hd (nat_dec n @ rest) \<noteq> CHR ''-''" "hd (nat_dec n @ rest) \<noteq> CHR ''+''"
    using hd_nat_dec [of n] by simp_all
  from digit_word_dec [OF nat_dec_digits assms(2)] h parse_int_nat_dec [OF assms(1)]
  show ?thesis by (simp add: scan_int_def sk Let_def)
qed

lemma scan_version_dec:
  assumes "a < 2 ^ 63" "b < 2 ^ 63" "rest = [] \<or> \<not> is_digit (hd rest)"
  shows "scan_version (nat_dec a @ ''.'' @ nat_dec b @ rest) = Some (int a, int b)"
proof -
  have "\<not> is_digit (CHR ''.'')" by (simp add: is_digit_def)
  then have "scan_int (nat_dec a @ ''.'' @ nat_dec b @ rest) = Some (int a, ''.'' @ nat_dec b @ rest)"
    using assms(1) by (intro scan_int_nat_dec) auto
  then show ?thesis using scan_int_nat_dec [OF assms(2,3)] by (simp add: scan_version_def)
qed

lemma f_clamp_bounds:
  assumes "1 \<le> hi" "q \<noteq> NaN"
  shows "\<exists>r. f_clamp (Fin hi) q = Fin r \<and> 1 \<le> r \<and> r \<le> hi
    \<and> (f_le (Fin hi) q \<longrightarrow> r = hi) \<and> (q = Fin x \<longrightarrow> r = max 1 (min hi x))"
  using assms by (cases q) (auto simp: f_clamp_def Let_def min_def max_def)

lemma f_round_int: "f_round x = Fin q \<Longrightarrow> \<exists>n. q = of_int n"
  by (cases x) auto

lemma f_clamp_int:
  assumes "1 \<le> hi" "hi = of_int h" "x \<noteq> NaN"
  shows "\<exists>n. f_clamp (Fin hi) (f_round x) = Fin (of_int n) \<and> 1 \<le> n \<and> n \<le> h"
proof -
  have nn: "f_round x \<noteq> NaN" using assms(3) by (cases x) auto
  obtain r where r: "f_clamp (Fin hi) (f_round x) = Fin r" "1 \<le> r" "r \<le> hi"
    using f_clamp_bounds [OF assms(1) nn] by blast
  moreover have "\<exists>n. r = of_int n"
  proof (cases "f_round x")
    case (Fin y)
    then obtain m where "y = of_int m" using f_round_int by blast
    with Fin r(1) assms(2) have "r = of_int m \<or> r = of_int 1 \<or> r = of_int h"
      by (auto simp: f_clamp_def Let_def split: if_splits)
    then show ?thesis by blast
  next
    case PInf
    with r(1) assms(2) have "r = of_int h" by (simp add: f_clamp_def Let_def)
    then show ?thesis by blast
  next
    case NInf
    with r(1) assms(2) have "r = of_int 1 \<or> r = of_int h"
      by (auto simp: f_clamp_def Let_def split: if_splits)
    then show ?thesis by blast
  qed (use nn in simp)
  ultimately show ?thesis using assms(2) by fastforce
qed

lemma f_to_int_of_int [simp]: "f_to_int (Fin (of_int n)) = n"
  by simp

lemma f_mul_not_NaN: "x \<noteq> NaN \<Longrightarrow> c \<noteq> 0 \<Longrightarrow> f_mul x (Fin c) \<noteq> NaN"
  by (cases x) (auto simp: f_inf_def rnd_def Let_def)

lemma cpuMax_quota_bounds: "cores \<noteq> NaN \<Longrightarrow> 1 \<le> cpuMax_quota cores \<and> cpuMax_quota cores \<le> 2 ^ 62"
  using f_clamp_int [of "2 ^ 62" "2 ^ 62" "f_mul cores (Fin 100000)"] f_mul_not_NaN [of cores 100000]
  by (auto simp: cpuMax_quota_def)

lemma f_div_not_NaN: "0 < c \<Longrightarrow> f_div (Fin x) (Fin c) \<noteq> NaN"
  by (auto simp: rnd_def Let_def)

lemma cpuHardCapRate_eq:
  "0 < n \<Longrightarrow> cpuHardCapRate cores (Fin n) =
    f_to_int (f_clamp (Fin 10000) (f_round (f_mul (f_div cores (Fin n)) (Fin 10000))))"
  unfolding cpuHardCapRate_def Let_def by (simp only: f_le.simps not_le [symmetric] if_False)

lemma cpuHardCapRate_bounds:
  assumes "0 < n"
  shows "1 \<le> cpuHardCapRate (Fin x) (Fin n) \<and> cpuHardCapRate (Fin x) (Fin n) \<le> 10000"
proof -
  let ?r = "f_mul (f_div (Fin x) (Fin n)) (Fin 10000)"
  have nn: "?r \<noteq> NaN" by (rule f_mul_not_NaN [OF f_div_not_NaN [OF assms]]) simp
  have "\<exists>k. f_clamp (Fin 10000) (f_round ?r) = Fin (of_int k) \<and> 1 \<le> k \<and> k \<le> 10000"
    by (rule f_clamp_int) (simp, simp, rule nn)
  then obtain k where k: "f_clamp (Fin 10000) (f_round ?r) = Fin (of_int k)" and b: "1 \<le> k" "k \<le> 10000"
    by (elim exE conjE)
  show ?thesis unfolding cpuHardCapRate_eq [OF assms] k f_to_int_of_int using b by (rule conjI)
qed

lemma rnd_ge_cases:
  assumes "0 \<le> b" "b \<le> q" "representable b"
  shows "rnd q = PInf \<or> (\<exists>r. rnd q = Fin r \<and> b \<le> r)"
  using rnd_ge [OF assms] rnd_nonneg [of q] assms(1,2) by auto

lemma f_round_ge: "of_int n \<le> q \<Longrightarrow> 0 \<le> q \<Longrightarrow> \<exists>m. f_round (Fin q) = Fin (of_int m) \<and> n \<le> m"
  by (auto simp: le_floor_iff)

lemma f_clamp_top: "f_le (Fin hi) q \<Longrightarrow> 1 \<le> hi \<Longrightarrow> f_clamp (Fin hi) q = Fin hi"
  by (cases q) (auto simp: f_clamp_def Let_def)

lemma cpuHardCapRate_saturates:
  assumes "0 < n" "n \<le> x"
  shows "cpuHardCapRate (Fin x) (Fin n) = 10000"
proof -
  have one: "representable 1" "representable 10000"
    using representable_of_int [of 1] representable_of_int [of 10000] by simp_all
  have d: "f_div (Fin x) (Fin n) = rnd (x / n)" using assms(1) by simp
  have "f_le (Fin 10000) (f_round (f_mul (rnd (x / n)) (Fin 10000)))"
  proof -
    consider "rnd (x / n) = PInf" | r where "rnd (x / n) = Fin r" "1 \<le> r"
      using rnd_ge_cases [of 1 "x / n"] one assms by auto
    then show ?thesis
    proof cases
      case 1
      then show ?thesis by (simp add: f_inf_def)
    next
      case (2 r)
      consider "rnd (r * 10000) = PInf" | s where "rnd (r * 10000) = Fin s" "10000 \<le> s"
        using rnd_ge_cases [of 10000 "r * 10000"] one 2 by auto
      then show ?thesis
        by cases (use 2 in \<open>auto simp: le_floor_iff\<close>)
    qed
  qed
  then have "f_clamp (Fin 10000) (f_round (f_mul (rnd (x / n)) (Fin 10000))) = Fin (of_int 10000)"
    by (simp add: f_clamp_top)
  then show ?thesis by (simp only: cpuHardCapRate_eq [OF assms(1)] d f_to_int_of_int)
qed

section \<open>Member lists\<close>

definition render_pids :: "int list \<Rightarrow> bytes" where
  "render_pids ps = concat (map (\<lambda>p. itoa p @ [LF]) ps)"

lemma members_pos: "list_all (\<lambda>p. 0 < p) (members f)"
proof -
  have "list_all (\<lambda>p. 0 < p) (members_line l)" for l by (simp add: members_line_def split: option.split)
  then show ?thesis by (auto simp: members_def list_all_iff split: option.split)
qed

text \<open>
  A pid a member file lists, stated apart from the parser: one of its lines is the pid in decimal.
\<close>

definition lists_pid :: "bytes option \<Rightarrow> int \<Rightarrow> bool" where
  "lists_pid file p \<longleftrightarrow> 0 < p \<and> p < 2 ^ 63 \<and> (\<exists>s. file = Some s \<and> itoa p \<in> set (split_on LF s))"

lemma members_line_itoa: "0 < p \<Longrightarrow> p < 2 ^ 63 \<Longrightarrow> members_line (itoa p) = [p]"
proof -
  assume p: "0 < p" "p < 2 ^ 63"
  then have "token (itoa p)" using token_nat_dec by (simp add: itoa_def)
  moreover have "parse_int (itoa p) = Some p" by (rule parse_int_itoa) (use p in auto)
  ultimately show ?thesis using p by (simp add: members_line_def trim_space_token)
qed

lemma members_lists: "lists_pid file p \<Longrightarrow> p \<in> set (members file)"
  by (auto simp: lists_pid_def members_def members_line_itoa intro!: bexI [of _ "itoa p"])

lemma members_render:
  assumes ps: "list_all (\<lambda>p. 0 < p \<and> p < 2 ^ 63) ps"
  shows "members (Some (render_pids ps)) = ps"
proof -
  have t: "token (itoa p)" if "p \<in> set ps" for p
    using ps that token_nat_dec by (auto simp: itoa_def list_all_iff)
  have "split_on LF (concat (map (\<lambda>l. l @ [LF]) (map itoa ps))) = map itoa ps @ [[]]"
    by (rule split_on_lines) (use t LF_notin_token in \<open>auto simp: list_all_iff\<close>)
  moreover have "members_line (itoa p) = [p]" if "p \<in> set ps" for p
    using ps that by (simp add: members_line_itoa list_all_iff)
  then have "concat (map (members_line \<circ> itoa) ps) = ps" by (induction ps) auto
  moreover have "members_line [] = []" by code_simp
  ultimately show ?thesis by (simp add: members_def render_pids_def comp_def)
qed

section \<open>Properties\<close>

text \<open>
  The member list read from a cgroup is the one the kernel wrote: the pids rendered one to
  a line are read back in order; and whatever the file holds, no entry that is not a positive number
  is taken for a pid.
\<close>

theorem members_roundtrip:
  "(list_all (\<lambda>p. 0 < p \<and> p < 2 ^ 63) ps \<longrightarrow> members (Some (render_pids ps)) = ps)
   \<and> list_all (\<lambda>p. 0 < p) (members f)"
  using members_render members_pos by blast

theorem members_roundtrip_witness: "members (Some (render_pids [7, 4242])) = [7, 4242]"
  using members_roundtrip [of "[7, 4242]"] by simp

text \<open>
  The CPU time of a process is read right whatever its command name is, parentheses and
  spaces included: for a stat line with the fields that follow the name, it is the sum of fields 14
  and 15 in units of 10 ms, clamped to the largest duration.
\<close>

theorem stat_line_cpu_time:
  assumes "list_all token fs" "list_all (\<lambda>t. CHR '')'' \<notin> set t) fs" "13 \<le> length fs"
    "fs ! 11 = nat_dec u" "fs ! 12 = nat_dec v" "u < 2 ^ 63" "v < 2 ^ 63"
  shows "\<exists>w. procCPUTime (Some (nat_dec pid @ '' ('' @ comm @ '')''
        @ concat (map (\<lambda>t. CHR '' '' # t) fs) @ [LF])) = Some w
    \<and> sint w = min ((int u + int v) * 10000000) (2 ^ 63 - 1)"
proof -
  let ?tail = "concat (map (\<lambda>t. CHR '' '' # t) fs) @ [LF]"
  let ?a = "word_of_int (int u) :: int64" and ?b = "word_of_int (int v) :: int64"
  have "CHR '')'' \<noteq> LF" by code_simp
  then have "CHR '')'' \<notin> set ?tail" using assms(2) by (auto simp: list_all_iff)
  then have al: "after_last (CHR '')'') (nat_dec pid @ '' ('' @ comm @ '')'' @ ?tail) = Some ?tail"
    using after_last_found [of "CHR '')''" ?tail "nat_dec pid @ '' ('' @ comm"] by simp
  have s: "sint ?a = int u" "sint ?b = int v"
    by (rule sint_word_of_int64; use assms(6,7) in simp)+
  define tk where "tk = (if s_less (?a + ?b) 0 then max_int64 else ?a + ?b)"
  have tk: "sint tk = min (int u + int v) (2 ^ 63 - 1)"
  proof (cases "int u + int v \<le> 2 ^ 63 - 1")
    case True
    then have "sint (?a + ?b) = int u + int v" using s sint_add64 [of ?a ?b] by simp
    with True show ?thesis by (simp add: tk_def s_less_def)
  next
    case False
    then have "sint (?a + ?b) < 0" using s sint_add_overflow [of ?a ?b] by simp
    with False show ?thesis by (simp add: tk_def s_less_def)
  qed
  have u: "sint (word_of_nat (1000000000 div userHZ) :: int64) = 10000000"
    by (simp add: userHZ_def)
  have "sint (nanosFromUnit tk (word_of_nat (1000000000 div userHZ)))
      = min ((int u + int v) * 10000000) (2 ^ 63 - 1)"
    using tk by (simp only: sint_nanosFromUnit u) (auto simp: min_def)
  moreover have "procCPUTime (Some (nat_dec pid @ '' ('' @ comm @ '')'' @ ?tail)) =
      Some (nanosFromUnit tk (word_of_nat (1000000000 div userHZ)))"
    using assms parse_int_nat_dec [of u] parse_int_nat_dec [of v]
    by (simp add: procCPUTime_def al fields_spaced Let_def tk_def del: append.simps append_assoc)
  ultimately show ?thesis by blast
qed

theorem stat_line_cpu_time_witness:
  "\<exists>w. procCPUTime (Some (nat_dec 42 @ '' ('' @ ''a) (b'' @ '')''
      @ concat (map (\<lambda>t. CHR '' '' # t) (replicate 11 ''S'' @ [nat_dec 3, nat_dec 4])) @ [LF])) = Some w
    \<and> sint w = 70000000"
proof -
  have "token ''S''" by (simp add: token_def ascii_word_def is_space_def)
  moreover have "CHR '')'' \<notin> set (nat_dec n)" for n
  proof -
    have "\<not> is_digit (CHR '')'')" by (simp add: is_digit_def)
    then show ?thesis using nat_dec_digits [of n] by (auto simp: list_all_iff)
  qed
  ultimately show ?thesis
    using stat_line_cpu_time [of "replicate 11 ''S'' @ [nat_dec 3, nat_dec 4]" 3 4 42 "''a) (b''"]
    by (simp add: list_all_iff token_nat_dec nth_append)
qed

text \<open>
  The kernel-version test is the lexicographic comparison of major and minor numbers,
  whatever suffix follows them.
\<close>

theorem kernelAtLeast_lexicographic:
  assumes "a < 2 ^ 63" "b < 2 ^ 63" "rest = [] \<or> \<not> is_digit (hd rest)"
  shows "kernelAtLeast (nat_dec a @ ''.'' @ nat_dec b @ rest) major minor \<longleftrightarrow>
    major < int a \<or> (major = int a \<and> minor \<le> int b)"
  using scan_version_dec [OF assms] by (auto simp: kernelAtLeast_def)

theorem kernelAtLeast_lexicographic_witness:
  "kernelAtLeast (nat_dec 5 @ ''.'' @ nat_dec 15 @ ''.0-91'') 5 7
   \<and> \<not> kernelAtLeast (nat_dec 5 @ ''.'' @ nat_dec 6 @ []) 5 7"
  using kernelAtLeast_lexicographic [of 5 15 "''.0-91''" 5 7] kernelAtLeast_lexicographic [of 5 6 "[]" 5 7]
  by (simp add: is_digit_def)

text \<open>
  A CPU quota becomes a value the operating system accepts: the cgroup quota lies between
  1 and 2^62 microseconds, the Windows hard-cap rate between 1 and 10000, and it is exactly 10000
  when the quota reaches the number of processors.
\<close>

theorem cpu_rates_in_range:
  assumes "0 < n"
  shows "1 \<le> cpuMax_quota (Fin x) \<and> cpuMax_quota (Fin x) \<le> 2 ^ 62
    \<and> 1 \<le> cpuHardCapRate (Fin x) (Fin n) \<and> cpuHardCapRate (Fin x) (Fin n) \<le> 10000
    \<and> (n \<le> x \<longrightarrow> cpuHardCapRate (Fin x) (Fin n) = 10000)"
  using cpuMax_quota_bounds [of "Fin x"] cpuHardCapRate_bounds [OF assms, of x]
    cpuHardCapRate_saturates [OF assms, of x] by blast

theorem cpu_rates_in_range_witness: "cpuHardCapRate (Fin 8) (Fin 4) = 10000"
  using cpu_rates_in_range [of 4 8] by simp

end
