(* ===== verification/JobUnix.thy ===== *)
theory JobUnix
  imports Proc SysMachine
begin

text \<open>
  The containment backends of Unix (\<^verbatim>\<open>internal/sys/job_unix.go\<close>, \<^verbatim>\<open>job_bsd.go\<close>, \<^verbatim>\<open>job_linux.go\<close>):
  a POSIX process group tracked by leader and adopted pids, and a cgroup v2 subtree, with the choice
  between them and the resource caps applied at creation.  The system calls are a parameter record.
\<close>

section \<open>System calls\<close>

record 'w sysapi =
  sy_kill :: "int \<Rightarrow> int \<Rightarrow> 'w \<Rightarrow> errno option \<times> 'w"
  sy_setpgid :: "int \<Rightarrow> 'w \<Rightarrow> errno option \<times> 'w"
  sy_readFile :: "bytes \<Rightarrow> 'w \<Rightarrow> (goerr + bytes) \<times> 'w"
  sy_openWrite :: "bytes \<Rightarrow> 'w \<Rightarrow> goerr option \<times> 'w"
  sy_write :: "bytes \<Rightarrow> bytes \<Rightarrow> 'w \<Rightarrow> goerr option \<times> 'w"
  sy_closeFile :: "bytes \<Rightarrow> 'w \<Rightarrow> goerr option \<times> 'w"
  sy_sleep :: "duration \<Rightarrow> 'w \<Rightarrow> 'w"
  sy_stat :: "bytes \<Rightarrow> 'w \<Rightarrow> goerr option \<times> 'w"
  sy_mkdir :: "bytes \<Rightarrow> 'w \<Rightarrow> goerr option \<times> 'w"
  sy_remove :: "bytes \<Rightarrow> 'w \<Rightarrow> 'w"
  sy_openDir :: "bytes \<Rightarrow> 'w \<Rightarrow> (goerr + int) \<times> 'w"
  sy_closeDir :: "int \<Rightarrow> 'w \<Rightarrow> 'w"
  sy_uname :: "bytes option"
  sy_getpid :: int
  sy_salt :: bytes
  sy_SIGSTOP :: int
  sy_SIGCONT :: int

definition SIGKILL :: int where
  "SIGKILL = 9"

definition sys_Kill :: "'w sysapi \<Rightarrow> int \<Rightarrow> int \<Rightarrow> ('w sysm, errno option) state" where
  "sys_Kill S target sig = sys_do (sy_kill S target sig) (\<lambda>_. [SKill target sig])"

definition sys_Setpgid :: "'w sysapi \<Rightarrow> int \<Rightarrow> ('w sysm, errno option) state" where
  "sys_Setpgid S p = sys_do (sy_setpgid S p) (\<lambda>_. [SSetpgid p])"

definition sys_ReadFile :: "'w sysapi \<Rightarrow> bytes \<Rightarrow> ('w sysm, goerr + bytes) state" where
  "sys_ReadFile S path = sys_do (sy_readFile S path) (\<lambda>_. [])"

definition sys_Sleep :: "'w sysapi \<Rightarrow> duration \<Rightarrow> ('w sysm, unit) state" where
  "sys_Sleep S d = sys_do (\<lambda>w. ((), sy_sleep S d w)) (\<lambda>_. [SSleep d])"

definition sys_Remove :: "'w sysapi \<Rightarrow> bytes \<Rightarrow> ('w sysm, unit) state" where
  "sys_Remove S path = sys_do (\<lambda>w. ((), sy_remove S path w)) (\<lambda>_. [SRemove path])"

text \<open>
  \<^verbatim>\<open>writeCgroup\<close>: open for writing, write, close; the error of the write wins over that of the close.
  The trace has one entry, with whether the whole succeeded.
\<close>

definition write_world :: "'w sysapi \<Rightarrow> bytes \<Rightarrow> bytes \<Rightarrow> 'w \<Rightarrow> goerr option \<times> 'w" where
  "write_world S path content w =
    (case sy_openWrite S path w of
       (Some e, w1) \<Rightarrow> (Some e, w1)
     | (None, w1) \<Rightarrow>
         (case sy_write S path content w1 of
            (werr, w2) \<Rightarrow>
              (case sy_closeFile S path w2 of
                 (cerr, w3) \<Rightarrow> (if werr \<noteq> None then werr else cerr, w3))))"

definition writeCgroup :: "'w sysapi \<Rightarrow> bytes \<Rightarrow> bytes \<Rightarrow> ('w sysm, goerr option) state" where
  "writeCgroup S path content =
    sys_do (write_world S path content) (\<lambda>r. [SWrite path content (r = None)])"

lemmas sys_defs = sys_Kill_def sys_Setpgid_def sys_ReadFile_def sys_Sleep_def sys_Remove_def
  writeCgroup_def

section \<open>Jobs\<close>

record pgroupJob =
  pg_pgids :: "int list"
  pg_solo :: "int list"

record cgroupJob =
  cg_path :: bytes
  cg_dirFD :: int

datatype unixJob = PGroup pgroupJob | CGroup cgroupJob

section \<open>The process-group backend\<close>

definition newPgroupJob :: pgroupJob where
  "newPgroupJob = \<lparr>pg_pgids = [], pg_solo = []\<rparr>"

text \<open>The process attributes \<^verbatim>\<open>Configure\<close> sets: a new process group, or clone into a cgroup.\<close>

record sysProcAttr =
  at_Setpgid :: bool
  at_CgroupFD :: "int option"

definition pgroup_Configure :: "sysProcAttr \<Rightarrow> sysProcAttr" where
  "pgroup_Configure a = a\<lparr>at_Setpgid := True\<rparr>"

definition pgroup_Assign :: "pgroupJob \<Rightarrow> int option \<Rightarrow> goerr option \<times> pgroupJob" where
  "pgroup_Assign j proc =
    (case proc of
       None \<Rightarrow> (Some (Plain ''sys: Assign called before the process started''), j)
     | Some p \<Rightarrow> (None, j\<lparr>pg_pgids := pg_pgids j @ [p]\<rparr>))"

definition deliver :: "'w sysapi \<Rightarrow> int \<Rightarrow> int \<Rightarrow> goerr option \<Rightarrow> ('w sysm, goerr option) state" where
  "deliver S target sig firstErr = do {
     err \<leftarrow> sys_Kill S target sig;
     State_Monad.return (case err of
         None \<Rightarrow> firstErr
       | Some e \<Rightarrow> if e = ESRCH \<or> e = EPERM then firstErr
                   else if firstErr = None then Some (Errno e) else firstErr)
   }"

fun deliver_all :: "'w sysapi \<Rightarrow> int \<Rightarrow> int list \<Rightarrow> goerr option \<Rightarrow> ('w sysm, goerr option) state" where
  "deliver_all S sig [] firstErr = State_Monad.return firstErr"
| "deliver_all S sig (t # ts) firstErr = do {
     firstErr' \<leftarrow> deliver S t sig firstErr;
     deliver_all S sig ts firstErr'
   }"

definition pgroup_targets :: "pgroupJob \<Rightarrow> int list" where
  "pgroup_targets j = map uminus (pg_pgids j) @ pg_solo j"

definition pgroup_Signal :: "'w sysapi \<Rightarrow> pgroupJob \<Rightarrow> int \<Rightarrow> ('w sysm, goerr option) state" where
  "pgroup_Signal S j sig = do {
     e1 \<leftarrow> deliver_all S sig (map uminus (pg_pgids j)) None;
     deliver_all S sig (pg_solo j) e1
   }"

definition pgroup_Suspend :: "'w sysapi \<Rightarrow> pgroupJob \<Rightarrow> ('w sysm, goerr option) state" where
  "pgroup_Suspend S j = pgroup_Signal S j (sy_SIGSTOP S)"

definition pgroup_Resume :: "'w sysapi \<Rightarrow> pgroupJob \<Rightarrow> ('w sysm, goerr option) state" where
  "pgroup_Resume S j = pgroup_Signal S j (sy_SIGCONT S)"

definition trackSolo :: "pgroupJob \<Rightarrow> int \<Rightarrow> pgroupJob" where
  "trackSolo j p = j\<lparr>pg_solo := pg_solo j @ [p]\<rparr>"

definition pgroup_Adopt :: "'w sysapi \<Rightarrow> pgroupJob \<Rightarrow> int \<Rightarrow> ('w sysm, goerr option \<times> pgroupJob) state" where
  "pgroup_Adopt S j p = do {
     err \<leftarrow> sys_Setpgid S p;
     if err = None then State_Monad.return (None, j\<lparr>pg_pgids := pg_pgids j @ [p]\<rparr>)
     else do {
       probe \<leftarrow> sys_Kill S p 0;
       State_Monad.return (None, if probe = None then trackSolo j p else j)
     }
   }"

definition pgroup_Kill :: "'w sysapi \<Rightarrow> pgroupJob \<Rightarrow> ('w sysm, goerr option) state" where
  "pgroup_Kill S j = pgroup_Signal S j SIGKILL"

definition pgroup_Close :: "pgroupJob \<Rightarrow> goerr option" where
  "pgroup_Close j = None"

fun probe_all :: "'w sysapi \<Rightarrow> int list \<Rightarrow> nat \<Rightarrow> ('w sysm, nat) state" where
  "probe_all S [] n = State_Monad.return n"
| "probe_all S (t # ts) n = do {
     err \<leftarrow> sys_Kill S t 0;
     probe_all S ts (if err = None then n + 1 else n)
   }"

definition pgroup_Stats :: "'w sysapi \<Rightarrow> pgroupJob \<Rightarrow> ('w sysm, goerr + sysStats) state" where
  "pgroup_Stats S j = do {
     n \<leftarrow> probe_all S (map uminus (pg_pgids j)) 0;
     n' \<leftarrow> probe_all S (pg_solo j) n;
     State_Monad.return (Inr (stats0\<lparr>ss_ActiveProcesses := n'\<rparr>))
   }"

text \<open>\<^verbatim>\<open>newJob\<close> on macOS and the BSDs.\<close>

definition newJob_bsd :: "limits \<Rightarrow> goerr + pgroupJob" where
  "newJob_bsd l =
    (if limits_Any l
     then Inl (Plain ''sys: resource limits require a cgroup or Job Object; unavailable on this target'')
     else Inr newPgroupJob)"

section \<open>Paths\<close>

text \<open>
  \<^verbatim>\<open>filepath.Join\<close> on a rooted first element: non-empty elements joined by slashes and cleaned
  lexically.  A path is kept as its list of components by the cleaning.
\<close>

fun clean_parts :: "bytes list \<Rightarrow> bytes list \<Rightarrow> bytes list" where
  "clean_parts acc [] = acc"
| "clean_parts acc (p # ps) =
    (if p = [] \<or> p = ''.'' then clean_parts acc ps
     else if p = ''..'' then clean_parts (butlast acc) ps
     else clean_parts (acc @ [p]) ps)"

definition rooted :: "bytes list \<Rightarrow> bytes" where
  "rooted ps = (if ps = [] then ''/'' else concat (map (\<lambda>p. CHR ''/'' # p) ps))"

definition path_Join :: "bytes \<Rightarrow> bytes \<Rightarrow> bytes" where
  "path_Join dir name = rooted (clean_parts [] (split_on (CHR ''/'') dir @ split_on (CHR ''/'') name))"

definition trim_slash :: "bytes \<Rightarrow> bytes" where
  "trim_slash s = (case cut_prefix ''/'' s of Some t \<Rightarrow> t | None \<Rightarrow> s)"

section \<open>The cgroup backend\<close>

definition cgroup_Configure :: "cgroupJob \<Rightarrow> sysProcAttr \<Rightarrow> sysProcAttr" where
  "cgroup_Configure j a = a\<lparr>at_CgroupFD := Some (cg_dirFD j)\<rparr>"

definition cgroup_Assign :: "int option \<Rightarrow> goerr option" where
  "cgroup_Assign proc =
    (if proc = None then Some (Plain ''sys: Assign called before the process started'') else None)"

definition cgroup_contain :: "'w sysapi \<Rightarrow> cgroupJob \<Rightarrow> int \<Rightarrow> ('w sysm, goerr option) state" where
  "cgroup_contain S j p = do {
     err \<leftarrow> writeCgroup S (path_Join (cg_path j) ''cgroup.procs'') (itoa p);
     State_Monad.return (case err of
         None \<Rightarrow> None
       | Some e \<Rightarrow> if errors_Is e (TErrno ESRCH) then None
                   else Some (Wrapped (''sys: placing pid '' @ itoa p @ '' into the cgroup: '') e))
   }"

definition cgroup_Adopt :: "'w sysapi \<Rightarrow> cgroupJob \<Rightarrow> int \<Rightarrow> ('w sysm, goerr option) state" where
  "cgroup_Adopt S j p = cgroup_contain S j p"

definition procs_file :: "cgroupJob \<Rightarrow> bytes" where
  "procs_file j = path_Join (cg_path j) ''cgroup.procs''"

definition read_content :: "goerr + bytes \<Rightarrow> bytes option" where
  "read_content r = (case r of Inl _ \<Rightarrow> None | Inr s \<Rightarrow> Some s)"

text \<open>\<^verbatim>\<open>members\<close>; the trace has what the read gave.\<close>

definition cgroup_members :: "'w sysapi \<Rightarrow> cgroupJob \<Rightarrow> ('w sysm, int list) state" where
  "cgroup_members S j = do {
     r \<leftarrow> sys_do (sy_readFile S (procs_file j)) (\<lambda>r. [SRead (procs_file j) (read_content r)]);
     State_Monad.return (members (read_content r))
   }"

definition cgroup_Signal :: "'w sysapi \<Rightarrow> cgroupJob \<Rightarrow> int \<Rightarrow> ('w sysm, goerr option) state" where
  "cgroup_Signal S j sig = do {
     ps \<leftarrow> cgroup_members S j;
     deliver_all S sig ps None
   }"

definition freeze_file :: "cgroupJob \<Rightarrow> bytes" where
  "freeze_file j = path_Join (cg_path j) ''cgroup.freeze''"

definition kill_file :: "cgroupJob \<Rightarrow> bytes" where
  "kill_file j = path_Join (cg_path j) ''cgroup.kill''"

definition cgroup_freeze :: "'w sysapi \<Rightarrow> cgroupJob \<Rightarrow> bool \<Rightarrow> ('w sysm, goerr option) state" where
  "cgroup_freeze S j frozen = do {
     err \<leftarrow> writeCgroup S (freeze_file j) (if frozen then ''1'' else ''0'');
     case err of
       None \<Rightarrow> State_Monad.return None
     | Some e \<Rightarrow>
         if \<not> is_err e Os_ErrNotExist then State_Monad.return (Some e)
         else cgroup_Signal S j (if frozen then sy_SIGSTOP S else sy_SIGCONT S)
   }"

definition cgroup_Suspend :: "'w sysapi \<Rightarrow> cgroupJob \<Rightarrow> ('w sysm, goerr option) state" where
  "cgroup_Suspend S j = cgroup_freeze S j True"

definition cgroup_Resume :: "'w sysapi \<Rightarrow> cgroupJob \<Rightarrow> ('w sysm, goerr option) state" where
  "cgroup_Resume S j = cgroup_freeze S j False"

fun kill_each :: "'w sysapi \<Rightarrow> int list \<Rightarrow> ('w sysm, unit) state" where
  "kill_each S [] = State_Monad.return ()"
| "kill_each S (p # ps) = do { _ \<leftarrow> sys_Kill S p SIGKILL; kill_each S ps }"

text \<open>The bounded sweep: at most \<open>n\<close> rounds, ended early by an empty member list.\<close>

fun kill_sweep :: "'w sysapi \<Rightarrow> cgroupJob \<Rightarrow> nat \<Rightarrow> ('w sysm, unit) state" where
  "kill_sweep S j 0 = State_Monad.return ()"
| "kill_sweep S j (Suc n) = do {
     ps \<leftarrow> cgroup_members S j;
     if ps = [] then State_Monad.return ()
     else do {
       kill_each S ps;
       sys_Sleep S 2000000;
       kill_sweep S j n
     }
   }"

definition cgroup_Kill :: "'w sysapi \<Rightarrow> cgroupJob \<Rightarrow> ('w sysm, goerr option) state" where
  "cgroup_Kill S j = do {
     err \<leftarrow> writeCgroup S (kill_file j) ''1'';
     if err = None then State_Monad.return None
     else do {
       _ \<leftarrow> writeCgroup S (freeze_file j) ''1'';
       kill_sweep S j 50;
       _ \<leftarrow> writeCgroup S (freeze_file j) ''0'';
       ps \<leftarrow> cgroup_members S j;
       State_Monad.return (if ps = [] then None
         else Some (Plain ''sys: cgroup did not drain after the bounded SIGKILL sweep (kernel < 5.14 fallback)''))
     }
   }"

fun drain_members :: "'w sysapi \<Rightarrow> cgroupJob \<Rightarrow> nat \<Rightarrow> ('w sysm, unit) state" where
  "drain_members S j 0 = State_Monad.return ()"
| "drain_members S j (Suc n) = do {
     ps \<leftarrow> cgroup_members S j;
     if ps = [] then State_Monad.return ()
     else do { sys_Sleep S 2000000; drain_members S j n }
   }"

text \<open>\<^verbatim>\<open>Close\<close>; the directory handle is open for every job \<^verbatim>\<open>createCgroup\<close> returns.\<close>

definition cgroup_Close :: "'w sysapi \<Rightarrow> cgroupJob \<Rightarrow> ('w sysm, goerr option) state" where
  "cgroup_Close S j = do {
     drain_members S j 50;
     sys_do (\<lambda>w. ((), sy_closeDir S (cg_dirFD j) w)) (\<lambda>_. [SCloseDir (cg_dirFD j)]);
     sys_Remove S (cg_path j);
     State_Monad.return None
   }"

definition proc_file :: "int \<Rightarrow> bytes \<Rightarrow> bytes" where
  "proc_file p name = ''/proc/'' @ itoa p @ ''/'' @ name"

definition read_option :: "'w sysapi \<Rightarrow> bytes \<Rightarrow> ('w sysm, bytes option) state" where
  "read_option S path = do {
     r \<leftarrow> sys_ReadFile S path;
     State_Monad.return (case r of Inl _ \<Rightarrow> None | Inr s \<Rightarrow> Some s)
   }"

definition add_metrics :: "sysStats \<Rightarrow> procMetrics \<Rightarrow> sysStats" where
  "add_metrics s m =
    (let s1 = (case pm_cpu m of None \<Rightarrow> s
               | Some c \<Rightarrow> s\<lparr>ss_CPUTime := addDurationSat (ss_CPUTime s) c, ss_HasCPU := True\<rparr>)
     in case pm_mem m of None \<Rightarrow> s1
        | Some k \<Rightarrow> s1\<lparr>ss_PeakMemoryBytes := addU64Sat (ss_PeakMemoryBytes s1) k, ss_HasMem := True\<rparr>)"

fun sum_metrics :: "'w sysapi \<Rightarrow> int list \<Rightarrow> sysStats \<Rightarrow> ('w sysm, sysStats) state" where
  "sum_metrics S [] s = State_Monad.return s"
| "sum_metrics S (p # ps) s = do {
     stat \<leftarrow> read_option S (proc_file p ''stat'');
     status \<leftarrow> read_option S (proc_file p ''status'');
     sum_metrics S ps (add_metrics s (processMetrics_linux stat status))
   }"

definition cgroup_Stats :: "'w sysapi \<Rightarrow> cgroupJob \<Rightarrow> ('w sysm, goerr + sysStats) state" where
  "cgroup_Stats S j = do {
     ps \<leftarrow> cgroup_members S j;
     s \<leftarrow> sum_metrics S ps (stats0\<lparr>ss_ActiveProcesses := length ps\<rparr>);
     State_Monad.return (Inr s)
   }"

section \<open>Creation\<close>

definition cgroupFDSupported :: "'w sysapi \<Rightarrow> bool" where
  "cgroupFDSupported S =
    (case sy_uname S of None \<Rightarrow> False | Some rel \<Rightarrow> kernelAtLeast (unameRelease rel) 5 7)"

definition next_counter :: "('w sysm, uint64) state" where
  "next_counter = State (\<lambda>m. (sm_counter m + 1, m\<lparr>sm_counter := sm_counter m + 1\<rparr>))"

fun mkdir_tries :: "'w sysapi \<Rightarrow> bytes \<Rightarrow> nat \<Rightarrow> ('w sysm, goerr + bytes) state" where
  "mkdir_tries S parent 0 = State_Monad.return
     (Inl (Plain ''sys: could not create a unique cgroup directory after retries''))"
| "mkdir_tries S parent (Suc n) = do {
     k \<leftarrow> next_counter;
     let path = path_Join parent (''processkit-'' @ itoa (sy_getpid S) @ ''-'' @ sy_salt S @ ''-'' @ itoa (uint k));
     err \<leftarrow> sys_do (sy_mkdir S path) (\<lambda>r. [SMkdir path (r = None)]);
     case err of
       None \<Rightarrow> State_Monad.return (Inr path)
     | Some e \<Rightarrow> if is_err e Os_ErrExist then mkdir_tries S parent n else State_Monad.return (Inl e)
   }"

definition mkdirUniqueCgroup :: "'w sysapi \<Rightarrow> bytes \<Rightarrow> ('w sysm, goerr + bytes) state" where
  "mkdirUniqueCgroup S parent = mkdir_tries S parent 32"

definition needed_controllers :: "limits \<Rightarrow> bytes list" where
  "needed_controllers l =
    (if lim_HasMemoryMax l then [''memory''] else [])
    @ (if lim_HasMaxProcesses l then [''pids''] else [])
    @ (if lim_HasCPUQuota l then [''cpu''] else [])"

text \<open>The caps as the files written and their contents, in the order of the code.\<close>

definition cap_writes :: "bytes \<Rightarrow> limits \<Rightarrow> (bytes \<times> bytes) list" where
  "cap_writes path l =
    (if lim_HasMemoryMax l then [(path_Join path ''memory.max'', nat_dec (unat (lim_MemoryMax l)))] else [])
    @ (if lim_HasMaxProcesses l then [(path_Join path ''pids.max'', nat_dec (unat (lim_MaxProcesses l)))] else [])
    @ (if lim_HasCPUQuota l then [(path_Join path ''cpu.max'', cpuMaxValue (lim_CPUQuota l))] else [])"

fun write_caps :: "'w sysapi \<Rightarrow> (bytes \<times> bytes) list \<Rightarrow> ('w sysm, goerr option) state" where
  "write_caps S [] = State_Monad.return None"
| "write_caps S ((path, content) # cs) = do {
     err \<leftarrow> writeCgroup S path content;
     if err \<noteq> None then State_Monad.return err else write_caps S cs
   }"

definition applyLimits :: "'w sysapi \<Rightarrow> bytes \<Rightarrow> bytes \<Rightarrow> limits \<Rightarrow> ('w sysm, goerr option) state" where
  "applyLimits S path parent l = do {
     enabled \<leftarrow> sys_ReadFile S (path_Join parent ''cgroup.subtree_control'');
     let toEnable = controllersToEnable (needed_controllers l) (case enabled of Inl _ \<Rightarrow> [] | Inr s \<Rightarrow> s);
     let spec = ''+'' @ join '' +'' toEnable;
     err \<leftarrow> (if toEnable = [] then State_Monad.return None
             else writeCgroup S (path_Join parent ''cgroup.subtree_control'') spec);
     case err of
       Some e \<Rightarrow> State_Monad.return (Some (WrappedIn (''sys: enabling cgroup controllers ('' @ spec @ '') failed: '') e
         ('' '' @ [CHR 0xE2, CHR 0x80, CHR 0x94] @ '' limits need this process at the real cgroup-v2 root (not under systemd or in a container)'')))
     | None \<Rightarrow> write_caps S (cap_writes path l)
   }"

definition cgroup_root :: bytes where
  "cgroup_root = ''/sys/fs/cgroup''"

text \<open>The part of \<^verbatim>\<open>createCgroup\<close> after the directory exists.\<close>

definition cgroup_open :: "'w sysapi \<Rightarrow> bytes \<Rightarrow> bytes \<Rightarrow> limits \<Rightarrow> ('w sysm, goerr + cgroupJob) state" where
  "cgroup_open S parent path l = do {
     lerr \<leftarrow> (if limits_Any l then applyLimits S path parent l else State_Monad.return None);
     case lerr of
       Some e \<Rightarrow> do { sys_Remove S path; State_Monad.return (Inl e) }
     | None \<Rightarrow> do {
         d \<leftarrow> sys_do (sy_openDir S path) (\<lambda>r. [SOpenDir path (case r of Inl _ \<Rightarrow> None | Inr fd \<Rightarrow> Some fd)]);
         case d of
           Inl e \<Rightarrow> do { sys_Remove S path; State_Monad.return (Inl e) }
         | Inr fd \<Rightarrow> State_Monad.return (Inr \<lparr>cg_path = path, cg_dirFD = fd\<rparr>)
       }
   }"

definition createCgroup :: "'w sysapi \<Rightarrow> limits \<Rightarrow> ('w sysm, goerr + cgroupJob) state" where
  "createCgroup S l = do {
     st \<leftarrow> sys_do (sy_stat S (path_Join cgroup_root ''cgroup.controllers'')) (\<lambda>_. []);
     if st \<noteq> None then State_Monad.return (Inl (Plain ''sys: cgroup v2 not mounted''))
     else if \<not> cgroupFDSupported S
     then State_Monad.return (Inl (Plain ''sys: cgroup placement needs clone3 CLONE_INTO_CGROUP (kernel 5.7+)''))
     else do {
       self \<leftarrow> sys_ReadFile S ''/proc/self/cgroup'';
       case self of
         Inl e \<Rightarrow> State_Monad.return (Inl e)
       | Inr s \<Rightarrow> do {
           let parent = path_Join cgroup_root (trim_slash (the (selfCgroupRel (Some s))));
           mk \<leftarrow> mkdirUniqueCgroup S parent;
           case mk of
             Inl e \<Rightarrow> State_Monad.return (Inl e)
           | Inr path \<Rightarrow> cgroup_open S parent path l
         }
     }
   }"

definition newJob_linux :: "'w sysapi \<Rightarrow> limits \<Rightarrow> ('w sysm, goerr + unixJob) state" where
  "newJob_linux S l = do {
     cg \<leftarrow> createCgroup S l;
     State_Monad.return (case cg of
         Inl e \<Rightarrow> if limits_Any l then Inl e else Inr (PGroup newPgroupJob)
       | Inr j \<Rightarrow> Inr (CGroup j))
   }"

fun unixJob_Mechanism :: "unixJob \<Rightarrow> sys_mechanism" where
  "unixJob_Mechanism (PGroup j) = Sys_ProcessGroup"
| "unixJob_Mechanism (CGroup j) = Sys_CgroupV2"

section \<open>Traces\<close>

text \<open>The first error of a list of kill answers that is not one of the two benign ones.\<close>

definition real_error :: "errno option \<Rightarrow> bool" where
  "real_error e \<longleftrightarrow> (\<exists>n. e = Some n \<and> n \<noteq> ESRCH \<and> n \<noteq> EPERM)"

definition first_real :: "goerr option \<Rightarrow> errno option list \<Rightarrow> goerr option" where
  "first_real fe es =
    (if fe \<noteq> None then fe else map_option (\<lambda>e. Errno (the e)) (List.find real_error es))"

lemma deliver_emits:
  "emits (deliver S t sig fe) m (\<lambda>tr r. tr = [SKill t sig] \<and> (\<exists>e. r = first_real fe [e]))"
  unfolding deliver_def sys_Kill_def
proof (rule emits_bind [where P = "\<lambda>tr e. tr = [SKill t sig]"])
  fix tr e m'
  assume "tr = [SKill t sig]"
  moreover have "(case e of None \<Rightarrow> fe
      | Some e' \<Rightarrow> if e' = ESRCH \<or> e' = EPERM then fe else if fe = None then Some (Errno e') else fe)
    = first_real fe [e]"
    by (auto simp: first_real_def real_error_def split: option.split)
  ultimately show "emits (State_Monad.return (case e of None \<Rightarrow> fe
      | Some e' \<Rightarrow> if e' = ESRCH \<or> e' = EPERM then fe else if fe = None then Some (Errno e') else fe)) m'
    (\<lambda>tr' r. tr @ tr' = [SKill t sig] \<and> (\<exists>e. r = first_real fe [e]))"
    by (intro emits_return) auto
qed (simp add: emits_sys_do)

lemma first_real_append: "first_real (first_real fe es) es' = first_real fe (es @ es')"
  by (auto simp: first_real_def split: option.split) (induction es; auto)+

lemma deliver_all_emits:
  "emits (deliver_all S sig ts fe) m
    (\<lambda>tr r. tr = map (\<lambda>t. SKill t sig) ts \<and> (\<exists>es. length es = length ts \<and> r = first_real fe es))"
proof (induction ts arbitrary: fe m)
  case Nil
  show ?case by (auto simp: first_real_def)
next
  case (Cons t ts)
  show ?case
    unfolding deliver_all.simps
  proof (rule emits_bind [OF deliver_emits])
    fix tr r m'
    assume a: "tr = [SKill t sig] \<and> (\<exists>e. r = first_real fe [e])"
    then obtain e where e: "r = first_real fe [e]" by blast
    show "emits (deliver_all S sig ts r) m'
        (\<lambda>tr' ra. tr @ tr' = map (\<lambda>t. SKill t sig) (t # ts)
          \<and> (\<exists>es. length es = length (t # ts) \<and> ra = first_real fe es))"
    proof (rule emits_mono [OF Cons.IH], elim conjE exE)
      fix tr' ra es
      assume "tr' = map (\<lambda>t. SKill t sig) ts" "length es = length ts" "ra = first_real r es"
      with a e show "tr @ tr' = map (\<lambda>t. SKill t sig) (t # ts)
          \<and> (\<exists>es. length es = length (t # ts) \<and> ra = first_real fe es)"
        by (simp add: first_real_append) (metis length_Cons)
    qed
  qed
qed

lemma pgroup_Signal_emits:
  "emits (pgroup_Signal S j sig) m
    (\<lambda>tr r. tr = map (\<lambda>t. SKill t sig) (pgroup_targets j)
      \<and> (\<exists>es. length es = length (pgroup_targets j) \<and> r = first_real None es))"
  unfolding pgroup_Signal_def
proof (rule emits_bind [OF deliver_all_emits])
  fix tr r m'
  let ?gs = "map uminus (pg_pgids j)"
  assume a: "tr = map (\<lambda>t. SKill t sig) ?gs \<and> (\<exists>es. length es = length ?gs \<and> r = first_real None es)"
  then obtain es where es: "length es = length ?gs" "r = first_real None es" by blast
  show "emits (deliver_all S sig (pg_solo j) r) m'
      (\<lambda>tr' r. tr @ tr' = map (\<lambda>t. SKill t sig) (pgroup_targets j)
        \<and> (\<exists>es. length es = length (pgroup_targets j) \<and> r = first_real None es))"
  proof (rule emits_mono [OF deliver_all_emits], elim conjE exE)
    fix tr' ra es'
    assume "tr' = map (\<lambda>t. SKill t sig) (pg_solo j)" "length es' = length (pg_solo j)" "ra = first_real r es'"
    with a es have "tr @ tr' = map (\<lambda>t. SKill t sig) (pgroup_targets j)"
      "length (es @ es') = length (pgroup_targets j)" "ra = first_real None (es @ es')"
      by (simp_all add: pgroup_targets_def first_real_append)
    then show "tr @ tr' = map (\<lambda>t. SKill t sig) (pgroup_targets j)
        \<and> (\<exists>es. length es = length (pgroup_targets j) \<and> ra = first_real None es)" by blast
  qed
qed

lemma pgroup_Adopt_emits:
  "emits (pgroup_Adopt S j p) m (\<lambda>tr (r, j'). r = None \<and>
    (j' = j\<lparr>pg_pgids := pg_pgids j @ [p]\<rparr> \<or> j' = trackSolo j p \<or> j' = j))"
  unfolding pgroup_Adopt_def sys_defs
  by (rule emits_bind [where P = "\<lambda>tr e. True"])
    (auto intro!: emits_sys_do emits_if emits_return emits_bind [where P = "\<lambda>tr e. True"])

subsection \<open>The kill of a cgroup\<close>

text \<open>
  What the kill of a cgroup is to do, over its calls and what it read: the atomic kill; or, when that is
  refused, between a freeze and a thaw, rounds that each read the members and send SIGKILL to every pid
  the file lists, until a read lists none or 50 rounds were made, and a last look at the members.
\<close>

definition kill_round :: "cgroupJob \<Rightarrow> syscall list \<Rightarrow> bool" where
  "kill_round j tr \<longleftrightarrow> (\<exists>f ks. tr = SRead (path_Join (cg_path j) ''cgroup.procs'') f # ks @ [SSleep 2000000]
     \<and> (\<forall>k \<in> set ks. \<exists>p > 0. k = SKill p 9) \<and> (\<forall>p. lists_pid f p \<longrightarrow> SKill p 9 \<in> set ks))"

definition nobody_left :: "cgroupJob \<Rightarrow> syscall \<Rightarrow> bool" where
  "nobody_left j c \<longleftrightarrow> (\<exists>f. c = SRead (path_Join (cg_path j) ''cgroup.procs'') f \<and> (\<forall>p. \<not> lists_pid f p))"

definition swept :: "cgroupJob \<Rightarrow> nat \<Rightarrow> syscall list \<Rightarrow> bool" where
  "swept j n tr \<longleftrightarrow> (\<exists>rounds stop. tr = concat rounds @ stop \<and> list_all (kill_round j) rounds
     \<and> (if length rounds = n then stop = [] else length rounds < n \<and> (\<exists>c. stop = [c] \<and> nobody_left j c)))"

definition cgroup_killed :: "cgroupJob \<Rightarrow> syscall list \<Rightarrow> bool" where
  "cgroup_killed j tr \<longleftrightarrow> tr = [SWrite (path_Join (cg_path j) ''cgroup.kill'') ''1'' True]
    \<or> (\<exists>b1 sweep b2 f. tr = [SWrite (path_Join (cg_path j) ''cgroup.kill'') ''1'' False,
          SWrite (path_Join (cg_path j) ''cgroup.freeze'') ''1'' b1] @ sweep
          @ [SWrite (path_Join (cg_path j) ''cgroup.freeze'') ''0'' b2,
             SRead (path_Join (cg_path j) ''cgroup.procs'') f] \<and> swept j 50 sweep)"

lemma cgroup_members_emits:
  "emits (cgroup_members S j) m (\<lambda>tr ps. \<exists>f. tr = [SRead (procs_file j) f] \<and> ps = members f)"
  unfolding cgroup_members_def
  by (rule emits_bind [where P = "\<lambda>tr r. tr = [SRead (procs_file j) (read_content r)]"])
    (auto intro!: emits_sys_do emits_return)

lemma kill_each_emits: "emits (kill_each S ps) m (\<lambda>tr r. tr = map (\<lambda>p. SKill p SIGKILL) ps)"
proof (induction ps arbitrary: m)
  case Nil
  show ?case by auto
next
  case (Cons p ps)
  show ?case unfolding kill_each.simps
    by (rule emits_bind [where P = "\<lambda>tr r. tr = [SKill p SIGKILL]"])
      (use Cons in \<open>auto simp: sys_Kill_def intro!: emits_sys_do emits_mono [OF Cons.IH]\<close>)
qed

lemma kill_round_members:
  "kill_round j (SRead (procs_file j) f # map (\<lambda>p. SKill p SIGKILL) (members f) @ [SSleep 2000000])"
proof -
  have "\<forall>p \<in> set (members f). 0 < p" using members_pos [of f] by (simp add: list_all_iff)
  moreover have "\<forall>p. lists_pid f p \<longrightarrow> p \<in> set (members f)" using members_lists by blast
  ultimately show ?thesis unfolding kill_round_def procs_file_def SIGKILL_def
    by (intro exI [of _ f] exI [of _ "map (\<lambda>p. SKill p 9) (members f)"]) auto
qed

lemma swept_intros:
  "swept j 0 []"
  "members f = [] \<Longrightarrow> swept j (Suc n) [SRead (procs_file j) f]"
  "kill_round j r \<Longrightarrow> swept j n tr \<Longrightarrow> swept j (Suc n) (r @ tr)"
proof -
  show "swept j 0 []" by (auto simp: swept_def)
  show "swept j (Suc n) [SRead (procs_file j) f]" if "members f = []"
    using members_lists [of f] that unfolding swept_def nobody_left_def procs_file_def
    by (intro exI [of _ "[]"] exI [of _ "[SRead (path_Join (cg_path j) ''cgroup.procs'') f]"]) auto
  assume r: "kill_round j r" and "swept j n tr"
  then obtain rounds stop where "tr = concat rounds @ stop" "list_all (kill_round j) rounds"
    "if length rounds = n then stop = [] else length rounds < n \<and> (\<exists>c. stop = [c] \<and> nobody_left j c)"
    unfolding swept_def by blast
  with r show "swept j (Suc n) (r @ tr)"
    unfolding swept_def by (intro exI [of _ "r # rounds"] exI [of _ stop]) auto
qed

lemma kill_sweep_emits: "emits (kill_sweep S j n) m (\<lambda>tr r. swept j n tr)"
proof (induction n arbitrary: m)
  case 0
  show ?case by (auto simp: swept_intros)
next
  case (Suc n)
  show ?case unfolding kill_sweep.simps
  proof (rule emits_bind [OF cgroup_members_emits], rule emits_if)
    fix tr :: "syscall list" and ps :: "int list" and m' :: "'a sysm"
    assume a: "\<exists>f. tr = [SRead (procs_file j) f] \<and> ps = members f"
    show "emits (do { kill_each S ps; sys_Sleep S 2000000; kill_sweep S j n }) m'
        (\<lambda>tr' r. swept j (Suc n) (tr @ tr'))"
    proof (rule emits_bind [OF kill_each_emits],
        rule emits_bind [where P = "\<lambda>tr r. tr = [SSleep 2000000]"], goal_cases)
      case 1
      show ?case by (simp add: sys_Sleep_def emits_sys_do)
    next
      case (2 tr1 u m1 tr2 u2 m2)
      from a obtain f where f: "tr = [SRead (procs_file j) f]" "ps = members f" by blast
      show ?case
        by (rule emits_mono [OF Suc.IH]) (use 2 f swept_intros(3) [OF kill_round_members [of j f]] in auto)
    qed
  qed (auto intro!: emits_return swept_intros(2))
qed

lemma cgroup_killed_intros:
  "cgroup_killed j [SWrite (kill_file j) ''1'' True]"
  "swept j 50 sw \<Longrightarrow> cgroup_killed j ([SWrite (kill_file j) ''1'' False, SWrite (freeze_file j) ''1'' b1] @ sw
    @ [SWrite (freeze_file j) ''0'' b2, SRead (procs_file j) f])"
  unfolding cgroup_killed_def kill_file_def freeze_file_def procs_file_def by blast+

lemma cgroup_Kill_emits:
  "emits (cgroup_Kill S j) m (\<lambda>tr r. cgroup_killed j tr \<and> (tr = [SWrite (kill_file j) ''1'' True] \<longrightarrow> r = None))"
  unfolding cgroup_Kill_def writeCgroup_def
proof (rule emits_bind [where P = "\<lambda>tr r. tr = [SWrite (kill_file j) ''1'' (r = None)]"], goal_cases)
  case 1
  show ?case by (simp add: emits_sys_do)
next
  case (2 tr err m1)
  show ?case
  proof (rule emits_if)
    assume e: "err \<noteq> None"
    show "emits (do {
         _ \<leftarrow> sys_do (write_world S (freeze_file j) ''1'') (\<lambda>r. [SWrite (freeze_file j) ''1'' (r = None)]);
         kill_sweep S j 50;
         _ \<leftarrow> sys_do (write_world S (freeze_file j) ''0'') (\<lambda>r. [SWrite (freeze_file j) ''0'' (r = None)]);
         ps \<leftarrow> cgroup_members S j;
         State_Monad.return (if ps = [] then None
           else Some (Plain ''sys: cgroup did not drain after the bounded SIGKILL sweep (kernel < 5.14 fallback)''))
       }) m1 (\<lambda>tr' r. cgroup_killed j (tr @ tr') \<and> (tr @ tr' = [SWrite (kill_file j) ''1'' True] \<longrightarrow> r = None))"
      by (rule emits_bind [where P = "\<lambda>tr r. \<exists>b. tr = [SWrite (freeze_file j) ''1'' b]"],
          (simp add: emits_sys_do),
          rule emits_bind [OF kill_sweep_emits],
          rule emits_bind [where P = "\<lambda>tr r. \<exists>b. tr = [SWrite (freeze_file j) ''0'' b]"],
          (simp add: emits_sys_do),
          rule emits_bind [OF cgroup_members_emits])
        (use e 2 cgroup_killed_intros(2) [of j] in \<open>auto intro!: emits_return\<close>)
  qed (use 2 in \<open>auto intro: cgroup_killed_intros(1)\<close>)
qed

lemma wp_any: "(\<And>a s. Q a s) \<Longrightarrow> wp c Q m"
  by (simp add: wp_def split: prod.split)

text \<open>
  What the backend relies on of the kernel: \<^verbatim>\<open>cgroup.procs\<close> lists the member pids.
\<close>

definition lists_pids :: "'w sysapi \<Rightarrow> cgroupJob \<Rightarrow> ('w \<Rightarrow> int list) \<Rightarrow> bool" where
  "lists_pids S j pids \<longleftrightarrow>
    (\<forall>w. list_all (\<lambda>p. 0 < p \<and> p < 2 ^ 63) (pids w)
      \<and> sy_readFile S (path_Join (cg_path j) ''cgroup.procs'') w = (Inr (render_pids (pids w)), w))"

lemma wp_members:
  assumes "lists_pids S j pids"
  shows "wp (cgroup_members S j) Q m =
    Q (pids (sm_world m)) (m\<lparr>sm_calls := sm_calls m @ [SRead (procs_file j) (Some (render_pids (pids (sm_world m))))]\<rparr>)"
  using assms by (simp add: lists_pids_def cgroup_members_def procs_file_def read_content_def wp_simps members_render)

lemma cgroup_Kill_drained:
  assumes "lists_pids S j pids"
  shows "wp (cgroup_Kill S j) (\<lambda>r m'. sm_calls m' = sm_calls m @ [SWrite (kill_file j) ''1'' True]
    \<or> (r = None \<longleftrightarrow> pids (sm_world m') = [])) m"
proof -
  have t: "wp (kill_sweep S j 50) (\<lambda>_. wp (do {
        _ \<leftarrow> writeCgroup S (freeze_file j) ''0'';
        ps \<leftarrow> cgroup_members S j;
        State_Monad.return (if ps = [] then None
          else Some (Plain ''sys: cgroup did not drain after the bounded SIGKILL sweep (kernel < 5.14 fallback)''))
      }) (\<lambda>r m'. sm_calls m' = sm_calls m @ [SWrite (kill_file j) ''1'' True]
        \<or> (r = None \<longleftrightarrow> pids (sm_world m') = []))) m'" for m'
    by (rule wp_any) (simp add: wp_simps writeCgroup_def wp_members [OF assms])
  show ?thesis
    unfolding cgroup_Kill_def wp_bind writeCgroup_def [of _ "kill_file j"] wp_sys_do
    using t by (auto simp: wp_return wp_bind writeCgroup_def wp_sys_do)
qed

subsection \<open>Creation\<close>

fun is_write :: "syscall \<Rightarrow> bool" where
  "is_write (SWrite p c b) = True"
| "is_write _ = False"

fun failed_mkdir :: "syscall \<Rightarrow> bool" where
  "failed_mkdir (SMkdir p b) = (\<not> b)"
| "failed_mkdir _ = False"

definition cap_done :: "bytes \<times> bytes \<Rightarrow> syscall" where
  "cap_done pc = SWrite (fst pc) (snd pc) True"

lemma write_caps_emits:
  "emits (write_caps S cs) m (\<lambda>tr r. list_all is_write tr \<and> (r = None \<longrightarrow> tr = map cap_done cs))"
proof (induction cs arbitrary: m)
  case Nil
  show ?case by auto
next
  case (Cons c cs)
  obtain path content where c: "c = (path, content)" by fastforce
  show ?case unfolding c write_caps.simps writeCgroup_def
    by (rule emits_bind [where P = "\<lambda>tr r. tr = [SWrite path content (r = None)]"])
      (auto simp: cap_done_def intro!: emits_sys_do emits_if emits_return emits_mono [OF Cons.IH])
qed

lemma applyLimits_emits:
  "emits (applyLimits S path parent l) m
    (\<lambda>tr r. list_all is_write tr \<and> (r = None \<longrightarrow> set (map cap_done (cap_writes path l)) \<subseteq> set tr))"
  unfolding applyLimits_def sys_ReadFile_def Let_def
  by (rule emits_bind [where P = "\<lambda>tr r. tr = []"], simp add: emits_sys_do,
      rule emits_bind [where P = "\<lambda>tr r. list_all is_write tr"])
    (auto simp: writeCgroup_def intro!: emits_if emits_sys_do emits_return emits_mono [OF write_caps_emits]
      split: option.split)

lemma mkdir_tries_emits:
  "emits (mkdir_tries S parent n) m (\<lambda>tr r. length tr \<le> n \<and>
    (case r of Inl e \<Rightarrow> list_all failed_mkdir tr
     | Inr path \<Rightarrow> \<exists>ts. tr = ts @ [SMkdir path True] \<and> list_all failed_mkdir ts))"
proof (induction n arbitrary: m)
  case 0
  show ?case by auto
next
  case (Suc n)
  have k: "emits next_counter m (\<lambda>tr r. tr = [])" for m :: "'a sysm"
    by (simp add: emits_on_def next_counter_def wp_def)
  show ?case unfolding mkdir_tries.simps Let_def
  proof (rule emits_bind [OF k], goal_cases)
    case (1 tr k m')
    let ?p = "path_Join parent (''processkit-'' @ itoa (sy_getpid S) @ ''-'' @ sy_salt S @ ''-'' @ itoa (uint k))"
    show ?case
      by (rule emits_bind [where P = "\<lambda>tr r. tr = [SMkdir ?p (r = None)]"])
        (use 1 in \<open>auto intro!: emits_sys_do emits_if emits_return emits_mono [OF Suc.IH]
          split: option.split sum.splits\<close>)
  qed
qed

text \<open>
  What creation leaves in the trace: a job stands for a created directory, never removed, in which every
  cap asked for was written with its value, and which was then opened, as the last call, under the
  handle of the job; a failure removes the directory it created, if any, as its last call.
\<close>

definition capped :: "limits \<Rightarrow> bytes \<Rightarrow> syscall list \<Rightarrow> bool" where
  "capped l path tr \<longleftrightarrow>
    (lim_HasMemoryMax l \<longrightarrow> SWrite (path_Join path ''memory.max'') (nat_dec (unat (lim_MemoryMax l))) True \<in> set tr)
    \<and> (lim_HasMaxProcesses l \<longrightarrow> SWrite (path_Join path ''pids.max'') (nat_dec (unat (lim_MaxProcesses l))) True \<in> set tr)
    \<and> (lim_HasCPUQuota l \<longrightarrow>
        SWrite (path_Join path ''cpu.max'') (itoa (cpuMax_quota (lim_CPUQuota l)) @ '' '' @ itoa 100000) True \<in> set tr)"

definition created :: "limits \<Rightarrow> syscall list \<Rightarrow> cgroupJob \<Rightarrow> bool" where
  "created l tr j \<longleftrightarrow> SMkdir (cg_path j) True \<in> set tr \<and> (\<forall>p. SRemove p \<notin> set tr)
    \<and> last tr = SOpenDir (cg_path j) (Some (cg_dirFD j)) \<and> capped l (cg_path j) tr"

lemma cap_writes_capped: "set (map cap_done (cap_writes path l)) \<subseteq> set tr \<Longrightarrow> capped l path tr"
  unfolding capped_def cap_writes_def cpuMaxValue_def
  by (intro conjI impI) (simp_all add: cap_done_def)

lemma capped_mono: "capped l path tr \<Longrightarrow> set tr \<subseteq> set tr' \<Longrightarrow> capped l path tr'"
  unfolding capped_def by blast

lemma capped_none: "\<not> limits_Any l \<Longrightarrow> capped l path tr"
  by (simp add: capped_def limits_Any_def)

definition cleaned_up :: "syscall list \<Rightarrow> bool" where
  "cleaned_up tr \<longleftrightarrow> (\<forall>p. SMkdir p True \<in> set tr \<longrightarrow> last tr = SRemove p)"

lemma no_remove: "list_all is_write tr \<Longrightarrow> SRemove p \<notin> set tr" "list_all failed_mkdir tr \<Longrightarrow> SRemove p \<notin> set tr"
  by (auto simp: list_all_iff dest!: bspec)

lemma no_mkdir: "list_all is_write tr \<Longrightarrow> SMkdir p b \<notin> set tr" "list_all failed_mkdir tr \<Longrightarrow> SMkdir p True \<notin> set tr"
  by (auto simp: list_all_iff dest!: bspec)

lemma cgroup_open_emits:
  "emits (cgroup_open S parent path l) m (\<lambda>tr r.
    \<exists>ws. list_all is_write ws \<and>
    (case r of
       Inl e \<Rightarrow> \<exists>os. tr = ws @ os @ [SRemove path] \<and> (os = [] \<or> os = [SOpenDir path None])
     | Inr j \<Rightarrow> tr = ws @ [SOpenDir path (Some (cg_dirFD j))] \<and> cg_path j = path \<and> capped l path ws))"
  unfolding cgroup_open_def
proof (rule emits_bind [where P = "\<lambda>tr r. list_all is_write tr
      \<and> (r = None \<longrightarrow> capped l path tr)"], goal_cases)
  case 1
  show ?case
    by (rule emits_if) (auto intro!: emits_mono [OF applyLimits_emits] intro: cap_writes_capped capped_none)
next
  case (2 tr lerr m1)
  show ?case
  proof (cases lerr)
    case (Some e)
    show ?thesis unfolding Some option.case
      by (rule emits_bind [where P = "\<lambda>tr r. tr = [SRemove path]"])
        (use 2 in \<open>auto simp: sys_Remove_def intro!: emits_sys_do emits_return exI [of _ tr]\<close>)
  next
    case None
    show ?thesis unfolding None option.case
    proof (rule emits_bind [where P = "\<lambda>tr d. tr = [SOpenDir path (case d of Inl _ \<Rightarrow> None | Inr fd \<Rightarrow> Some fd)]"], goal_cases)
      case 1
      show ?case by (simp add: emits_sys_do)
    next
      case (2 tr1 d m2)
      show ?case
      proof (cases d)
        case (Inl e)
        show ?thesis unfolding Inl sum.case
          by (rule emits_bind [where P = "\<lambda>tr r. tr = [SRemove path]"])
            (use 2 \<open>list_all is_write tr \<and> _\<close> Inl in
              \<open>auto simp: sys_Remove_def intro!: emits_sys_do emits_return exI [of _ tr]\<close>)
      next
        case (Inr fd)
        show ?thesis unfolding Inr sum.case
          using 2 \<open>list_all is_write tr \<and> _\<close> Inr None
          by (auto intro!: emits_return exI [of _ tr])
      qed
    qed
  qed
qed

lemma createCgroup_emits:
  "emits (createCgroup S l) m (\<lambda>tr r. case r of Inl e \<Rightarrow> cleaned_up tr | Inr j \<Rightarrow> created l tr j)"
  unfolding createCgroup_def
proof (rule emits_bind [where P = "\<lambda>tr r. tr = []"], goal_cases)
  case 1
  show ?case by (simp add: emits_sys_do)
next
  case (2 tr st m1)
  show ?case
  proof (intro emits_if emits_bind [where P = "\<lambda>tr r. tr = []"], goal_cases)
    case (3)
    show ?case by (simp add: emits_sys_do sys_ReadFile_def)
  next
    case (4 tr1 self m2)
    show ?case
    proof (cases self)
      case (Inl e)
      then show ?thesis using 2 4 by (auto simp: cleaned_up_def)
    next
      case (Inr s)
      show ?thesis unfolding Inr sum.case Let_def mkdirUniqueCgroup_def
      proof (rule emits_bind [OF mkdir_tries_emits], goal_cases)
        case (1 tr2 mk m3)
        show ?case
        proof (cases mk)
          case (Inl e)
          then show ?thesis using 1 2 4 by (auto simp: cleaned_up_def no_mkdir intro!: emits_return)
        next
          case (Inr path)
          then obtain ts where ts: "tr2 = ts @ [SMkdir path True]" "list_all failed_mkdir ts"
            using 1 by auto
          show ?thesis unfolding Inr sum.case
            by (rule emits_mono [OF cgroup_open_emits])
              (use 2 4 ts in \<open>auto simp: cleaned_up_def created_def no_mkdir no_remove split: sum.splits
                intro: capped_mono\<close>)
        qed
      qed
    qed
  qed (use 2 in \<open>auto simp: cleaned_up_def\<close>)
qed

lemma newJob_linux_emits:
  "emits (newJob_linux S l) m (\<lambda>tr r. case r of
      Inl e \<Rightarrow> limits_Any l \<and> cleaned_up tr
    | Inr (PGroup j) \<Rightarrow> \<not> limits_Any l \<and> cleaned_up tr \<and> j = newPgroupJob
    | Inr (CGroup j) \<Rightarrow> created l tr j)"
  unfolding newJob_linux_def
  by (rule emits_bind [OF createCgroup_emits]) (auto intro!: emits_return split: sum.splits)

section \<open>A concrete kernel\<close>

text \<open>
  A kernel on which every call succeeds and \<^verbatim>\<open>cgroup.kill\<close> empties the one cgroup there is, used to
  exhibit runs; the world is the list of its members.
\<close>

definition demo_job :: cgroupJob where
  "demo_job = \<lparr>cg_path = ''/sys/fs/cgroup/demo'', cg_dirFD = 3\<rparr>"

definition demo_pids :: "int list \<Rightarrow> int list" where
  "demo_pids w = filter (\<lambda>p. 0 < p \<and> p < 2 ^ 63) w"

definition demo_sys :: "int list sysapi" where
  "demo_sys =
    \<lparr>sy_kill = (\<lambda>t sig w. (None, w)),
     sy_setpgid = (\<lambda>p w. (Some EACCES, w)),
     sy_readFile = (\<lambda>path w. (Inr (if path = path_Join (cg_path demo_job) ''cgroup.procs''
        then render_pids (demo_pids w) else ''0::/user''), w)),
     sy_openWrite = (\<lambda>path w. (None, w)),
     sy_write = (\<lambda>path content w. (None, if path = kill_file demo_job then [] else w)),
     sy_closeFile = (\<lambda>path w. (None, w)),
     sy_sleep = (\<lambda>d w. w),
     sy_stat = (\<lambda>path w. (None, w)),
     sy_mkdir = (\<lambda>path w. (None, w)),
     sy_remove = (\<lambda>path w. w),
     sy_openDir = (\<lambda>path w. (Inr 3, w)),
     sy_closeDir = (\<lambda>fd w. w),
     sy_uname = Some ''6.1.0'',
     sy_getpid = 77,
     sy_salt = ''abc'',
     sy_SIGSTOP = 19,
     sy_SIGCONT = 18\<rparr>"

definition demo_limits :: limits where
  "demo_limits = \<lparr>lim_MemoryMax = 1048576, lim_HasMemoryMax = True, lim_MaxProcesses = 0,
     lim_HasMaxProcesses = False, lim_CPUQuota = Fin 0, lim_HasCPUQuota = False\<rparr>"

lemma demo_lists: "lists_pids demo_sys demo_job demo_pids"
  by (simp add: lists_pids_def demo_sys_def demo_pids_def list_all_iff)

lemma demo_signallable: "fst (sy_kill demo_sys t sig w) = None"
  by (simp add: demo_sys_def)

section \<open>Properties\<close>

text \<open>
  Signalling a process-group job, and so its hard kill, reaches every tracked group and
  every individually adopted process exactly once, in order, however many deliveries fail; the answer
  is the first failure that is not ESRCH or EPERM.
\<close>

theorem pgroup_signal_reaches_all:
  "case run_state (pgroup_Signal S j sig) m of (r, m') \<Rightarrow>
    sm_calls m' = sm_calls m @ map (\<lambda>g. SKill (- g) sig) (pg_pgids j) @ map (\<lambda>p. SKill p sig) (pg_solo j)
    \<and> (\<exists>es. length es = length (pg_pgids j) + length (pg_solo j) \<and> r = first_real None es)"
proof -
  obtain r m' where run: "run_state (pgroup_Signal S j sig) m = (r, m')" by fastforce
  from emits_run [OF pgroup_Signal_emits run] show ?thesis
    by (auto simp: run pgroup_targets_def comp_def)
qed

text \<open>
  Adopting a process into a process-group job never fails and never loses a member: the
  process becomes a tracked group when \<^verbatim>\<open>setpgid\<close> succeeds, is tracked alone when it does not but the
  process can be signalled, and only an unreachable process stays outside; whatever is tracked is hit
  by the next hard kill.
\<close>

theorem adopted_process_is_killed:
  assumes "run_state (pgroup_Adopt S j p) m = ((r, j'), m1)" "run_state (pgroup_Kill S j') m1 = (k, m2)"
    "fst (sy_setpgid S p (sm_world m)) = None
      \<or> fst (sy_kill S p 0 (snd (sy_setpgid S p (sm_world m)))) = None"
  shows "r = None \<and> set (pgroup_targets j) \<subseteq> set (pgroup_targets j')
    \<and> (SKill (- p) SIGKILL \<in> set (sm_calls m2) \<or> SKill p SIGKILL \<in> set (sm_calls m2))"
proof -
  have "r = None \<and> set (pgroup_targets j) \<subseteq> set (pgroup_targets j')
      \<and> (- p \<in> set (pgroup_targets j') \<or> p \<in> set (pgroup_targets j'))"
    using assms(1,3)
    by (auto simp: pgroup_Adopt_def sys_Setpgid_def sys_Kill_def sys_do_def trackSolo_def pgroup_targets_def
        split: prod.splits if_splits)
  moreover from emits_run [OF pgroup_Signal_emits assms(2) [unfolded pgroup_Kill_def]]
  have "set (map (\<lambda>t. SKill t SIGKILL) (pgroup_targets j')) \<subseteq> set (sm_calls m2)" by auto
  ultimately show ?thesis by auto
qed

theorem adopted_process_is_killed_witness:
  "SKill 5 SIGKILL \<in> set (sm_calls (snd (run_state (pgroup_Kill demo_sys (trackSolo newPgroupJob 5))
      (sysm0 [] 0\<lparr>sm_calls := [SSetpgid 5, SKill 5 0]\<rparr>))))
   \<or> SKill (- 5) SIGKILL \<in> set (sm_calls (snd (run_state (pgroup_Kill demo_sys (trackSolo newPgroupJob 5))
      (sysm0 [] 0\<lparr>sm_calls := [SSetpgid 5, SKill 5 0]\<rparr>))))"
proof -
  let ?m1 = "sysm0 [] 0\<lparr>sm_calls := [SSetpgid 5, SKill 5 0]\<rparr> :: int list sysm"
  obtain k m2 where k: "run_state (pgroup_Kill demo_sys (trackSolo newPgroupJob 5)) ?m1 = (k, m2)"
    by fastforce
  have "run_state (pgroup_Adopt demo_sys newPgroupJob 5) (sysm0 [] 0)
      = ((None, trackSolo newPgroupJob 5), ?m1)"
    by (simp add: pgroup_Adopt_def sys_Setpgid_def sys_Kill_def sys_do_def demo_sys_def sysm0_def)
  from adopted_process_is_killed [OF this k disjI2 [OF demo_signallable]] show ?thesis
    unfolding k snd_conv by blast
qed

text \<open>
  Claim C23. The hard kill of a cgroup either writes \<^verbatim>\<open>cgroup.kill\<close>, once, and answers nil; or, when that
  is refused, freezes the cgroup, and in rounds, 50 at the most, reads the members and sends SIGKILL to
  every one of them until none is listed, then thaws the cgroup and looks again, and answers nil exactly
  when the cgroup is empty then, given that \<^verbatim>\<open>cgroup.procs\<close> lists its members.
\<close>

theorem cgroup_kill_drains:
  assumes "lists_pids S j pids" "run_state (cgroup_Kill S j) m = (r, m')"
  shows "\<exists>tr. sm_calls m' = sm_calls m @ tr \<and> cgroup_killed j tr
    \<and> (if tr = [SWrite (path_Join (cg_path j) ''cgroup.kill'') ''1'' True] then r = None
       else (r = None \<longleftrightarrow> pids (sm_world m') = []))"
proof -
  from emits_run [OF cgroup_Kill_emits assms(2)] obtain tr where t: "sm_calls m' = sm_calls m @ tr"
    "cgroup_killed j tr" "tr = [SWrite (kill_file j) ''1'' True] \<longrightarrow> r = None" by blast
  moreover from wp_run [OF cgroup_Kill_drained [OF assms(1)] assms(2)] t(1)
  have "tr = [SWrite (kill_file j) ''1'' True] \<or> (r = None \<longleftrightarrow> pids (sm_world m') = [])" by simp
  ultimately show ?thesis unfolding kill_file_def by (intro exI [of _ tr]) (simp split: if_split, blast)
qed

text \<open>A kernel before 5.14, without \<^verbatim>\<open>cgroup.kill\<close>, on which a signalled process is gone at once.\<close>

definition old_sys :: "int list sysapi" where
  "old_sys = demo_sys\<lparr>sy_openWrite := (\<lambda>path w. (if path = kill_file demo_job then Some (Sentinel Os_ErrNotExist) else None, w)),
     sy_kill := (\<lambda>t sig w. (None, filter (\<lambda>p. p \<noteq> t) w))\<rparr>"

theorem cgroup_kill_drains_witness:
  "case run_state (cgroup_Kill old_sys demo_job) (sysm0 [5, 6] 0) of (r, m') \<Rightarrow>
    cgroup_killed demo_job (sm_calls m')
    \<and> (sm_calls m' = [SWrite (path_Join (cg_path demo_job) ''cgroup.kill'') ''1'' True]
       \<or> (r = None \<longleftrightarrow> demo_pids (sm_world m') = []))"
proof -
  have "lists_pids old_sys demo_job demo_pids"
    using demo_lists by (simp add: lists_pids_def old_sys_def)
  moreover obtain r m' where "run_state (cgroup_Kill old_sys demo_job) (sysm0 [5, 6] 0) = (r, m')" by fastforce
  ultimately show ?thesis using cgroup_kill_drains [of old_sys demo_job demo_pids "sysm0 [5, 6] 0" r m']
    by (auto split: if_splits)
qed

text \<open>
  Claim C12. Creating a job on Linux never drops a requested cap and leaves no directory behind: the
  answer is a cgroup whose directory was created, in which \<^verbatim>\<open>memory.max\<close>, \<^verbatim>\<open>pids.max\<close> and \<^verbatim>\<open>cpu.max\<close> were
  each written with the value asked for if one was, and which was then opened under the job's handle;
  or, only when no cap was asked for, a process group; or an error, only when one was; a directory
  created before a failure is removed by the last call.  On the other Unix systems a requested cap is
  refused.
\<close>

theorem job_creation_enforces_limits:
  "(case run_state (newJob_linux S l) (sysm0 w k) of
      (Inl e, m') \<Rightarrow> limits_Any l \<and> cleaned_up (sm_calls m')
    | (Inr (PGroup j), m') \<Rightarrow> \<not> limits_Any l \<and> cleaned_up (sm_calls m') \<and> j = newPgroupJob
    | (Inr (CGroup j), m') \<Rightarrow> created l (sm_calls m') j)
   \<and> (isl (newJob_bsd l) \<longleftrightarrow> limits_Any l)"
proof -
  obtain r m' where run: "run_state (newJob_linux S l) (sysm0 w k) = (r, m')" by fastforce
  from emits_run [OF newJob_linux_emits run] show ?thesis
    by (auto simp: run newJob_bsd_def split: sum.splits unixJob.splits)
qed

end
