(* ===== verification/JobWindows.thy ===== *)
theory JobWindows
  imports Proc SysMachine
begin

text \<open>
  The containment backend of Windows (\<^verbatim>\<open>internal/sys/job_windows.go\<close>): one Job Object with
  kill-on-close, whose children are created suspended, assigned and then resumed.  The Win32 calls are
  a parameter record; deferred calls are written out at every return they run at.
\<close>

section \<open>Win32 calls\<close>

record jobAccounting =
  ja_TotalUserTime :: int64
  ja_TotalKernelTime :: int64
  ja_ActiveProcesses :: "32 word"

record 'w winapi =
  wn_createJob :: "'w \<Rightarrow> (goerr + handle) \<times> 'w"
  wn_setExtended :: "handle \<Rightarrow> 32 word \<Rightarrow> uint64 \<Rightarrow> 32 word \<Rightarrow> 'w \<Rightarrow> goerr option \<times> 'w"
  wn_setCpuRate :: "handle \<Rightarrow> int \<Rightarrow> 'w \<Rightarrow> goerr option \<times> 'w"
  wn_closeHandle :: "handle \<Rightarrow> 'w \<Rightarrow> goerr option \<times> 'w"
  wn_openProcess :: "32 word \<Rightarrow> 32 word \<Rightarrow> 'w \<Rightarrow> (goerr + handle) \<times> 'w"
  wn_assign :: "handle \<Rightarrow> handle \<Rightarrow> 'w \<Rightarrow> goerr option \<times> 'w"
  wn_ntResume :: "handle \<Rightarrow> 'w \<Rightarrow> uint64 \<times> 'w"
  wn_terminate :: "handle \<Rightarrow> 'w \<Rightarrow> 'w"
  wn_terminateJob :: "handle \<Rightarrow> 'w \<Rightarrow> goerr option \<times> 'w"
  wn_exitCode :: "handle \<Rightarrow> 'w \<Rightarrow> (goerr + 32 word) \<times> 'w"
  wn_accounting :: "handle \<Rightarrow> 'w \<Rightarrow> (goerr + jobAccounting) \<times> 'w"
  wn_peakMemory :: "handle \<Rightarrow> 'w \<Rightarrow> (goerr + uint64) \<times> 'w"
  wn_numCPU :: nat
  wn_is32bit :: bool

definition InvalidHandle :: handle where
  "InvalidHandle = 0xFFFFFFFFFFFFFFFF"

definition PROCESS_TERMINATE :: "32 word" where "PROCESS_TERMINATE = 0x1"
definition PROCESS_SET_QUOTA :: "32 word" where "PROCESS_SET_QUOTA = 0x100"
definition PROCESS_SUSPEND_RESUME :: "32 word" where "PROCESS_SUSPEND_RESUME = 0x800"
definition LIMIT_KILL_ON_JOB_CLOSE :: "32 word" where "LIMIT_KILL_ON_JOB_CLOSE = 0x2000"
definition LIMIT_JOB_MEMORY :: "32 word" where "LIMIT_JOB_MEMORY = 0x200"
definition LIMIT_ACTIVE_PROCESS :: "32 word" where "LIMIT_ACTIVE_PROCESS = 0x8"
definition CREATE_SUSPENDED :: "32 word" where "CREATE_SUSPENDED = 0x4"
definition ERROR_INVALID_PARAMETER :: errno where "ERROR_INVALID_PARAMETER = Errno_other 87"

definition stillActive :: "32 word" where
  "stillActive = 259"

definition win_close :: "'w winapi \<Rightarrow> handle \<Rightarrow> ('w sysm, goerr option) state" where
  "win_close W h = sys_do (wn_closeHandle W h) (\<lambda>_. [WCloseHandle h])"

definition win_open :: "'w winapi \<Rightarrow> 32 word \<Rightarrow> 32 word \<Rightarrow> ('w sysm, goerr + handle) state" where
  "win_open W access p = sys_do (wn_openProcess W access p)
     (\<lambda>r. [WOpenProcess access p (case r of Inl _ \<Rightarrow> None | Inr h \<Rightarrow> Some h)])"

definition win_assign :: "'w winapi \<Rightarrow> handle \<Rightarrow> handle \<Rightarrow> ('w sysm, goerr option) state" where
  "win_assign W job ph = sys_do (wn_assign W job ph) (\<lambda>r. [WAssign job ph (r = None)])"

definition win_terminate :: "'w winapi \<Rightarrow> handle \<Rightarrow> ('w sysm, unit) state" where
  "win_terminate W h = sys_do (\<lambda>w. ((), wn_terminate W h w)) (\<lambda>_. [WTerminate h])"

lemmas win_defs = win_close_def win_open_def win_assign_def win_terminate_def

text \<open>The lower-case hexadecimal rendering of \<^verbatim>\<open>0x%x\<close>.\<close>

fun nat_hex :: "nat \<Rightarrow> bytes" where
  "nat_hex n = (if n < 16 then [hexd n] else nat_hex (n div 16) @ [hexd n])"

declare nat_hex.simps [simp del]

definition ntResumeProcess :: "'w winapi \<Rightarrow> handle \<Rightarrow> ('w sysm, goerr option) state" where
  "ntResumeProcess W h = do {
     r \<leftarrow> sys_do (wn_ntResume W h) (\<lambda>r. [WResume h (r = 0)]);
     State_Monad.return (if r \<noteq> 0
       then Some (Plain (''NtResumeProcess returned NTSTATUS 0x'' @ nat_hex (unat (ucast r :: 32 word))))
       else None)
   }"

section \<open>The job\<close>

record winJob =
  wj_handle :: handle

definition job_open :: "winJob \<Rightarrow> bool" where
  "job_open j \<longleftrightarrow> \<not> (wj_handle j = InvalidHandle \<or> wj_handle j = 0)"

definition limit_flags :: "limits \<Rightarrow> 32 word" where
  "limit_flags l =
    or (or LIMIT_KILL_ON_JOB_CLOSE (if lim_HasMemoryMax l then LIMIT_JOB_MEMORY else 0))
       (if lim_HasMaxProcesses l then LIMIT_ACTIVE_PROCESS else 0)"

definition job_memory :: "'w winapi \<Rightarrow> limits \<Rightarrow> uint64" where
  "job_memory W l =
    (if \<not> lim_HasMemoryMax l then 0
     else if wn_is32bit W \<and> 0xFFFFFFFF < lim_MemoryMax l then 0xFFFFFFFF
     else lim_MemoryMax l)"

definition newJob_windows :: "'w winapi \<Rightarrow> limits \<Rightarrow> ('w sysm, goerr + winJob) state" where
  "newJob_windows W l = do {
     cj \<leftarrow> sys_do (wn_createJob W) (\<lambda>r. [WCreateJob (case r of Inl _ \<Rightarrow> None | Inr h \<Rightarrow> Some h)]);
     case cj of
       Inl err \<Rightarrow> State_Monad.return (Inl (Wrapped ''CreateJobObject: '' err))
     | Inr job \<Rightarrow> do {
         let nproc = (if lim_HasMaxProcesses l then lim_MaxProcesses l else 0);
         se \<leftarrow> sys_do (wn_setExtended W job (limit_flags l) (job_memory W l) nproc)
                 (\<lambda>r. [WSetExtended job (limit_flags l) (job_memory W l) nproc (r = None)]);
         case se of
           Some err \<Rightarrow> do {
             _ \<leftarrow> win_close W job;
             State_Monad.return (Inl (Wrapped ''SetInformationJobObject(extended-limit): '' err))
           }
         | None \<Rightarrow>
             if lim_HasCPUQuota l then do {
               let rate = cpuHardCapRate (lim_CPUQuota l) (f_of_int (int (wn_numCPU W)));
               sc \<leftarrow> sys_do (wn_setCpuRate W job rate) (\<lambda>r. [WSetCpuRate job rate (r = None)]);
               case sc of
                 Some err \<Rightarrow> do {
                   _ \<leftarrow> win_close W job;
                   State_Monad.return (Inl (Wrapped ''SetInformationJobObject(cpu-rate): '' err))
                 }
               | None \<Rightarrow> State_Monad.return (Inr \<lparr>wj_handle = job\<rparr>)
             }
             else State_Monad.return (Inr \<lparr>wj_handle = job\<rparr>)
       }
   }"

definition win_Configure :: "32 word \<Rightarrow> 32 word" where
  "win_Configure creationFlags = or creationFlags CREATE_SUSPENDED"

text \<open>The guard of \<^verbatim>\<open>Assign\<close>: terminate the child that is not contained.\<close>

definition child_guard :: "'w winapi \<Rightarrow> 32 word \<Rightarrow> ('w sysm, unit) state" where
  "child_guard W p = do {
     h \<leftarrow> win_open W PROCESS_TERMINATE p;
     case h of
       Inl _ \<Rightarrow> State_Monad.return ()
     | Inr h \<Rightarrow> do { win_terminate W h; _ \<leftarrow> win_close W h; State_Monad.return () }
   }"

definition win_Assign :: "'w winapi \<Rightarrow> winJob \<Rightarrow> int option \<Rightarrow> ('w sysm, goerr option) state" where
  "win_Assign W j proc =
    (case proc of
       None \<Rightarrow> State_Monad.return (Some (Plain ''sys: Assign called before the process started''))
     | Some pid \<Rightarrow>
    (let p = word_of_int pid in
     if \<not> job_open j then State_Monad.return (Some (Plain ''sys: job is closed''))
     else do {
       o1 \<leftarrow> win_open W (or (or PROCESS_SET_QUOTA PROCESS_TERMINATE) PROCESS_SUSPEND_RESUME) p;
       case o1 of
         Inl err \<Rightarrow> do {
           child_guard W p;
           State_Monad.return (Some (Wrapped ''OpenProcess: '' err))
         }
       | Inr ph \<Rightarrow> do {
           a \<leftarrow> win_assign W (wj_handle j) ph;
           case a of
             Some err \<Rightarrow> do {
               _ \<leftarrow> win_close W ph;
               child_guard W p;
               State_Monad.return (Some (Wrapped ''AssignProcessToJobObject: '' err))
             }
           | None \<Rightarrow> do {
               r \<leftarrow> ntResumeProcess W ph;
               case r of
                 Some err \<Rightarrow> do {
                   win_terminate W ph;
                   _ \<leftarrow> win_close W ph;
                   State_Monad.return (Some (Wrapped ''resume process: '' err))
                 }
               | None \<Rightarrow> do { _ \<leftarrow> win_close W ph; State_Monad.return None }
             }
         }
     }))"

definition win_Signal :: "goerr option" where
  "win_Signal = Some (Sentinel Sys_ErrUnsupported)"

definition win_Suspend :: "goerr option" where
  "win_Suspend = Some (Sentinel Sys_ErrUnsupported)"

definition win_Resume :: "goerr option" where
  "win_Resume = Some (Sentinel Sys_ErrUnsupported)"

definition processExited :: "'w winapi \<Rightarrow> handle \<Rightarrow> ('w sysm, goerr + bool) state" where
  "processExited W h = do {
     r \<leftarrow> sys_do (wn_exitCode W h) (\<lambda>_. []);
     State_Monad.return (case r of Inl e \<Rightarrow> Inl e | Inr code \<Rightarrow> Inr (code \<noteq> stillActive))
   }"

definition win_Adopt :: "'w winapi \<Rightarrow> winJob \<Rightarrow> int \<Rightarrow> ('w sysm, goerr option) state" where
  "win_Adopt W j pid =
    (if \<not> job_open j then State_Monad.return (Some (Plain ''sys: job is closed''))
     else do {
       o1 \<leftarrow> win_open W (or PROCESS_SET_QUOTA PROCESS_TERMINATE) (word_of_int pid);
       case o1 of
         Inl err \<Rightarrow> State_Monad.return
           (if errors_Is err (TErrno ERROR_INVALID_PARAMETER) then None else Some (Wrapped ''OpenProcess: '' err))
       | Inr ph \<Rightarrow> do {
           a \<leftarrow> win_assign W (wj_handle j) ph;
           case a of
             None \<Rightarrow> do { _ \<leftarrow> win_close W ph; State_Monad.return None }
           | Some err \<Rightarrow> do {
               ex \<leftarrow> processExited W ph;
               _ \<leftarrow> win_close W ph;
               State_Monad.return (if ex = Inr True then None
                 else Some (Wrapped ''AssignProcessToJobObject: '' err))
             }
         }
     })"

definition win_Kill :: "'w winapi \<Rightarrow> winJob \<Rightarrow> ('w sysm, goerr option) state" where
  "win_Kill W j =
    (if \<not> job_open j then State_Monad.return None
     else sys_do (wn_terminateJob W (wj_handle j)) (\<lambda>r. [WTerminateJob (wj_handle j) (r = None)]))"

definition win_Close :: "'w winapi \<Rightarrow> winJob \<Rightarrow> ('w sysm, goerr option \<times> winJob) state" where
  "win_Close W j =
    (if job_open j then do {
       err \<leftarrow> win_close W (wj_handle j);
       State_Monad.return (err, j\<lparr>wj_handle := InvalidHandle\<rparr>)
     }
     else State_Monad.return (None, j))"

definition win_Stats :: "'w winapi \<Rightarrow> winJob \<Rightarrow> ('w sysm, goerr + sysStats) state" where
  "win_Stats W j =
    (if \<not> job_open j then State_Monad.return (Inr stats0)
     else do {
       a \<leftarrow> sys_do (wn_accounting W (wj_handle j)) (\<lambda>_. []);
       case a of
         Inl err \<Rightarrow> State_Monad.return (Inl (Wrapped ''QueryInformationJobObject(accounting): '' err))
       | Inr acct \<Rightarrow> do {
           let s = stats0\<lparr>ss_ActiveProcesses := unat (ja_ActiveProcesses acct),
                   ss_CPUTime := add100ns (ja_TotalUserTime acct) (ja_TotalKernelTime acct),
                   ss_HasCPU := True\<rparr>;
           e \<leftarrow> sys_do (wn_peakMemory W (wj_handle j)) (\<lambda>_. []);
           State_Monad.return (Inr (case e of Inl _ \<Rightarrow> s
             | Inr peak \<Rightarrow> s\<lparr>ss_PeakMemoryBytes := peak, ss_HasMem := True\<rparr>))
         }
     })"

section \<open>Traces\<close>

text \<open>
  What a trace of \<^verbatim>\<open>Assign\<close> may be: the child is resumed only once it is in the job, and every other
  ending terminates it, unless the operating system no longer lets it be opened.
\<close>

definition guard_trace :: "32 word \<Rightarrow> syscall list \<Rightarrow> bool" where
  "guard_trace p tr \<longleftrightarrow> tr = [WOpenProcess PROCESS_TERMINATE p None]
    \<or> (\<exists>h. tr = [WOpenProcess PROCESS_TERMINATE p (Some h), WTerminate h, WCloseHandle h])"

definition assign_access :: "32 word" where
  "assign_access = or (or PROCESS_SET_QUOTA PROCESS_TERMINATE) PROCESS_SUSPEND_RESUME"

definition assign_trace :: "handle \<Rightarrow> 32 word \<Rightarrow> syscall list \<Rightarrow> bool \<Rightarrow> bool" where
  "assign_trace job p tr ok \<longleftrightarrow>
    (\<exists>g. \<not> ok \<and> tr = WOpenProcess assign_access p None # g \<and> guard_trace p g)
    \<or> (\<exists>ph g. \<not> ok \<and> tr = [WOpenProcess assign_access p (Some ph), WAssign job ph False, WCloseHandle ph] @ g
          \<and> guard_trace p g)
    \<or> (\<exists>ph. \<not> ok \<and> tr = [WOpenProcess assign_access p (Some ph), WAssign job ph True, WResume ph False,
          WTerminate ph, WCloseHandle ph])
    \<or> (\<exists>ph. ok \<and> tr = [WOpenProcess assign_access p (Some ph), WAssign job ph True, WResume ph True,
          WCloseHandle ph])"

lemma assign_trace_intros:
  "guard_trace p g \<Longrightarrow> assign_trace job p (WOpenProcess assign_access p None # g) False"
  "guard_trace p g \<Longrightarrow> assign_trace job p (WOpenProcess assign_access p (Some ph)
     # WAssign job ph False # WCloseHandle ph # g) False"
  "assign_trace job p [WOpenProcess assign_access p (Some ph), WAssign job ph True, WResume ph False,
     WTerminate ph, WCloseHandle ph] False"
  "assign_trace job p [WOpenProcess assign_access p (Some ph), WAssign job ph True, WResume ph True,
     WCloseHandle ph] True"
  by (auto simp: assign_trace_def)

lemma child_guard_emits: "emits (child_guard W p) m (\<lambda>tr r. guard_trace p tr)"
  unfolding child_guard_def win_defs emits_on_def guard_trace_def
  by (auto simp: wp_simps split: sum.split)

lemma win_Assign_emits:
  assumes "job_open j"
  shows "emits (win_Assign W j (Some pid)) m
    (\<lambda>tr r. assign_trace (wj_handle j) (word_of_int pid) tr (r = None))"
proof -
  let ?p = "word_of_int pid :: 32 word"
  have g: "wp (child_guard W ?p) (\<lambda>u m'. \<exists>tr. sm_calls m' = sm_calls m1 @ tr \<and> guard_trace ?p tr) m1" for m1
    using child_guard_emits unfolding emits_on_def by fast
  have bad1: "wp (child_guard W ?p) (\<lambda>u. wp (State_Monad.return (Some e)) (\<lambda>r m'.
      \<exists>tr. sm_calls m' = sm_calls m @ tr \<and> assign_trace (wj_handle j) ?p tr (r = None))) m1"
    if "sm_calls m1 = sm_calls m @ [WOpenProcess assign_access ?p None]" for m1 e
    by (rule wp_mono [OF g]) (use that in \<open>auto simp: wp_return intro: assign_trace_intros\<close>)
  have bad2: "wp (child_guard W ?p) (\<lambda>u. wp (State_Monad.return (Some e)) (\<lambda>r m'.
      \<exists>tr. sm_calls m' = sm_calls m @ tr \<and> assign_trace (wj_handle j) ?p tr (r = None))) m1"
    if "sm_calls m1 = sm_calls m @ [WOpenProcess assign_access ?p (Some ph), WAssign (wj_handle j) ph False,
      WCloseHandle ph]" for m1 ph e
    by (rule wp_mono [OF g]) (use that in \<open>auto simp: wp_return intro: assign_trace_intros\<close>)
  show ?thesis
    using assms
    unfolding emits_on_def win_Assign_def Let_def ntResumeProcess_def win_defs
    by (auto simp: wp_simps assign_access_def [symmetric] split: sum.split option.split
        intro: assign_trace_intros) ((rule bad1, (simp; fail)) | (rule bad2, (simp; fail)))+
qed

text \<open>Creation: the trace ends with the job configured as asked, or with its handle closed.\<close>

definition extended_ok :: "'w winapi \<Rightarrow> limits \<Rightarrow> handle \<Rightarrow> syscall" where
  "extended_ok W l h = WSetExtended h (limit_flags l) (job_memory W l)
     (if lim_HasMaxProcesses l then lim_MaxProcesses l else 0) True"

definition cpu_rate :: "'w winapi \<Rightarrow> limits \<Rightarrow> int" where
  "cpu_rate W l = cpuHardCapRate (lim_CPUQuota l) (f_of_int (int (wn_numCPU W)))"

definition win_created :: "'w winapi \<Rightarrow> limits \<Rightarrow> syscall list \<Rightarrow> goerr + winJob \<Rightarrow> bool" where
  "win_created W l tr r \<longleftrightarrow>
    (case r of
       Inr j \<Rightarrow> extended_ok W l (wj_handle j) \<in> set tr \<and> WCloseHandle (wj_handle j) \<notin> set tr
         \<and> (lim_HasCPUQuota l \<longrightarrow> WSetCpuRate (wj_handle j) (cpu_rate W l) True \<in> set tr)
     | Inl e \<Rightarrow> \<forall>h. WCreateJob (Some h) \<in> set tr \<longrightarrow> last tr = WCloseHandle h)"

lemma newJob_windows_emits: "emits (newJob_windows W l) m (\<lambda>tr r. win_created W l tr r)"
  unfolding emits_on_def newJob_windows_def Let_def win_defs
  by (auto simp: wp_simps win_created_def extended_ok_def cpu_rate_def split: sum.split option.split)

lemma win_Adopt_emits:
  "emits (win_Adopt W j pid) m (\<lambda>tr r. \<forall>access p h. WOpenProcess access p (Some h) \<in> set tr \<longrightarrow> WCloseHandle h \<in> set tr)"
  unfolding emits_on_def win_Adopt_def win_defs processExited_def
  by (auto simp: wp_simps split: sum.split option.split)

lemma limit_flags_set:
  "and (limit_flags l) LIMIT_KILL_ON_JOB_CLOSE = LIMIT_KILL_ON_JOB_CLOSE"
  "and (limit_flags l) LIMIT_JOB_MEMORY = (if lim_HasMemoryMax l then LIMIT_JOB_MEMORY else 0)"
  "and (limit_flags l) LIMIT_ACTIVE_PROCESS = (if lim_HasMaxProcesses l then LIMIT_ACTIVE_PROCESS else 0)"
  by (simp_all add: limit_flags_def LIMIT_KILL_ON_JOB_CLOSE_def LIMIT_JOB_MEMORY_def LIMIT_ACTIVE_PROCESS_def)

section \<open>Properties\<close>


text \<open>A Win32 on which every call succeeds, used to exhibit runs.\<close>

definition demo_win :: "nat winapi" where
  "demo_win =
    \<lparr>wn_createJob = (\<lambda>w. (Inr 8, w)), wn_setExtended = (\<lambda>h f m n w. (None, w)),
     wn_setCpuRate = (\<lambda>h r w. (None, w)), wn_closeHandle = (\<lambda>h w. (None, w)),
     wn_openProcess = (\<lambda>a p w. (Inr 12, w)), wn_assign = (\<lambda>j h w. (None, w)),
     wn_ntResume = (\<lambda>h w. (0, w)), wn_terminate = (\<lambda>h w. w), wn_terminateJob = (\<lambda>h w. (None, w)),
     wn_exitCode = (\<lambda>h w. (Inr 0, w)), wn_accounting = (\<lambda>h w. (Inl (Plain []), w)),
     wn_peakMemory = (\<lambda>h w. (Inr 0, w)), wn_numCPU = 4, wn_is32bit = False\<rparr>"


text \<open>
  A closed job contains nothing: assigning a child to it answers an error without any call,
  so the child, created suspended, is left as it is, although the interface promises that a failed
  assignment leaves no uncontained survivor; killing it is a successful no-op, and closing twice
  releases the handle once.
\<close>

theorem closed_job:
  assumes "run_state (win_Close W j) m = ((e, j'), m1)"
  shows "\<not> job_open j'
    \<and> run_state (win_Assign W j' (Some pid)) m2 = (Some (Plain ''sys: job is closed''), m2)
    \<and> run_state (win_Kill W j') m2 = (None, m2)
    \<and> run_state (win_Close W j') m2 = ((None, j'), m2)
    \<and> sm_calls m1 = sm_calls m @ (if job_open j then [WCloseHandle (wj_handle j)] else [])"
proof -
  have c: "\<not> job_open j'"
    using assms by (auto simp: win_Close_def job_open_def win_close_def sys_do_def split: if_splits prod.splits)
  moreover have "sm_calls m1 = sm_calls m @ (if job_open j then [WCloseHandle (wj_handle j)] else [])"
    using assms by (auto simp: win_Close_def win_close_def sys_do_def split: if_splits prod.splits)
  ultimately show ?thesis by (simp add: win_Assign_def win_Kill_def win_Close_def)
qed

theorem closed_job_witness:
  "run_state (win_Kill demo_win \<lparr>wj_handle = InvalidHandle\<rparr>) (sysm0 (0::nat) 0) = (None, sysm0 0 0)"
proof -
  have "run_state (win_Close demo_win \<lparr>wj_handle = 8\<rparr>) (sysm0 (0::nat) 0)
      = ((None, \<lparr>wj_handle = InvalidHandle\<rparr>), sysm0 0 0\<lparr>sm_calls := [WCloseHandle 8]\<rparr>)"
    by (simp add: win_Close_def win_close_def sys_do_def job_open_def InvalidHandle_def demo_win_def sysm0_def)
  from closed_job [OF this] show ?thesis by blast
qed

text \<open>
  A Windows job is created with kill-on-close and with exactly the limit flags that were
  asked for, its CPU rate set when a quota was; when any of this fails the handle is closed and the
  answer is an error.
\<close>

theorem windows_job_creation:
  "case run_state (newJob_windows W l) (sysm0 w k) of (r, m') \<Rightarrow>
    win_created W l (sm_calls m') r
    \<and> and (limit_flags l) LIMIT_KILL_ON_JOB_CLOSE = LIMIT_KILL_ON_JOB_CLOSE
    \<and> and (limit_flags l) LIMIT_JOB_MEMORY = (if lim_HasMemoryMax l then LIMIT_JOB_MEMORY else 0)
    \<and> and (limit_flags l) LIMIT_ACTIVE_PROCESS = (if lim_HasMaxProcesses l then LIMIT_ACTIVE_PROCESS else 0)"
proof -
  obtain r m' where run: "run_state (newJob_windows W l) (sysm0 w k) = (r, m')" by fastforce
  from emits_run [OF newJob_windows_emits run] show ?thesis by (simp add: run limit_flags_set)
qed

end
