(* ===== verification/Containment.thy ===== *)
theory Containment
  imports JobUnix JobWindows Group
begin

text \<open>
  The interface \<^verbatim>\<open>Job\<close> of \<^verbatim>\<open>internal/sys/sys.go\<close>, the three backends behind it, and the runner and
  the group on top of it.  \<open>contained_job\<close> states what a backend promises, every backend is an
  interpretation of it, and the lemmas proved from the promises alone say that a run and a group aim
  their hard kill, in system calls, at every child they started.
\<close>

section \<open>The interface and its backends\<close>

text \<open>
  A backend is a table of operations on a job \<open>'j\<close>; \<open>'a\<close> are the process attributes of the target,
  which \<^verbatim>\<open>Configure\<close> prepares before a child is started.
\<close>

record ('w, 'j, 'a) jobOps =
  jo_new :: "limits \<Rightarrow> ('w sysm, goerr + 'j) state"
  jo_Configure :: "'j \<Rightarrow> 'a \<Rightarrow> 'a"
  jo_Assign :: "'j \<Rightarrow> int option \<Rightarrow> ('w sysm, goerr option \<times> 'j) state"
  jo_Signal :: "'j \<Rightarrow> int \<Rightarrow> ('w sysm, goerr option) state"
  jo_Suspend :: "'j \<Rightarrow> ('w sysm, goerr option) state"
  jo_Resume :: "'j \<Rightarrow> ('w sysm, goerr option) state"
  jo_Adopt :: "'j \<Rightarrow> int \<Rightarrow> ('w sysm, goerr option \<times> 'j) state"
  jo_Kill :: "'j \<Rightarrow> ('w sysm, goerr option) state"
  jo_Close :: "'j \<Rightarrow> ('w sysm, goerr option \<times> 'j) state"
  jo_Mechanism :: "'j \<Rightarrow> sys_mechanism"
  jo_Stats :: "'j \<Rightarrow> ('w sysm, goerr + sysStats) state"

text \<open>An operation that leaves the job as it is.\<close>

definition keeping :: "'j \<Rightarrow> ('s, 'r) state \<Rightarrow> ('s, 'r \<times> 'j) state" where
  "keeping j c = do { r \<leftarrow> c; State_Monad.return (r, j) }"

definition wrapping :: "('j \<Rightarrow> 'k) \<Rightarrow> ('s, 'r \<times> 'j) state \<Rightarrow> ('s, 'r \<times> 'k) state" where
  "wrapping K c = do { (r, j) \<leftarrow> c; State_Monad.return (r, K j) }"

definition pgroup_ops :: "'w sysapi \<Rightarrow> ('w, pgroupJob, sysProcAttr) jobOps" where
  "pgroup_ops S =
    \<lparr>jo_new = (\<lambda>l. State_Monad.return (newJob_bsd l)),
     jo_Configure = (\<lambda>j. pgroup_Configure),
     jo_Assign = (\<lambda>j p. State_Monad.return (pgroup_Assign j p)),
     jo_Signal = pgroup_Signal S,
     jo_Suspend = pgroup_Suspend S,
     jo_Resume = pgroup_Resume S,
     jo_Adopt = pgroup_Adopt S,
     jo_Kill = pgroup_Kill S,
     jo_Close = (\<lambda>j. State_Monad.return (pgroup_Close j, j)),
     jo_Mechanism = (\<lambda>j. Sys_ProcessGroup),
     jo_Stats = pgroup_Stats S\<rparr>"

definition cgroup_ops :: "'w sysapi \<Rightarrow> ('w, cgroupJob, sysProcAttr) jobOps" where
  "cgroup_ops S =
    \<lparr>jo_new = createCgroup S,
     jo_Configure = cgroup_Configure,
     jo_Assign = (\<lambda>j p. State_Monad.return (cgroup_Assign p, j)),
     jo_Signal = cgroup_Signal S,
     jo_Suspend = cgroup_Suspend S,
     jo_Resume = cgroup_Resume S,
     jo_Adopt = (\<lambda>j p. keeping j (cgroup_Adopt S j p)),
     jo_Kill = cgroup_Kill S,
     jo_Close = (\<lambda>j. keeping j (cgroup_Close S j)),
     jo_Mechanism = (\<lambda>j. Sys_CgroupV2),
     jo_Stats = cgroup_Stats S\<rparr>"

text \<open>Linux: the job is one of the two, chosen at creation, and a call goes to the method of its type.\<close>

definition on_unix ::
    "(pgroupJob \<Rightarrow> 'r) \<Rightarrow> (cgroupJob \<Rightarrow> 'r) \<Rightarrow> unixJob \<Rightarrow> 'r" where
  "on_unix f g u = (case u of PGroup j \<Rightarrow> f j | CGroup j \<Rightarrow> g j)"

definition linux_ops :: "'w sysapi \<Rightarrow> ('w, unixJob, sysProcAttr) jobOps" where
  "linux_ops S =
    (let P = pgroup_ops S; C = cgroup_ops S in
    \<lparr>jo_new = newJob_linux S,
     jo_Configure = on_unix (jo_Configure P) (jo_Configure C),
     jo_Assign = on_unix (\<lambda>j p. wrapping PGroup (jo_Assign P j p)) (\<lambda>j p. wrapping CGroup (jo_Assign C j p)),
     jo_Signal = on_unix (jo_Signal P) (jo_Signal C),
     jo_Suspend = on_unix (jo_Suspend P) (jo_Suspend C),
     jo_Resume = on_unix (jo_Resume P) (jo_Resume C),
     jo_Adopt = on_unix (\<lambda>j p. wrapping PGroup (jo_Adopt P j p)) (\<lambda>j p. wrapping CGroup (jo_Adopt C j p)),
     jo_Kill = on_unix (jo_Kill P) (jo_Kill C),
     jo_Close = on_unix (\<lambda>j. wrapping PGroup (jo_Close P j)) (\<lambda>j. wrapping CGroup (jo_Close C j)),
     jo_Mechanism = on_unix (jo_Mechanism P) (jo_Mechanism C),
     jo_Stats = on_unix (jo_Stats P) (jo_Stats C)\<rparr>)"

definition win_ops :: "'w winapi \<Rightarrow> ('w, winJob, 32 word) jobOps" where
  "win_ops W =
    \<lparr>jo_new = newJob_windows W,
     jo_Configure = (\<lambda>j. win_Configure),
     jo_Assign = (\<lambda>j p. keeping j (win_Assign W j p)),
     jo_Signal = (\<lambda>j sig. State_Monad.return win_Signal),
     jo_Suspend = (\<lambda>j. State_Monad.return win_Suspend),
     jo_Resume = (\<lambda>j. State_Monad.return win_Resume),
     jo_Adopt = (\<lambda>j p. keeping j (win_Adopt W j p)),
     jo_Kill = win_Kill W,
     jo_Close = win_Close W,
     jo_Mechanism = (\<lambda>j. Sys_JobObject),
     jo_Stats = win_Stats W\<rparr>"

lemmas ops_defs = pgroup_ops_def cgroup_ops_def linux_ops_def win_ops_def on_unix_def Let_def

section \<open>The promises of a backend\<close>

text \<open>
  The interface of a containment backend.  \<open>usable j\<close>: the job can take members.  \<open>born j s\<close>: after the
  system calls \<open>s\<close> the job still stands for what it was created as.  \<open>placed j a\<close>: a child
  started with the attributes \<open>a\<close> starts where the job can reach it.  \<open>covers j p\<close>: the hard kill of \<open>j\<close>
  is aimed at \<open>p\<close>.  \<open>joined\<close>, \<open>rejected\<close> and \<open>aimed\<close> say of the system calls of an assignment or of a kill
  that the child was taken in, that it was dealt with after a failure, and that the kill was aimed at it.
\<close>

locale contained_job =
  fixes ops :: "('w, 'j, 'a) jobOps"
    and usable :: "'j \<Rightarrow> bool"
    and born :: "'j \<Rightarrow> syscall list \<Rightarrow> bool"
    and placed :: "'j \<Rightarrow> 'a \<Rightarrow> bool"
    and covers :: "'j \<Rightarrow> int \<Rightarrow> bool"
    and joined :: "'j \<Rightarrow> int \<Rightarrow> syscall list \<Rightarrow> bool"
    and rejected :: "'j \<Rightarrow> int \<Rightarrow> syscall list \<Rightarrow> bool"
    and aimed :: "'j \<Rightarrow> int \<Rightarrow> syscall list \<Rightarrow> bool"
  assumes created: "emits (jo_new ops l) m (\<lambda>tr r. \<forall>j. r = Inr j \<longrightarrow> usable j \<and> (\<forall>s. born j (s @ tr)))"
    and born_steady: "born j s \<Longrightarrow> steady t \<Longrightarrow> born j (s @ t)"
    and configured: "placed j (jo_Configure ops j a)"
    and assigned: "usable j \<Longrightarrow> emits (jo_Assign ops j (Some p)) m (\<lambda>tr (r, j').
      steady tr \<and> usable j' \<and> (\<forall>s. born j s \<longrightarrow> born j' s)
      \<and> (\<forall>q. covers j q \<longrightarrow> covers j' q) \<and> (\<forall>a. placed j a \<longrightarrow> placed j' a)
      \<and> (\<forall>q t. (joined j q t \<longrightarrow> joined j' q t) \<and> (rejected j q t \<longrightarrow> rejected j' q t))
      \<and> (if r = None then covers j' p \<and> joined j' p tr else rejected j' p tr))"
    and adopted: "usable j \<Longrightarrow> emits (jo_Adopt ops j p) m (\<lambda>tr (r, j').
      steady tr \<and> usable j' \<and> (\<forall>s. born j s \<longrightarrow> born j' s)
      \<and> (\<forall>q. covers j q \<longrightarrow> covers j' q) \<and> (\<forall>a. placed j a \<longrightarrow> placed j' a))"
    and signalled: "quiet (jo_Signal ops j sig)"
    and suspended: "quiet (jo_Suspend ops j)"
    and resumed: "quiet (jo_Resume ops j)"
    and killed: "usable j \<Longrightarrow> emits (jo_Kill ops j) m (\<lambda>tr r. steady tr \<and> (\<forall>p. covers j p \<longrightarrow> aimed j p tr))"
    and released: "emits (jo_Close ops j) m (\<lambda>tr r. True)"

text \<open>The process group: the child leads a group of its own, and the kill signals each group.\<close>

definition pgroup_covers :: "pgroupJob \<Rightarrow> int \<Rightarrow> bool" where
  "pgroup_covers j p \<longleftrightarrow> p \<in> set (pg_pgids j)"

definition pgroup_aimed :: "pgroupJob \<Rightarrow> int \<Rightarrow> syscall list \<Rightarrow> bool" where
  "pgroup_aimed j p tr \<longleftrightarrow> SKill (- p) SIGKILL \<in> set tr"

text \<open>
  The cgroup: the child is cloned into the cgroup whose directory the handle of the job refers to, so it
  need not be recorded, and the kill goes to that cgroup as a whole, by \<^verbatim>\<open>cgroup.kill\<close> or by the frozen
  sweep.  The handle refers to the directory as long as nothing has closed it since it was opened.
\<close>

definition opened_as :: "cgroupJob \<Rightarrow> syscall list \<Rightarrow> bool" where
  "opened_as c s \<longleftrightarrow> (\<exists>us vs. s = us @ SOpenDir (cg_path c) (Some (cg_dirFD c)) # vs \<and> steady vs)"

fun unix_born :: "unixJob \<Rightarrow> syscall list \<Rightarrow> bool" where
  "unix_born (PGroup j) s = True"
| "unix_born (CGroup c) s = opened_as c s"

fun unix_placed :: "unixJob \<Rightarrow> sysProcAttr \<Rightarrow> bool" where
  "unix_placed (PGroup j) a = at_Setpgid a"
| "unix_placed (CGroup j) a = (at_CgroupFD a = Some (cg_dirFD j))"

fun unix_covers :: "unixJob \<Rightarrow> int \<Rightarrow> bool" where
  "unix_covers (PGroup j) p = pgroup_covers j p"
| "unix_covers (CGroup j) p = True"

fun unix_aimed :: "unixJob \<Rightarrow> int \<Rightarrow> syscall list \<Rightarrow> bool" where
  "unix_aimed (PGroup j) p tr = pgroup_aimed j p tr"
| "unix_aimed (CGroup j) p tr = cgroup_killed j tr"

text \<open>
  The Job Object.  \<^verbatim>\<open>CreateJobObject\<close> answers neither 0 nor \<^verbatim>\<open>InvalidHandle\<close> when it succeeds; the
  promises of this backend rest on that.
\<close>

definition valid_handles :: "'w winapi \<Rightarrow> bool" where
  "valid_handles W \<longleftrightarrow> (\<forall>w h w'. wn_createJob W w = (Inr h, w') \<longrightarrow> h \<noteq> 0 \<and> h \<noteq> InvalidHandle)"

definition win_joined :: "winJob \<Rightarrow> int \<Rightarrow> syscall list \<Rightarrow> bool" where
  "win_joined j p tr \<longleftrightarrow> (\<exists>ph. tr = [WOpenProcess assign_access (word_of_int p) (Some ph),
     WAssign (wj_handle j) ph True, WResume ph True, WCloseHandle ph])"

definition win_rejected :: "winJob \<Rightarrow> int \<Rightarrow> syscall list \<Rightarrow> bool" where
  "win_rejected j p tr \<longleftrightarrow>
    (\<exists>access ph. WOpenProcess access (word_of_int p) (Some ph) \<in> set tr \<and> WTerminate ph \<in> set tr)
    \<or> WOpenProcess PROCESS_TERMINATE (word_of_int p) None \<in> set tr"

definition win_aimed :: "winJob \<Rightarrow> syscall list \<Rightarrow> bool" where
  "win_aimed j tr \<longleftrightarrow> (\<exists>ok. tr = [WTerminateJob (wj_handle j) ok])"

section \<open>The backends keep them\<close>

lemma emits_any:
  "emits (State_Monad.return a) m (\<lambda>tr r. True)"
  "(\<And>m. emits c m (\<lambda>tr r. True)) \<Longrightarrow> (\<And>a m. emits (f a) m (\<lambda>tr r. True)) \<Longrightarrow>
    emits (State_Monad.bind c f) m (\<lambda>tr r. True)"
  "emits (sys_do g k) m (\<lambda>tr r. True)"
proof -
  show "emits (State_Monad.return a) m (\<lambda>tr r. True)" by auto
  show "emits (sys_do g k) m (\<lambda>tr r. True)" by (simp add: emits_sys_do)
  assume "\<And>m. emits c m (\<lambda>tr r. True)" "\<And>a m. emits (f a) m (\<lambda>tr r. True)"
  then show "emits (State_Monad.bind c f) m (\<lambda>tr r. True)" by (rule emits_bind)
qed

lemma quiet_deliver_all: "quiet (deliver_all S sig ts fe)"
  by (induction ts arbitrary: fe) (auto simp: deliver_def sys_defs)

lemma quiet_pgroup:
  "quiet (pgroup_Signal S g sig)" "quiet (pgroup_Adopt S g p)" "quiet (pgroup_Kill S g)"
  unfolding pgroup_Signal_def pgroup_Adopt_def pgroup_Kill_def sys_defs
  by (intro quiet_bind quiet_if quiet_return quiet_do quiet_deliver_all; simp)+

lemma quiet_members: "quiet (cgroup_members S j)"
  unfolding cgroup_members_def by auto

lemma quiet_cgroup_Signal: "quiet (cgroup_Signal S j sig)"
  unfolding cgroup_Signal_def by (intro quiet_bind quiet_members quiet_deliver_all)

lemma quiet_cgroup_freeze: "quiet (cgroup_freeze S j b)"
  unfolding cgroup_freeze_def sys_defs
  by (intro quiet_bind quiet_if quiet_option quiet_return quiet_do quiet_cgroup_Signal; simp)

lemma quiet_cgroup_Adopt: "quiet (cgroup_Adopt S j p)"
  unfolding cgroup_Adopt_def cgroup_contain_def sys_defs by auto

lemma quiet_kill_each: "quiet (kill_each S ps)"
  by (induction ps) (auto simp: sys_defs)

lemma quiet_kill_sweep: "quiet (kill_sweep S j n)"
  by (induction n) (auto simp: sys_defs intro!: quiet_members quiet_kill_each)

lemma quiet_cgroup_Kill: "quiet (cgroup_Kill S j)"
  unfolding cgroup_Kill_def sys_defs
  by (intro quiet_bind quiet_if quiet_return quiet_do quiet_members quiet_kill_sweep; simp)

lemma quiet_win:
  "quiet (win_Assign W j p)" "quiet (win_Adopt W j q)" "quiet (win_Kill W j)"
  unfolding win_Assign_def win_Adopt_def win_Kill_def child_guard_def ntResumeProcess_def processExited_def Let_def win_defs
  by (auto split: option.split sum.split)

lemma drain_members_any: "emits (drain_members S j n) m (\<lambda>tr r. True)"
proof (induction n arbitrary: m)
  case (Suc n)
  show ?case unfolding drain_members.simps cgroup_members_def sys_defs
    by (intro emits_any emits_if Suc)
qed auto

lemma cgroup_Close_any: "emits (cgroup_Close S j) m (\<lambda>tr r. True)"
  unfolding cgroup_Close_def sys_Remove_def by (intro emits_any drain_members_any)

lemma keeping_emits: "emits c m (\<lambda>tr r. P tr (r, j)) \<Longrightarrow> emits (keeping j c) m P"
  unfolding keeping_def by (erule emits_bind) auto

lemma wrapping_emits: "emits c m (\<lambda>tr (r, j). P tr (r, K j)) \<Longrightarrow> emits (wrapping K c) m P"
  unfolding wrapping_def by (erule emits_bind) (auto split: prod.splits)

lemma opened_as_created: "created l tr c \<Longrightarrow> opened_as c (s @ tr)"
proof -
  assume "created l tr c"
  then have "tr \<noteq> []" "last tr = SOpenDir (cg_path c) (Some (cg_dirFD c))" by (auto simp: created_def)
  then have "s @ tr = (s @ butlast tr) @ SOpenDir (cg_path c) (Some (cg_dirFD c)) # []"
    by (metis append.assoc append_butlast_last_id)
  then show ?thesis unfolding opened_as_def by (metis steady_simps(1))
qed

lemma unix_born_created: "(\<And>c. j = CGroup c \<Longrightarrow> created l tr c) \<Longrightarrow> unix_born j (s @ tr)"
  by (cases j) (auto intro: opened_as_created)

lemma opened_as_steady: "opened_as c s \<Longrightarrow> steady t \<Longrightarrow> opened_as c (s @ t)"
  unfolding opened_as_def by (elim exE conjE) (metis append.assoc append_Cons steady_simps(3))

interpretation pgroup_backend: contained_job "pgroup_ops S" "\<lambda>j. True" "\<lambda>j s. True" "\<lambda>j. at_Setpgid"
  pgroup_covers "\<lambda>j p tr. tr = []" "\<lambda>j p tr. False" pgroup_aimed for S
proof unfold_locales
  fix j :: pgroupJob and p and m :: "'a sysm"
  show "emits (jo_Kill (pgroup_ops S) j) m
      (\<lambda>tr r. steady tr \<and> (\<forall>p. pgroup_covers j p \<longrightarrow> pgroup_aimed j p tr))"
    unfolding pgroup_ops_def jobOps.simps
    by (rule emits_conj [OF quiet_emits [OF quiet_pgroup(3)]], unfold pgroup_Kill_def,
        rule emits_mono [OF pgroup_Signal_emits])
      (auto simp: pgroup_covers_def pgroup_aimed_def pgroup_targets_def)
  show "emits (jo_Adopt (pgroup_ops S) j p) m (\<lambda>tr (r, j').
      steady tr \<and> True \<and> (\<forall>s. True \<longrightarrow> True)
      \<and> (\<forall>q. pgroup_covers j q \<longrightarrow> pgroup_covers j' q) \<and> (\<forall>a. at_Setpgid a \<longrightarrow> at_Setpgid a))"
    unfolding pgroup_ops_def jobOps.simps
    by (rule emits_mono [OF emits_conj [OF quiet_emits [OF quiet_pgroup(2)] pgroup_Adopt_emits]])
      (auto simp: pgroup_covers_def trackSolo_def)
qed (auto simp: pgroup_ops_def pgroup_Configure_def pgroup_Assign_def pgroup_covers_def pgroup_Suspend_def
    pgroup_Resume_def intro!: emits_return quiet_pgroup)

interpretation linux_backend: contained_job "linux_ops S" "\<lambda>j. True" unix_born unix_placed
  unix_covers "\<lambda>j p tr. tr = []" "\<lambda>j p tr. False" unix_aimed for S
proof unfold_locales
  fix j :: unixJob and p and m :: "'a sysm" and l
  show "emits (jo_new (linux_ops S) l) m (\<lambda>tr r. \<forall>j. r = Inr j \<longrightarrow> True \<and> (\<forall>s. unix_born j (s @ tr)))"
    unfolding linux_ops_def Let_def jobOps.simps
    by (rule emits_mono [OF newJob_linux_emits]) (auto intro!: unix_born_created)
  show "unix_born j s \<Longrightarrow> steady t \<Longrightarrow> unix_born j (s @ t)" for s t
    by (cases j) (simp_all add: opened_as_steady)
  show "unix_placed j (jo_Configure (linux_ops S) j a)" for a
    by (cases j) (simp_all add: ops_defs pgroup_Configure_def cgroup_Configure_def)
  show "emits (jo_Assign (linux_ops S) j (Some p)) m (\<lambda>tr (r, j').
      steady tr \<and> True \<and> (\<forall>s. unix_born j s \<longrightarrow> unix_born j' s)
      \<and> (\<forall>q. unix_covers j q \<longrightarrow> unix_covers j' q) \<and> (\<forall>a. unix_placed j a \<longrightarrow> unix_placed j' a)
      \<and> (\<forall>q t. (t = [] \<longrightarrow> t = []) \<and> (False \<longrightarrow> False))
      \<and> (if r = None then unix_covers j' p \<and> tr = [] else False))"
    by (cases j) (auto simp: ops_defs pgroup_Assign_def cgroup_Assign_def pgroup_covers_def
        intro!: wrapping_emits emits_return)
  show "emits (jo_Adopt (linux_ops S) j p) m (\<lambda>tr (r, j').
      steady tr \<and> True \<and> (\<forall>s. unix_born j s \<longrightarrow> unix_born j' s)
      \<and> (\<forall>q. unix_covers j q \<longrightarrow> unix_covers j' q) \<and> (\<forall>a. unix_placed j a \<longrightarrow> unix_placed j' a))"
  proof (cases j)
    case (PGroup g)
    then show ?thesis
      by (auto simp: ops_defs intro!: wrapping_emits
        emits_mono [OF emits_conj [OF quiet_emits [OF quiet_pgroup(2)] pgroup_Adopt_emits]]
        simp: pgroup_covers_def trackSolo_def)
  next
    case (CGroup c)
    then show ?thesis
      by (auto simp: ops_defs intro!: wrapping_emits keeping_emits
        emits_mono [OF quiet_emits [OF quiet_cgroup_Adopt]])
  qed
  show "emits (jo_Kill (linux_ops S) j) m (\<lambda>tr r. steady tr \<and> (\<forall>p. unix_covers j p \<longrightarrow> unix_aimed j p tr))"
  proof (cases j)
    case (PGroup g)
    then show ?thesis
      using pgroup_backend.killed [where S = S and j = g and m = m] by (simp add: ops_defs)
  next
    case (CGroup c)
    then show ?thesis
      using emits_conj [OF quiet_emits [OF quiet_cgroup_Kill [of S c], of m] cgroup_Kill_emits [of S c m]]
      by (auto simp: ops_defs elim!: emits_mono)
  qed
  show "quiet (jo_Signal (linux_ops S) j sig)" for sig
    by (cases j) (auto simp: ops_defs intro: quiet_pgroup quiet_cgroup_Signal)
  show "quiet (jo_Suspend (linux_ops S) j)"
    by (cases j) (auto simp: ops_defs pgroup_Suspend_def cgroup_Suspend_def
      intro: quiet_pgroup quiet_cgroup_freeze)
  show "quiet (jo_Resume (linux_ops S) j)"
    by (cases j) (auto simp: ops_defs pgroup_Resume_def cgroup_Resume_def
      intro: quiet_pgroup quiet_cgroup_freeze)
  show "emits (jo_Close (linux_ops S) j) m (\<lambda>tr r. True)"
    by (cases j) (auto simp: ops_defs intro!: wrapping_emits keeping_emits emits_mono [OF cgroup_Close_any])
qed

interpretation windows_backend: contained_job "win_ops W" "\<lambda>j. valid_handles W \<longrightarrow> job_open j" "\<lambda>j s. True"
  "\<lambda>j a. and a CREATE_SUSPENDED = CREATE_SUSPENDED" "\<lambda>j p. True"
  "\<lambda>j p tr. valid_handles W \<longrightarrow> win_joined j p tr" "\<lambda>j p tr. valid_handles W \<longrightarrow> win_rejected j p tr"
  "\<lambda>j p tr. valid_handles W \<longrightarrow> win_aimed j tr" for W
proof unfold_locales
  fix j :: winJob and p and m :: "'a sysm" and l
  show "emits (jo_new (win_ops W) l) m (\<lambda>tr r. \<forall>j. r = Inr j \<longrightarrow> (valid_handles W \<longrightarrow> job_open j) \<and> (\<forall>s. True))"
    unfolding emits_on_def win_ops_def jobOps.simps newJob_windows_def Let_def win_defs
    by (auto simp: wp_simps valid_handles_def job_open_def split: sum.split option.split)
  show "and (jo_Configure (win_ops W) j a) CREATE_SUSPENDED = CREATE_SUSPENDED" for a
    by (simp add: win_ops_def win_Configure_def bit.conj_disj_distrib2 CREATE_SUSPENDED_def)
  show "emits (jo_Assign (win_ops W) j (Some p)) m (\<lambda>tr (r, j').
      steady tr \<and> (valid_handles W \<longrightarrow> job_open j') \<and> (\<forall>s. True \<longrightarrow> True) \<and> (\<forall>q. True \<longrightarrow> True)
      \<and> (\<forall>a. and a CREATE_SUSPENDED = CREATE_SUSPENDED \<longrightarrow> and a CREATE_SUSPENDED = CREATE_SUSPENDED)
      \<and> (\<forall>q t. ((valid_handles W \<longrightarrow> win_joined j q t) \<longrightarrow> valid_handles W \<longrightarrow> win_joined j' q t)
          \<and> ((valid_handles W \<longrightarrow> win_rejected j q t) \<longrightarrow> valid_handles W \<longrightarrow> win_rejected j' q t))
      \<and> (if r = None then True \<and> (valid_handles W \<longrightarrow> win_joined j' p tr)
         else valid_handles W \<longrightarrow> win_rejected j' p tr))"
    if "valid_handles W \<longrightarrow> job_open j"
  proof (cases "job_open j")
    case True
    then show ?thesis
      unfolding win_ops_def jobOps.simps
      by (intro keeping_emits emits_mono [OF emits_conj [OF quiet_emits [OF quiet_win(1)] win_Assign_emits]])
        (auto simp: assign_trace_def guard_trace_def win_joined_def win_rejected_def)
  next
    case False
    with that show ?thesis
      by (auto simp: win_ops_def win_Assign_def intro!: keeping_emits emits_return)
  qed
  show "emits (jo_Kill (win_ops W) j) m (\<lambda>tr r. steady tr \<and> (\<forall>p. True \<longrightarrow> valid_handles W \<longrightarrow> win_aimed j tr))"
    if "valid_handles W \<longrightarrow> job_open j"
    using that unfolding win_ops_def jobOps.simps win_Kill_def
    by (auto simp: win_aimed_def intro!: emits_if emits_sys_do emits_return)
  show "emits (jo_Close (win_ops W) j) m (\<lambda>tr r. True)"
    unfolding win_ops_def jobOps.simps win_Close_def win_defs by (intro emits_if emits_any)
  show "emits (jo_Adopt (win_ops W) j p) m (\<lambda>tr (r, j').
      steady tr \<and> (valid_handles W \<longrightarrow> job_open j') \<and> (\<forall>s. True \<longrightarrow> True) \<and> (\<forall>q. True \<longrightarrow> True)
      \<and> (\<forall>a. and a CREATE_SUSPENDED = CREATE_SUSPENDED \<longrightarrow> and a CREATE_SUSPENDED = CREATE_SUSPENDED))"
    if "valid_handles W \<longrightarrow> job_open j"
    using that unfolding win_ops_def jobOps.simps
    by (intro keeping_emits emits_mono [OF quiet_emits [OF quiet_win(2)]]) simp
qed (auto simp: win_ops_def)

end
