(* ===== verification/ContainedRuns.thy ===== *)
theory ContainedRuns
  imports Containment
begin

text \<open>
  The runner (\<^verbatim>\<open>runner.go\<close>) and the group (\<^verbatim>\<open>group.go\<close>) on a containment backend of \<^verbatim>\<open>internal/sys\<close>
  instead of an arbitrary platform: the operations on the job are the backend's own programs, and
  everything else stays a parameter.  From the promises of the backend alone it follows that the hard
  kill at the end of a run, and of a group, is aimed in system calls at every child that was taken in.
\<close>

section \<open>A platform on a backend\<close>

text \<open>
  The world of the machine is now the machine of the system calls, the current job, the process
  attributes prepared for the next start, and, as a ghost, the processes started: with which attributes,
  and after how many system calls.
\<close>

record ('w, 'j, 'a) hosted =
  ho_sys :: "'w sysm"
  ho_job :: "'j option"
  ho_attr :: 'a
  ho_started :: "('a \<times> pid \<times> nat) list"

definition hosting :: "('w \<Rightarrow> 'r \<times> 'w) \<Rightarrow> ('w, 'j, 'a) hosted \<Rightarrow> 'r \<times> ('w, 'j, 'a) hosted" where
  "hosting f h = (case f (sm_world (ho_sys h)) of
     (r, w') \<Rightarrow> (r, h\<lparr>ho_sys := (ho_sys h)\<lparr>sm_world := w'\<rparr>\<rparr>))"

text \<open>An operation of the job; without a job, which the code never has here, it answers an error.\<close>

definition on_job ::
    "('j \<Rightarrow> ('w sysm, goerr option \<times> 'j) state) \<Rightarrow> ('w, 'j, 'a) hosted
     \<Rightarrow> goerr option \<times> ('w, 'j, 'a) hosted" where
  "on_job c h =
    (case ho_job h of
       None \<Rightarrow> (Some (Plain []), h)
     | Some j \<Rightarrow> (case run_state (c j) (ho_sys h) of
         ((r, j'), s') \<Rightarrow> (r, h\<lparr>ho_sys := s', ho_job := Some j'\<rparr>)))"

definition host_new ::
    "('w, 'j, 'a) jobOps \<Rightarrow> limits \<Rightarrow> ('w, 'j, 'a) hosted \<Rightarrow> (goerr + sys_mechanism) \<times> ('w, 'j, 'a) hosted" where
  "host_new ops l h =
    (case run_state (jo_new ops l) (ho_sys h) of
       (Inl e, s') \<Rightarrow> (Inl e, h\<lparr>ho_sys := s'\<rparr>)
     | (Inr j, s') \<Rightarrow> (Inr (jo_Mechanism ops j), h\<lparr>ho_sys := s', ho_job := Some j\<rparr>))"

text \<open>
  A start is the backend's world spawning a process with the attributes prepared; \<open>a0\<close> are those of a
  fresh command.
\<close>

type_synonym ('w, 'a) spawner = "'a \<Rightarrow> ctx \<Rightarrow> invocation \<Rightarrow> stdout_dst \<Rightarrow> 'w \<Rightarrow> (goerr + pid) \<times> 'w"

definition host_start ::
    "('w, 'a) spawner \<Rightarrow> ctx \<Rightarrow> invocation \<Rightarrow> stdout_dst \<Rightarrow> ('w, 'j, 'a) hosted
     \<Rightarrow> (goerr + pid) \<times> ('w, 'j, 'a) hosted" where
  "host_start sp c iv out h =
    (case hosting (sp (ho_attr h) c iv out) h of
       (Inl e, h') \<Rightarrow> (Inl e, h')
     | (Inr p, h') \<Rightarrow> (Inr p, h'\<lparr>ho_started := ho_started h' @ [(ho_attr h, p, length (sm_calls (ho_sys h)))]\<rparr>))"

definition host_configure ::
    "('w, 'j, 'a) jobOps \<Rightarrow> 'a \<Rightarrow> ('w, 'j, 'a) hosted \<Rightarrow> goerr option \<times> ('w, 'j, 'a) hosted" where
  "host_configure ops a0 h =
    (case ho_job h of
       None \<Rightarrow> (Some (Plain []), h)
     | Some j \<Rightarrow> (None, h\<lparr>ho_attr := jo_Configure ops j a0\<rparr>))"

definition no_limits :: limits where
  "no_limits = gc_limits groupConfig0"

definition host ::
    "('w, 'j, 'a) jobOps \<Rightarrow> ('w, 'a) spawner \<Rightarrow> 'a \<Rightarrow> 'w platform \<Rightarrow> ('w, 'j, 'a) hosted platform" where
  "host ops sp a0 B =
    \<lparr>p_unix = p_unix B,
     p_fmt = p_fmt B,
     p_ctxErr = (\<lambda>c. hosting (p_ctxErr B c)),
     p_withTimeout = (\<lambda>c d. hosting (p_withTimeout B c d)),
     p_now = hosting (p_now B),
     p_timer = (\<lambda>c d. hosting (p_timer B c d)),
     p_PATH = (\<lambda>h. p_PATH B (sm_world (ho_sys h))),
     p_newJob = host_new ops no_limits,
     p_configure = (\<lambda>iv. host_configure ops a0),
     p_pipe = hosting (p_pipe B),
     p_start = host_start sp,
     p_assign = (\<lambda>p. on_job (\<lambda>j. jo_Assign ops j (Some p))),
     p_closePipes = (\<lambda>n h. snd (hosting (\<lambda>w. ((), p_closePipes B n w)) h)),
     p_wait = (\<lambda>p. hosting (p_wait B p)),
     p_killProc = (\<lambda>p h. snd (hosting (\<lambda>w. ((), p_killProc B p w)) h)),
     p_stdout = (\<lambda>p h. p_stdout B p (sm_world (ho_sys h))),
     p_stderr = (\<lambda>p h. p_stderr B p (sm_world (ho_sys h))),
     p_kill = on_job (\<lambda>j. keeping j (jo_Kill ops j)),
     p_close = on_job (jo_Close ops)\<rparr>"

definition host_group :: "('w, 'j, 'a) jobOps \<Rightarrow> ('w, 'a) spawner \<Rightarrow> 'a \<Rightarrow> 'w gplatform \<Rightarrow> ('w, 'j, 'a) hosted gplatform" where
  "host_group ops sp a0 G =
    \<lparr>gp_base = host ops sp a0 (gp_base G),
     gp_signums = gp_signums G,
     gp_newJob = host_new ops,
     gp_stdPipe = (\<lambda>b. hosting (gp_stdPipe G b)),
     gp_closeReader = (\<lambda>b h. snd (hosting (\<lambda>w. ((), gp_closeReader G b w)) h)),
     gp_adopt = (\<lambda>p. on_job (\<lambda>j. jo_Adopt ops j p)),
     gp_signal = (\<lambda>n. on_job (\<lambda>j. keeping j (jo_Signal ops j n))),
     gp_suspend = on_job (\<lambda>j. keeping j (jo_Suspend ops j)),
     gp_resume = on_job (\<lambda>j. keeping j (jo_Resume ops j)),
     gp_stats = (\<lambda>h. case ho_job h of
        None \<Rightarrow> (Inr stats0, h)
      | Some j \<Rightarrow> (case run_state (jo_Stats ops j) (ho_sys h) of (r, s') \<Rightarrow> (r, h\<lparr>ho_sys := s'\<rparr>))),
     gp_newTimer = (\<lambda>d. hosting (gp_newTimer G d)),
     gp_wake = (\<lambda>c p. hosting (gp_wake G c p)),
     gp_killProc = (\<lambda>p. hosting (gp_killProc G p)),
     gp_done = (\<lambda>p h. gp_done G p (sm_world (ho_sys h)))\<rparr>"

section \<open>What an operation does to the host\<close>

abbreviation calls_of :: "('w, 'j, 'a) hosted mach \<Rightarrow> syscall list" where
  "calls_of m \<equiv> sm_calls (ho_sys (m_world m))"

lemma hostingD:
  "hosting f h = (r, h') \<Longrightarrow> ho_job h' = ho_job h \<and> ho_attr h' = ho_attr h
    \<and> ho_started h' = ho_started h \<and> sm_calls (ho_sys h') = sm_calls (ho_sys h)"
  by (auto simp: hosting_def split: prod.splits)

lemma hosting_snd [simp]:
  "ho_job (snd (hosting f h)) = ho_job h" "ho_attr (snd (hosting f h)) = ho_attr h"
  "ho_started (snd (hosting f h)) = ho_started h"
  "sm_calls (ho_sys (snd (hosting f h))) = sm_calls (ho_sys h)"
  by (simp_all add: hosting_def split: prod.split)

lemma on_jobD:
  assumes "on_job c h = (r, h')" "ho_job h = Some j" "emits (c j) (ho_sys h) (\<lambda>tr (r, j'). P tr r j')"
  shows "\<exists>tr j'. sm_calls (ho_sys h') = sm_calls (ho_sys h) @ tr \<and> ho_job h' = Some j' \<and> P tr r j'
    \<and> ho_attr h' = ho_attr h \<and> ho_started h' = ho_started h"
proof -
  obtain r' j' s' where run: "run_state (c j) (ho_sys h) = ((r', j'), s')" by (metis surj_pair)
  from emits_run [OF assms(3) run] show ?thesis using assms(1,2) by (auto simp: on_job_def run)
qed

lemma host_startD:
  "host_start sp c iv out h = (r, h') \<Longrightarrow> ho_job h' = ho_job h \<and> ho_attr h' = ho_attr h
    \<and> sm_calls (ho_sys h') = sm_calls (ho_sys h)
    \<and> ho_started h' = ho_started h @ (case r of Inl e \<Rightarrow> [] | Inr p \<Rightarrow> [(ho_attr h, p, length (sm_calls (ho_sys h)))])"
  by (auto simp: host_start_def dest: hostingD split: prod.splits sum.splits)

section \<open>Sessions of a group\<close>

text \<open>What the holder of an open group may do with it, in any order and number, before closing it.\<close>

datatype groupOp =
    OpStart ctx invocation "startOption list"
  | OpAdopt "pid option"
  | OpSignal signal
  | OpSuspend
  | OpResume

fun group_do :: "'w gplatform \<Rightarrow> groupOp \<Rightarrow> group \<Rightarrow> ('w mach, group) state" where
  "group_do G (OpStart ctx iv opts) g = do { (r, g') \<leftarrow> group_Start G ctx g iv opts; State_Monad.return g' }"
| "group_do G (OpAdopt p) g = do { _ \<leftarrow> group_Adopt G g p; State_Monad.return g }"
| "group_do G (OpSignal sg) g = do { _ \<leftarrow> group_Signal G sg; State_Monad.return g }"
| "group_do G OpSuspend g = do { _ \<leftarrow> group_Suspend G; State_Monad.return g }"
| "group_do G OpResume g = do { _ \<leftarrow> group_Resume G; State_Monad.return g }"

fun group_session :: "'w gplatform \<Rightarrow> groupOp list \<Rightarrow> group \<Rightarrow> ('w mach, group) state" where
  "group_session G [] g = State_Monad.return g"
| "group_session G (x # xs) g = do { g' \<leftarrow> group_do G x g; group_session G xs g' }"

section \<open>Runs and groups on any backend\<close>

context contained_job
begin

lemma host_kill:
  assumes "on_job (\<lambda>j. keeping j (jo_Kill ops j)) h = (r, h')" "ho_job h = Some j" "usable j"
  shows "\<exists>tr. sm_calls (ho_sys h') = sm_calls (ho_sys h) @ tr \<and> ho_job h' = Some j
    \<and> (\<forall>p. covers j p \<longrightarrow> aimed j p tr) \<and> ho_attr h' = ho_attr h \<and> ho_started h' = ho_started h"
  using on_jobD [OF assms(1,2) keeping_emits,
      where P = "\<lambda>tr r j'. j' = j \<and> (\<forall>p. covers j p \<longrightarrow> aimed j p tr)"]
    emits_mono [OF killed [OF assms(3), of "ho_sys h"],
      where Q = "\<lambda>tr r. case (r, j) of (r, j') \<Rightarrow> j' = j \<and> (\<forall>p. covers j p \<longrightarrow> aimed j p tr)"]
  by fastforce

lemma host_assign:
  assumes "on_job (\<lambda>j. jo_Assign ops j (Some p)) h = (r, h')" "ho_job h = Some j" "usable j"
  shows "\<exists>tr j'. sm_calls (ho_sys h') = sm_calls (ho_sys h) @ tr \<and> ho_job h' = Some j' \<and> steady tr \<and> usable j'
    \<and> (\<forall>s. born j s \<longrightarrow> born j' s)
    \<and> (\<forall>q. covers j q \<longrightarrow> covers j' q) \<and> (\<forall>a. placed j a \<longrightarrow> placed j' a)
    \<and> (\<forall>q t. (joined j q t \<longrightarrow> joined j' q t) \<and> (rejected j q t \<longrightarrow> rejected j' q t))
    \<and> (if r = None then covers j' p \<and> joined j' p tr else rejected j' p tr)
    \<and> ho_attr h' = ho_attr h \<and> ho_started h' = ho_started h"
  using on_jobD [OF assms(1,2) assigned [OF assms(3)]] by simp

lemma run_finish:
  assumes "ho_job (m_world m) = Some j" "usable j" "covers j p"
  shows "wp (JobRunner_finish (host ops sp a0 B) l parent rc mech iv start p)
    (\<lambda>res m'. \<exists>tr. calls_of m' = calls_of m @ tr \<and> aimed j p tr \<and> ho_job (m_world m') = Some j
      \<and> ho_started (m_world m') = ho_started (m_world m)) m"
  using assms unfolding JobRunner_finish_def host_def
  by (auto simp: wp_simps os_defs dest!: hostingD dest: host_kill split: option.split)

lemma run_rejected:
  assumes "ho_job (m_world m) = Some j" "usable j"
  shows "wp (do {
       _ \<leftarrow> job_Kill (host ops sp a0 B);
       _ \<leftarrow> cmd_Wait (host ops sp a0 B) p;
       cerr \<leftarrow> cancelledBy (host ops sp a0 B) parent program;
       State_Monad.return (f cerr)
     }) (\<lambda>res m'. ho_job (m_world m') = Some j \<and> ho_started (m_world m') = ho_started (m_world m)
       \<and> (\<exists>tr. calls_of m' = calls_of m @ tr)) m"
  using assms unfolding host_def
  by (auto simp: wp_simps os_defs dest!: hostingD dest: host_kill)

text \<open>The end of a run from the assignment on.\<close>

lemma run_assigned:
  assumes "ho_job (m_world m) = Some j" "usable j" "placed j a"
  shows "wp (do {
       asg \<leftarrow> job_Assign (host ops sp a0 B) p;
       case asg of
         Some err \<Rightarrow> do {
           _ \<leftarrow> job_Kill (host ops sp a0 B);
           _ \<leftarrow> cmd_Wait (host ops sp a0 B) p;
           cerr \<leftarrow> cancelledBy (host ops sp a0 B) parent (inv_Program iv);
           State_Monad.return (Inl (case cerr of Some e \<Rightarrow> e | None \<Rightarrow> StartError (inv_Program iv) err))
         }
       | None \<Rightarrow> JobRunner_finish (host ops sp a0 B) l parent rc mech iv start p
     })
    (\<lambda>res m'. ho_job (m_world m') \<noteq> None \<and> ho_started (m_world m') = ho_started (m_world m)
      \<and> (\<exists>j' asg kl. calls_of m' = calls_of m @ asg @ kl
          \<and> steady asg \<and> (\<forall>s. born j s \<longrightarrow> born j' s)
          \<and> placed j' a \<and> (joined j' p asg \<and> aimed j' p kl \<or> rejected j' p asg))) m" (is "wp _ ?Q m")
proof -
  have "wp (job_Assign (host ops sp a0 B) p) (\<lambda>r m1. \<exists>asg j'. calls_of m1 = calls_of m @ asg
      \<and> ho_job (m_world m1) = Some j' \<and> usable j' \<and> steady asg \<and> (\<forall>s. born j s \<longrightarrow> born j' s) \<and> placed j' a
      \<and> (if r = None then covers j' p \<and> joined j' p asg else rejected j' p asg)
      \<and> ho_started (m_world m1) = ho_started (m_world m)) m"
    using host_assign [where h = "m_world m" and j = j and p = p] assms
    by (fastforce simp: job_Assign_def wp_os_call host_def)
  then show ?thesis
    unfolding wp_bind
  proof (rule wp_mono, elim exE conjE, goal_cases)
    case h: (1 r m1 asg j')
    show ?case
    proof (cases r)
      case None
      with h show ?thesis
        by (auto intro!: wp_mono [OF run_finish [OF h(3,4)]]) blast
    next
      case (Some e)
      with h show ?thesis
        by (auto intro!: wp_mono [OF run_rejected [OF h(3,4)]]) blast
    qed
  qed
qed

text \<open>The calls between the creation of the job and its release, and the processes started by them.\<close>

lemma run_contained:
  assumes "ho_job (m_world m) = Some j" "usable j" "born j (calls_of m)"
  shows "wp (JobRunner_contained (host ops sp a0 B) l parent rc mech iv)
    (\<lambda>res m'. ho_job (m_world m') \<noteq> None \<and>
      (\<exists>tr st. calls_of m' = calls_of m @ tr \<and> ho_started (m_world m') = ho_started (m_world m) @ st
      \<and> (\<forall>(a, p, n)\<in>set st. n = length (calls_of m) \<and> (\<exists>j' asg kl. tr = asg @ kl
          \<and> born j' (calls_of m) \<and> steady asg \<and> placed j' a
          \<and> (joined j' p asg \<and> aimed j' p kl \<or> rejected j' p asg))))) m" (is "wp _ ?Q m")
proof -
  let ?P = "host ops sp a0 B"
  have conf: "wp (configure ?P iv) (\<lambda>r m1. r = None \<and> calls_of m1 = calls_of m
      \<and> ho_job (m_world m1) = Some j \<and> placed j (ho_attr (m_world m1))
      \<and> ho_started (m_world m1) = ho_started (m_world m)) m"
    using assms configured by (auto simp: configure_def wp_os_call host_def host_configure_def)
  have now: "wp (time_now ?P) (\<lambda>r m2. calls_of m2 = calls_of m1 \<and> ho_job (m_world m2) = ho_job (m_world m1)
      \<and> ho_attr (m_world m2) = ho_attr (m_world m1) \<and> ho_started (m_world m2) = ho_started (m_world m1)) m1" for m1
    by (auto simp: time_now_def wp_os_call host_def dest: hostingD)
  have spawn: "wp (cmd_Start ?P rc iv out) (\<lambda>r m2. calls_of m2 = calls_of m1
      \<and> ho_job (m_world m2) = ho_job (m_world m1) \<and> ho_attr (m_world m2) = ho_attr (m_world m1)
      \<and> ho_started (m_world m2) = ho_started (m_world m1)
          @ (case r of Inl e \<Rightarrow> [] | Inr p \<Rightarrow> [(ho_attr (m_world m1), p, length (calls_of m1))])) m1" for m1 out
    by (auto simp: cmd_Start_def wp_os_call host_def dest: host_startD)
  have failed: "wp (do {
             cerr \<leftarrow> cancelledBy ?P parent (inv_Program iv);
             case cerr of
               Some e \<Rightarrow> State_Monad.return (Inl e)
             | None \<Rightarrow> do {
                 e \<leftarrow> startErr ?P (inv_Program iv) err;
                 State_Monad.return (Inl e)
               }
           }) (\<lambda>r m2. calls_of m2 = calls_of m1 \<and> ho_job (m_world m2) = ho_job (m_world m1)
      \<and> ho_started (m_world m2) = ho_started (m_world m1)) m1" for m1 err
    by (auto simp: wp_simps host_def dest!: hostingD split: option.split)
  show ?thesis unfolding JobRunner_contained_def
  proof (rule wp_bindI, rule wp_mono [OF conf], elim conjE, simp only: option.case,
      rule wp_bindI, rule wp_mono [OF now], rule wp_bindI, rule wp_mono [OF spawn], elim conjE, goal_cases)
    case (1 c m1 t m2 r m3)
    show ?case
    proof (cases r)
      case (Inl e)
      show ?thesis unfolding Inl sum.case
        by (rule wp_mono [OF failed], rule conjI, use 1 Inl in simp, rule exI [of _ "[]"], rule exI [of _ "[]"])
          (use 1 Inl in simp)
    next
      case (Inr p)
      have "ho_job (m_world m3) = Some j" "placed j (ho_attr (m_world m1))" using 1 by auto
      note run_assigned [OF this(1) assms(2) this(2)]
      then show ?thesis unfolding Inr sum.case
      proof (rule wp_mono, elim conjE exE, goal_cases)
        case (1 res m4 j' asg kl)
        then have "calls_of m4 = calls_of m @ asg @ kl" "born j' (calls_of m)"
          using \<open>calls_of m3 = calls_of m2\<close> \<open>calls_of m2 = calls_of m1\<close> \<open>calls_of m1 = calls_of m\<close> assms(3) by auto
        moreover have "ho_started (m_world m4) = ho_started (m_world m) @ [(ho_attr (m_world m1), p, length (calls_of m))]"
          using 1 Inr \<open>ho_started (m_world m3) = _\<close> \<open>ho_started (m_world m2) = _\<close> \<open>ho_started (m_world m1) = _\<close>
            \<open>ho_attr (m_world m2) = _\<close> \<open>calls_of m2 = calls_of m1\<close> \<open>calls_of m1 = calls_of m\<close> by simp
        ultimately show ?case using 1
          by (intro conjI exI [of _ "asg @ kl"] exI [of _ "[(ho_attr (m_world m1), p, length (calls_of m))]"]) auto
      qed
    qed
  qed
qed

text \<open>
  A whole run: every process it started was started where the job reaches it, and then either taken in
  and hit by the kill, or dealt with by the failing assignment.
\<close>

lemma run_on_host:
  "wp (JobRunner_Output (host ops sp a0 B) l parent iv)
    (\<lambda>res m'. \<exists>tr st. calls_of m' = calls_of m @ tr \<and> ho_started (m_world m') = ho_started (m_world m) @ st
      \<and> (\<forall>(a, p, n)\<in>set st. \<exists>j' new asg kl cl. tr = new @ asg @ kl @ cl \<and> n = length (calls_of m @ new)
          \<and> born j' (calls_of m @ new) \<and> steady asg \<and> placed j' a
          \<and> (joined j' p asg \<and> aimed j' p kl \<or> rejected j' p asg))) m" (is "wp _ ?Q m")
proof -
  let ?P = "host ops sp a0 B"
  let ?same = "\<lambda>m1 m2. calls_of m2 = calls_of m1 \<and> ho_started (m_world m2) = ho_started (m_world m1)"
  have ctx: "wp (if 0 < inv_Timeout iv then withTimeout ?P parent (inv_Timeout iv)
      else State_Monad.return parent) (\<lambda>r m1. ?same m m1) m"
    by (auto simp: withTimeout_def wp_simps host_def dest: hostingD)
  have cancel: "wp (cancelledBy ?P parent (inv_Program iv)) (\<lambda>r m2. ?same m1 m2) m1" for m1
    by (auto simp: wp_simps host_def dest!: hostingD)
  have new: "wp (newJob ?P) (\<lambda>r m2. ho_started (m_world m2) = ho_started (m_world m1)
      \<and> (\<exists>tr. calls_of m2 = calls_of m1 @ tr)
      \<and> (\<forall>x. r = Inr x \<longrightarrow> (\<exists>j. ho_job (m_world m2) = Some j \<and> usable j \<and> born j (calls_of m2)))) m1" for m1
  proof -
    obtain r s' where run: "run_state (jo_new ops no_limits) (ho_sys (m_world m1)) = (r, s')" by fastforce
    from emits_run [OF created run] show ?thesis
      by (auto simp: newJob_def wp_os_call host_def host_new_def run split: sum.splits)
  qed
  have close: "wp (job_Close ?P) (\<lambda>r m2. ho_started (m_world m2) = ho_started (m_world m1)
      \<and> (\<exists>tr. calls_of m2 = calls_of m1 @ tr)) m1" if "ho_job (m_world m1) \<noteq> None" for m1
  proof -
    from that obtain j where j: "ho_job (m_world m1) = Some j" by blast
    have "emits (jo_Close ops j) s (\<lambda>tr (r, j'). True)" for s
      using released by (simp add: case_prod_unfold)
    then show ?thesis
      using on_jobD [OF _ j, where c = "jo_Close ops" and P = "\<lambda>tr r j'. True"]
      by (fastforce simp: job_Close_def wp_os_call host_def)
  qed
  show ?thesis unfolding JobRunner_Output_def
  proof (rule wp_bindI, rule wp_mono [OF ctx], rule wp_bindI, rule wp_mono [OF cancel], goal_cases)
    case (1 c m1 r m2)
    show ?case
    proof (cases r)
      case (Some e)
      with 1 show ?thesis by (auto simp: wp_return)
    next
      case None
      show ?thesis unfolding None option.case
      proof (rule wp_bindI, rule wp_mono [OF new], elim conjE exE, goal_cases)
        case (1 nj m3 tr)
        show ?case
        proof (cases nj)
          case (Inl e)
          with 1 \<open>?same m m1\<close> \<open>?same m1 m2\<close> show ?thesis by (auto simp: wp_return)
        next
          case (Inr x)
          with 1 obtain j where j: "ho_job (m_world m3) = Some j" "usable j" "born j (calls_of m3)" by blast
          show ?thesis unfolding Inr sum.case
          proof (rule wp_bindI, rule wp_mono [OF run_contained [OF j]], elim conjE exE, rule wp_bindI,
              rule wp_mono [OF close], assumption, elim conjE exE, unfold wp_return, goal_cases)
            case (1 res m4 tr1 st u m5 tr2)
            then have "calls_of m5 = calls_of m @ tr @ tr1 @ tr2"
              "ho_started (m_world m5) = ho_started (m_world m) @ st"
              using \<open>?same m m1\<close> \<open>?same m1 m2\<close> \<open>calls_of m3 = calls_of m2 @ tr\<close>
                \<open>ho_started (m_world m3) = ho_started (m_world m2)\<close> by simp_all
            moreover have "\<exists>j' new asg kl cl. tr @ tr1 @ tr2 = new @ asg @ kl @ cl \<and> n = length (calls_of m @ new)
                \<and> born j' (calls_of m @ new) \<and> steady asg
                \<and> placed j' a \<and> (joined j' p asg \<and> aimed j' p kl \<or> rejected j' p asg)"
              if "(a, p, n) \<in> set st" for a p n
            proof -
              have c3: "calls_of m3 = calls_of m @ tr"
                using \<open>?same m m1\<close> \<open>?same m1 m2\<close> \<open>calls_of m3 = calls_of m2 @ tr\<close> by simp
              from 1 that obtain j' asg kl where "n = length (calls_of m3)" "tr1 = asg @ kl" "born j' (calls_of m3)"
                "steady asg" "placed j' a" "joined j' p asg \<and> aimed j' p kl \<or> rejected j' p asg" by fast
              then show ?thesis unfolding c3
                by (intro exI [of _ j'] exI [of _ tr] exI [of _ asg] exI [of _ kl] exI [of _ tr2]) simp
            qed
            ultimately show ?case by blast
          qed
        qed
      qed
    qed
  qed
qed

text \<open>
  A process the job \<open>j\<close> can reach after the calls \<open>cs\<close>: it was started where the job reaches it, when the
  job stood for what it was created as, and nothing has changed that since.
\<close>

definition reached :: "'j \<Rightarrow> syscall list \<Rightarrow> ('a \<times> pid \<times> nat) list \<Rightarrow> pid \<Rightarrow> bool" where
  "reached j cs st p \<longleftrightarrow> (\<exists>a n. (a, p, n) \<in> set st \<and> placed j a \<and> n \<le> length cs
     \<and> born j (take n cs) \<and> steady (drop n cs))"

lemma reached_later:
  assumes "reached j cs st p" "steady tr" "\<forall>s. born j s \<longrightarrow> born j' s" "\<forall>a. placed j a \<longrightarrow> placed j' a"
  shows "reached j' (cs @ tr) st p"
proof -
  from assms(1) obtain a n where "(a, p, n) \<in> set st" "placed j a" "n \<le> length cs" "born j (take n cs)"
    "steady (drop n cs)" unfolding reached_def by blast
  with assms(2-4) show ?thesis unfolding reached_def by (intro exI [of _ a] exI [of _ n]) simp
qed

lemma reached_more: "reached j cs st p \<Longrightarrow> reached j cs (st @ st') p"
  unfolding reached_def by fastforce

lemma reached_now: "(a, p, length cs) \<in> set st \<Longrightarrow> placed j a \<Longrightarrow> born j cs \<Longrightarrow> reached j cs st p"
  unfolding reached_def by (intro exI [of _ a] exI [of _ "length cs"]) simp

text \<open>
  The invariant of an open group: its job is usable, aims its kill at every member, and can reach it.
\<close>

definition tracked :: "('w, 'j, 'a) hosted \<Rightarrow> group \<Rightarrow> bool" where
  "tracked h g \<longleftrightarrow> \<not> g_closed g \<and> (\<exists>j. ho_job h = Some j \<and> usable j \<and> born j (sm_calls (ho_sys h))
     \<and> (\<forall>rp\<in>set (g_procs g). covers j (rp_pid rp)
          \<and> reached j (sm_calls (ho_sys h)) (ho_started h) (rp_pid rp)))"

definition ready :: "('w, 'j, 'a) hosted \<Rightarrow> bool" where
  "ready h \<longleftrightarrow> (\<exists>j. ho_job h = Some j \<and> placed j (ho_attr h))"

lemma tracked_hosting:
  assumes "hosting f h = (r, h')"
  shows "tracked h' g = tracked h g" "ready h' = ready h"
  using hostingD [OF assms] by (simp_all add: tracked_def ready_def)

lemma tracked_hosting_snd [simp]:
  "tracked (snd (hosting f h)) g = tracked h g" "ready (snd (hosting f h)) = ready h"
  using tracked_hosting [of f h "fst (hosting f h)" "snd (hosting f h)"] by simp_all

lemma tracked_on_job:
  assumes "on_job c h = (r, h')" "tracked h g"
    "\<And>j. usable j \<Longrightarrow> emits (c j) (ho_sys h) (\<lambda>tr (r, j'). steady tr \<and> usable j' \<and> (\<forall>s. born j s \<longrightarrow> born j' s)
      \<and> (\<forall>q. covers j q \<longrightarrow> covers j' q) \<and> (\<forall>a. placed j a \<longrightarrow> placed j' a))"
  shows "tracked h' g"
proof -
  from assms(2) obtain j where j: "ho_job h = Some j" "usable j" "born j (sm_calls (ho_sys h))"
    "\<forall>rp\<in>set (g_procs g). covers j (rp_pid rp) \<and> reached j (sm_calls (ho_sys h)) (ho_started h) (rp_pid rp)"
    and g: "\<not> g_closed g" unfolding tracked_def by blast
  from on_jobD [OF assms(1) j(1) assms(3) [OF j(2)]] obtain j' tr
    where n: "sm_calls (ho_sys h') = sm_calls (ho_sys h) @ tr" "steady tr" "ho_job h' = Some j'" "usable j'"
      "\<forall>s. born j s \<longrightarrow> born j' s" "\<forall>q. covers j q \<longrightarrow> covers j' q" "\<forall>a. placed j a \<longrightarrow> placed j' a"
      "ho_started h' = ho_started h" by blast
  moreover have "born j' (sm_calls (ho_sys h'))" using born_steady [OF j(3) n(2)] n(1,5) by simp
  moreover have "\<forall>rp\<in>set (g_procs g). covers j' (rp_pid rp)
      \<and> reached j' (sm_calls (ho_sys h')) (ho_started h') (rp_pid rp)"
    using j(4) n(1,6,8) reached_later [OF _ n(2,5,7)] by auto
  ultimately show ?thesis using g unfolding tracked_def by blast
qed

lemma tracked_keeping:
  assumes "on_job (\<lambda>j. keeping j (c j)) h = (r, h')" "tracked h g" "\<And>j. quiet (c j)"
  shows "tracked h' g"
  by (rule tracked_on_job [OF assms(1,2)], rule keeping_emits)
    (rule emits_mono [OF quiet_emits [OF assms(3)]], simp)

text \<open>Starting a member.\<close>

lemma host_group_fields [simp]:
  "gp_base (host_group ops sp a0 G) = host ops sp a0 (gp_base G)"
  "gp_stdPipe (host_group ops sp a0 G) b = hosting (gp_stdPipe G b)"
  "gp_closeReader (host_group ops sp a0 G) b h = snd (hosting (\<lambda>w. ((), gp_closeReader G b w)) h)"
  by (simp_all add: host_group_def)

lemma tracked_close_pipes:
  "tracked (m_world m) g \<Longrightarrow> wp (closePipes (host_group ops sp a0 G) out err) (\<lambda>r m'. tracked (m_world m') g) m"
  unfolding closePipes_def close_reader_def by (auto simp: wp_simps)

lemma tracked_prepare:
  "tracked (m_world m) g \<Longrightarrow> ready (m_world m) \<Longrightarrow>
    wp (preparePipes (host_group ops sp a0 G) c) (\<lambda>r m'. tracked (m_world m') g \<and> ready (m_world m')) m"
  unfolding preparePipes_def std_pipe_def closePipes_def close_reader_def
  by (auto simp: wp_simps tracked_hosting split: option.split)

lemma tracked_assigned:
  assumes "on_job (\<lambda>j. jo_Assign ops j (Some p)) h = (r, h')" "tracked h g" "ready h"
    "(ho_attr h, p, length (sm_calls (ho_sys h))) \<in> set (ho_started h)"
  shows "tracked h' g \<and> (r = None \<longrightarrow> (\<exists>j. ho_job h' = Some j \<and> covers j p
      \<and> reached j (sm_calls (ho_sys h')) (ho_started h') p))"
proof -
  from assms(2,3) obtain j where j: "ho_job h = Some j" "usable j" "placed j (ho_attr h)"
    "born j (sm_calls (ho_sys h))" by (auto simp: tracked_def ready_def)
  have "tracked h' g"
    by (rule tracked_on_job [OF assms(1,2)], rule emits_mono [OF assigned]) auto
  from host_assign [OF assms(1) j(1,2)] obtain tr j' where n:
    "sm_calls (ho_sys h') = sm_calls (ho_sys h) @ tr" "steady tr" "ho_job h' = Some j'"
    "\<forall>s. born j s \<longrightarrow> born j' s" "\<forall>a. placed j a \<longrightarrow> placed j' a" "r = None \<longrightarrow> covers j' p"
    "ho_started h' = ho_started h" by metis
  have "reached j' (sm_calls (ho_sys h')) (ho_started h') p"
    unfolding n(1,7) using reached_later [OF reached_now [OF assms(4) j(3,4)] n(2,4,5)] .
  with \<open>tracked h' g\<close> n(3,6) show ?thesis by blast
qed

lemma tracked_spawned:
  assumes "host_start sp c iv out h = (r, h')" "tracked h g" "ready h"
  shows "tracked h' g \<and> ready h'
    \<and> (\<forall>p. r = Inr p \<longrightarrow> (ho_attr h', p, length (sm_calls (ho_sys h'))) \<in> set (ho_started h'))"
  using host_startD [OF assms(1)] assms(2,3) reached_more
  by (cases r) (auto simp: tracked_def ready_def)

lemma tracked_spawn:
  assumes "tracked (m_world m) g" "ready (m_world m)"
  shows "wp (group_spawn (host_group ops sp a0 G) ctx g iv c) (\<lambda>(r, g') m'. tracked (m_world m') g') m" (is "wp _ ?Q m")
proof -
  let ?P = "host ops sp a0 (gp_base G)"
  have spawn: "wp (cmd_Start ?P ctx iv' out) (\<lambda>r m1. tracked (m_world m1) g \<and> ready (m_world m1)
      \<and> (\<forall>p. r = Inr p \<longrightarrow> (ho_attr (m_world m1), p, length (calls_of m1)) \<in> set (ho_started (m_world m1)))) m" for iv' out
    using tracked_spawned assms by (auto simp: cmd_Start_def wp_os_call host_def)
  have asg: "wp (job_Assign ?P p) (\<lambda>r m2. tracked (m_world m2) g \<and> (r = None \<longrightarrow>
      (\<exists>j. ho_job (m_world m2) = Some j \<and> covers j p \<and> reached j (calls_of m2) (ho_started (m_world m2)) p))) m1"
    if "tracked (m_world m1) g" "ready (m_world m1)"
      "(ho_attr (m_world m1), p, length (calls_of m1)) \<in> set (ho_started (m_world m1))" for m1 p
    using tracked_assigned [OF _ that] by (auto simp: job_Assign_def wp_os_call host_def)
  have now: "wp (time_now ?P) (\<lambda>r m2. ho_job (m_world m2) = ho_job (m_world m1) \<and> calls_of m2 = calls_of m1
      \<and> ho_started (m_world m2) = ho_started (m_world m1)) m1" for m1
    by (auto simp: time_now_def wp_os_call host_def dest: hostingD)
  have reap: "wp (do { kill_Proc ?P p; _ \<leftarrow> cmd_Wait ?P p;
      closePipes (host_group ops sp a0 G) out err; State_Monad.return (x, g) }) (\<lambda>(r, g') m'. tracked (m_world m') g') m1"
    if "tracked (m_world m1) g" for m1 p out err x
    using that by (auto simp: kill_Proc_def cmd_Wait_def wp_simps host_def tracked_hosting
        intro!: wp_mono [OF tracked_close_pipes])
  show ?thesis unfolding group_spawn_def Let_def host_group_fields
  proof (rule wp_bindI, rule wp_mono [OF spawn], elim conjE, goal_cases)
    case (1 st m1)
    show ?case
    proof (cases st)
      case (Inl err)
      show ?thesis unfolding Inl sum.case
        by (rule wp_bindI, rule wp_mono [OF tracked_close_pipes]) (use 1 in \<open>auto simp: wp_simps\<close>)
    next
      case (Inr p)
      show ?thesis unfolding Inr sum.case
      proof (rule wp_bindI, rule wp_mono [OF asg], goal_cases)
        case (4 r m2)
        show ?case
        proof (cases r)
          case None
          show ?thesis unfolding None option.case
            by (rule wp_bindI, rule wp_mono [OF now])
              (use 4 None in \<open>auto simp: wp_simps tracked_def\<close>)
        next
          case (Some e)
          show ?thesis unfolding Some option.case
            by (rule reap) (use 4 in simp)
        qed
      qed (use 1 Inr in auto)
    qed
  qed
qed

lemma tracked_start:
  assumes "tracked (m_world m) g"
  shows "wp (group_Start (host_group ops sp a0 G) ctx g iv opts) (\<lambda>(r, g') m'. tracked (m_world m') g') m"
proof -
  have conf: "wp (configure (host ops sp a0 (gp_base G)) iv)
      (\<lambda>r m1. tracked (m_world m1) g \<and> ready (m_world m1)) m"
    using assms configured
    by (auto simp: configure_def wp_os_call host_def host_configure_def tracked_def ready_def)
  have "\<not> g_closed g" using assms by (simp add: tracked_def)
  then show ?thesis unfolding group_Start_def Let_def host_group_fields
  proof (simp only: if_False, intro wp_bindI wp_mono [OF conf], elim conjE, goal_cases)
    case (1 r m1)
    show ?case
    proof (cases r)
      case None
      show ?thesis unfolding None option.case
      proof (rule wp_bindI, rule wp_mono [OF tracked_prepare], use 1 in simp, use 1 in simp, elim conjE, goal_cases)
        case (1 pp m2)
        then show ?case
          by (cases pp) (auto simp: wp_return intro: tracked_spawn)
      qed
    qed (use 1 in \<open>simp add: wp_return\<close>)
  qed
qed

text \<open>The other operations of a session, and the whole session.\<close>

lemma tracked_adopt:
  "tracked (m_world m) g \<Longrightarrow> wp (group_Adopt (host_group ops sp a0 G) g q) (\<lambda>r m'. tracked (m_world m') g) m"
  using adopted
  by (auto simp: group_Adopt_def host_group_def wp_simps Let_def intro: tracked_on_job split: option.split)

lemma tracked_kill:
  "on_job (\<lambda>j. keeping j (jo_Kill ops j)) h = (r, h') \<Longrightarrow> tracked h g \<Longrightarrow> tracked h' g"
  by (erule tracked_on_job, assumption, rule keeping_emits) (rule emits_mono [OF killed], auto)

lemma tracked_do:
  "tracked (m_world m) g \<Longrightarrow> wp (group_do (host_group ops sp a0 G) x g) (\<lambda>g' m'. tracked (m_world m') g') m"
proof (cases x)
  case (OpStart ctx iv opts)
  assume "tracked (m_world m) g"
  from wp_mono [OF tracked_start [OF this]] show ?thesis
    unfolding OpStart group_do.simps by (intro wp_bindI) (force simp: wp_return)
next
  case (OpAdopt p)
  assume "tracked (m_world m) g"
  from wp_mono [OF tracked_adopt [OF this]] show ?thesis
    unfolding OpAdopt group_do.simps by (intro wp_bindI) (simp add: wp_return)
next
  case (OpSignal sg)
  assume "tracked (m_world m) g"
  then show ?thesis
    unfolding OpSignal group_do.simps group_Signal_def job_Signal_def job_Kill_def host_group_def host_def
    by (auto simp: wp_simps intro: tracked_kill tracked_keeping [OF _ _ signalled])
qed (auto simp: wp_simps group_Suspend_def group_Resume_def host_group_def
    intro: tracked_keeping [OF _ _ suspended] tracked_keeping [OF _ _ resumed])

lemma tracked_session:
  "tracked (m_world m) g \<Longrightarrow> wp (group_session (host_group ops sp a0 G) xs g) (\<lambda>g' m'. tracked (m_world m') g') m"
proof (induction xs arbitrary: g m)
  case (Cons x xs)
  show ?case unfolding group_session.simps
    by (rule wp_bindI, rule wp_mono [OF tracked_do [OF Cons.prems]]) (rule Cons.IH)
qed (simp add: wp_return)

lemma tracked_new:
  assumes "run_state (NewGroup (host_group ops sp a0 G) opts) m = (Inr g, m')"
  shows "tracked (m_world m') g"
proof -
  let ?l = "gc_limits (fold (\<lambda>opt c. opt c) opts groupConfig0)"
  obtain r s' where run: "run_state (jo_new ops ?l) (ho_sys (m_world m)) = (r, s')" by fastforce
  from emits_run [OF created run] assms show ?thesis
    by (auto simp: NewGroup_def Let_def host_group_def host_new_def run tracked_def
        split: option.splits sum.splits if_splits)
qed

text \<open>
  Closing an open group aims the kill of its job at every member, each of which was started where the
  job reaches it.
\<close>

lemma close_on_host:
  assumes "run_state (NewGroup (host_group ops sp a0 G) opts) m = (Inr g, m1)"
    and "run_state (group_session (host_group ops sp a0 G) xs g) m1 = (g', m2)"
    and "run_state (group_Close (host_group ops sp a0 G) g') m2 = ((e, g''), m3)"
  shows "\<exists>j kl cl. calls_of m3 = calls_of m2 @ kl @ cl
    \<and> (\<forall>rp\<in>set (g_procs g'). aimed j (rp_pid rp) kl
        \<and> reached j (calls_of m2) (ho_started (m_world m2)) (rp_pid rp))"
proof -
  have "tracked (m_world m2) g'"
    using wp_run [OF tracked_session [OF tracked_new [OF assms(1)]] assms(2)] .
  then obtain j where j: "\<not> g_closed g'" "ho_job (m_world m2) = Some j" "usable j"
    "\<forall>rp\<in>set (g_procs g'). covers j (rp_pid rp)
        \<and> reached j (calls_of m2) (ho_started (m_world m2)) (rp_pid rp)"
    by (auto simp: tracked_def)
  have "wp (group_Close (host_group ops sp a0 G) g') (\<lambda>r m3. \<exists>kl cl. calls_of m3 = calls_of m2 @ kl @ cl
      \<and> (\<forall>p. covers j p \<longrightarrow> aimed j p kl)) m2"
  proof -
    have rel: "emits (jo_Close ops j) s (\<lambda>tr (r, j'). True)" for s
      using released by (simp add: case_prod_unfold)
    { fix r1 h1 r2 h2
      assume k: "on_job (\<lambda>j. keeping j (jo_Kill ops j)) (m_world m2) = (r1, h1)" and c: "on_job (jo_Close ops) h1 = (r2, h2)"
      from host_kill [OF k j(2,3)] obtain kl
        where kl: "sm_calls (ho_sys h1) = calls_of m2 @ kl" "ho_job h1 = Some j" "\<forall>p. covers j p \<longrightarrow> aimed j p kl"
        by blast
      from on_jobD [OF c kl(2) rel] obtain cl where "sm_calls (ho_sys h2) = sm_calls (ho_sys h1) @ cl" by blast
      with kl have "\<exists>kl cl. sm_calls (ho_sys h2) = calls_of m2 @ kl @ cl \<and> (\<forall>p. covers j p \<longrightarrow> aimed j p kl)"
        by (intro exI [of _ kl] exI [of _ cl]) simp }
    with j(1) show ?thesis
      by (simp add: group_Close_def job_Kill_def job_Close_def wp_simps host_def)
  qed
  from wp_run [OF this assms(3)] obtain kl cl
    where k: "calls_of m3 = calls_of m2 @ kl @ cl" "\<forall>p. covers j p \<longrightarrow> aimed j p kl" by blast
  show ?thesis
    by (rule exI [of _ j], rule exI [of _ kl], rule exI [of _ cl], rule conjI [OF k(1)]) (use j(4) k(2) in blast)
qed

end

section \<open>Concrete hosts\<close>

text \<open>
  Surroundings in which nothing fails, used to exhibit runs: a kernel without cgroups, the Win32 of
  \<open>JobWindows\<close>, a spawner that starts process 100, and a context that is never done.
\<close>

definition no_cgroups :: "int list sysapi" where
  "no_cgroups = demo_sys\<lparr>sy_stat := (\<lambda>path w. (Some (Plain []), w))\<rparr>"

definition calm_base :: "'w platform" where
  "calm_base =
    \<lparr>p_unix = True, p_fmt = \<lparr>strerror = (\<lambda>_. []), quote_text = (\<lambda>s. s), list_text = concat\<rparr>,
     p_ctxErr = (\<lambda>c w. (None, w)), p_withTimeout = (\<lambda>c d w. (Suc c, w)), p_now = (\<lambda>w. (0, w)),
     p_timer = (\<lambda>c d w. (True, w)), p_PATH = (\<lambda>w. []), p_newJob = (\<lambda>w. (Inr Sys_Unknown, w)),
     p_configure = (\<lambda>iv w. (None, w)), p_pipe = (\<lambda>w. (None, w)), p_start = (\<lambda>c iv out w. (Inr 100, w)),
     p_assign = (\<lambda>p w. (None, w)), p_closePipes = (\<lambda>n w. w),
     p_wait = (\<lambda>p w. ((None, None), w)), p_killProc = (\<lambda>p w. w),
     p_stdout = (\<lambda>p w. []), p_stderr = (\<lambda>p w. []), p_kill = (\<lambda>w. (None, w)), p_close = (\<lambda>w. (None, w))\<rparr>"

definition calm_group :: "'w gplatform" where
  "calm_group =
    \<lparr>gp_base = calm_base,
     gp_signums = \<lparr>sn_USR1 = 10, sn_USR2 = 12\<rparr>,
     gp_newJob = (\<lambda>l w. (Inr Sys_Unknown, w)), gp_stdPipe = (\<lambda>b w. (None, w)), gp_closeReader = (\<lambda>b w. w),
     gp_adopt = (\<lambda>p w. (None, w)), gp_signal = (\<lambda>n w. (None, w)), gp_suspend = (\<lambda>w. (None, w)),
     gp_resume = (\<lambda>w. (None, w)), gp_stats = (\<lambda>w. (Inr stats0, w)), gp_newTimer = (\<lambda>d w. ((), w)), gp_wake = (\<lambda>c p w. (WakeDone, w)),
     gp_killProc = (\<lambda>p w. (None, w)), gp_done = (\<lambda>p w. False)\<rparr>"

definition spawn100 :: "('w, 'a) spawner" where
  "spawn100 a c iv out w = (Inr 100, w)"

definition fresh_attr :: sysProcAttr where
  "fresh_attr = \<lparr>at_Setpgid = False, at_CgroupFD = None\<rparr>"

definition fresh_host :: "'a \<Rightarrow> 'w \<Rightarrow> ('w, 'j, 'a) hosted mach" where
  "fresh_host a w = mach0 \<lparr>ho_sys = sysm0 w 0, ho_job = None, ho_attr = a, ho_started = []\<rparr>"

lemmas host_eval = host_def host_new_def host_configure_def host_start_def hosting_def on_job_def keeping_def
  wrapping_def calm_base_def spawn100_def fresh_host_def mach0_def sysm0_def sys_do_def

lemma linux_run_demo:
  "\<exists>res m'. run_state (JobRunner_Output (host (linux_ops no_cgroups) spawn100 fresh_attr calm_base) False 0 inv0)
      (fresh_host fresh_attr []) = (res, m')
    \<and> ho_started (m_world m') = [(fresh_attr\<lparr>at_Setpgid := True\<rparr>, 100, 0)]"
  by (simp add: JobRunner_Output_def JobRunner_contained_def JobRunner_finish_def os_defs cancelledBy_def inv0_def
      host_eval ops_defs newJob_linux_def createCgroup_def no_cgroups_def limits_Any_def no_limits_def
      groupConfig0_def pgroup_Configure_def pgroup_Assign_def pgroup_Kill_def pgroup_Signal_def deliver_def
      sys_Kill_def newPgroupJob_def pgroup_Close_def demo_sys_def log_spawned_def)

lemma windows_run_demo:
  "\<exists>res m'. run_state (JobRunner_Output (host (win_ops demo_win) spawn100 0 calm_base) False 0 inv0)
      (fresh_host 0 0) = (res, m')
    \<and> ho_started (m_world m') = [(CREATE_SUSPENDED, 100, 2)]"
  by (simp add: JobRunner_Output_def JobRunner_contained_def JobRunner_finish_def os_defs cancelledBy_def inv0_def
      host_eval ops_defs newJob_windows_def win_Configure_def win_Assign_def win_Kill_def win_Close_def job_open_def
      win_defs ntResumeProcess_def InvalidHandle_def demo_win_def no_limits_def groupConfig0_def log_spawned_def)

lemma valid_demo_win: "valid_handles demo_win"
  by (simp add: valid_handles_def demo_win_def InvalidHandle_def)

definition demo_group :: "(int list, unixJob, sysProcAttr) hosted gplatform" where
  "demo_group = host_group (linux_ops no_cgroups) spawn100 fresh_attr calm_group"

lemma group_demo:
  "\<exists>g m1 g' m2. run_state (NewGroup demo_group []) (fresh_host fresh_attr []) = (Inr g, m1)
    \<and> run_state (group_session demo_group [OpStart 0 inv0 [], OpSignal SignalTerm] g) m1 = (g', m2)
    \<and> map rp_pid (g_procs g') = [100] \<and> ho_started (m_world m2) = [(fresh_attr\<lparr>at_Setpgid := True\<rparr>, 100, 0)]"
proof -
  let ?g = "\<lparr>g_mechanism = MechanismProcessGroup, g_log = False, g_procs = [], g_closed = False\<rparr>"
  let ?h = "\<lparr>ho_sys = sysm0 [] 0, ho_job = Some (PGroup newPgroupJob), ho_attr = fresh_attr, ho_started = []\<rparr>"
  let ?m = "\<lparr>m_world = ?h, m_calls = [CNewJob True], m_logs = []\<rparr>"
  have new: "run_state (NewGroup demo_group []) (fresh_host fresh_attr []) = (Inr ?g, ?m)"
    by (simp add: demo_group_def NewGroup_def groupConfig0_def validateLimits_def limits_Any_def host_group_def
        calm_group_def host_eval ops_defs newJob_linux_def createCgroup_def no_cgroups_def demo_sys_def)
  obtain g1 m1 where start: "run_state (group_do demo_group (OpStart 0 inv0 []) ?g) ?m = (g1, m1)"
    and g1: "map rp_pid (g_procs g1) = [100]" and h1: "ho_started (m_world m1) = [(fresh_attr\<lparr>at_Setpgid := True\<rparr>, 100, 0)]"
      "ho_job (m_world m1) = Some (PGroup \<lparr>pg_pgids = [100], pg_solo = []\<rparr>)"
    by (simp add: demo_group_def host_group_def calm_group_def host_eval ops_defs group_Start_def
        start_config_def start_resolve_def startConfig0_def wantsStdout_def wantsStderr_def group_spawn_def
        os_defs preparePipes_def pgroup_Configure_def pgroup_Assign_def newPgroupJob_def log_spawned_def)
  obtain m2 where "run_state (group_do demo_group (OpSignal SignalTerm) g1) m1 = (g1, m2)"
    "ho_started (m_world m2) = ho_started (m_world m1)"
    using h1(2) by (simp add: demo_group_def host_group_def calm_group_def host_eval ops_defs group_Signal_def
        job_Signal_def SignalTerm_def mk_signal_def isUnset_def isKill_def signal_number_def pgroup_Signal_def
        deliver_def sys_Kill_def no_cgroups_def demo_sys_def os_call_def)
  with new start g1 h1 show ?thesis by (simp del: group_do.simps)
qed

section \<open>Properties\<close>

text \<open>
  How a process that was started with the attributes \<open>a\<close> after the first \<open>n\<close> of the calls \<open>cs\<close> is contained
  and hit.  Either it leads a process group of its own and SIGKILL is sent to that whole group after it
  was started.  Or it is cloned into the directory its cgroup handle refers to: the directory of a cgroup
  was opened under that handle before the start and the handle was not closed since, and after the start,
  before the handle is closed, that same cgroup is killed.
\<close>

definition linux_hit :: "syscall list \<Rightarrow> sysProcAttr \<Rightarrow> int \<Rightarrow> nat \<Rightarrow> bool" where
  "linux_hit cs a p n \<longleftrightarrow> (at_Setpgid a \<and> SKill (- p) SIGKILL \<in> set (drop n cs))
     \<or> (\<exists>c xs kl ys. at_CgroupFD a = Some (cg_dirFD c) \<and> opened_as c (take n cs)
          \<and> drop n cs = xs @ kl @ ys \<and> steady xs \<and> cgroup_killed c kl)"

lemma linux_hitI:
  assumes "unix_placed j a" "unix_born j (take n cs)" "drop n cs = xs @ kl @ ys" "steady xs" "unix_aimed j p kl"
  shows "linux_hit cs a p n"
proof (cases j)
  case (PGroup g)
  with assms show ?thesis by (auto simp: linux_hit_def pgroup_aimed_def)
next
  case (CGroup c)
  with assms show ?thesis unfolding linux_hit_def
    by (intro disjI2 exI [of _ c] exI [of _ xs] exI [of _ kl] exI [of _ ys]) simp
qed

text \<open>
  Claim C3. On Linux every process a run starts is contained from its start and hit by the hard kill: it
  either leads a process group of its own and afterwards SIGKILL is sent to that whole group, or it is
  cloned into a cgroup, by the handle that cgroup's directory was opened under, and afterwards that cgroup
  is killed, by \<^verbatim>\<open>cgroup.kill\<close> or by rounds of SIGKILL to every pid it lists; whatever the kernel, the
  context and the process do meanwhile.
\<close>

theorem linux_run_kills_its_child:
  assumes "run_state (JobRunner_Output (host (linux_ops S) sp a0 B) l parent iv) m = (res, m')"
  shows "\<exists>tr st. sm_calls (ho_sys (m_world m')) = sm_calls (ho_sys (m_world m)) @ tr
    \<and> ho_started (m_world m') = ho_started (m_world m) @ st
    \<and> (\<forall>(a, p, n)\<in>set st. length (sm_calls (ho_sys (m_world m))) \<le> n
        \<and> linux_hit (sm_calls (ho_sys (m_world m'))) a p n)"
proof -
  from wp_run [OF linux_backend.run_on_host assms] obtain tr st
    where t: "sm_calls (ho_sys (m_world m')) = sm_calls (ho_sys (m_world m)) @ tr"
      "ho_started (m_world m') = ho_started (m_world m) @ st"
      "\<forall>(a, p, n)\<in>set st. \<exists>j' new asg kl cl. tr = new @ asg @ kl @ cl
          \<and> n = length (sm_calls (ho_sys (m_world m)) @ new)
          \<and> unix_born j' (sm_calls (ho_sys (m_world m)) @ new) \<and> steady asg \<and> unix_placed j' a
          \<and> (asg = [] \<and> unix_aimed j' p kl \<or> False)" by blast
  have "length (sm_calls (ho_sys (m_world m))) \<le> n \<and> linux_hit (sm_calls (ho_sys (m_world m'))) a p n"
    if "(a, p, n) \<in> set st" for a p n
  proof -
    from t(3) that obtain j new kl cl where "tr = new @ kl @ cl"
      "n = length (sm_calls (ho_sys (m_world m)) @ new)" "unix_born j (sm_calls (ho_sys (m_world m)) @ new)"
      "unix_placed j a" "unix_aimed j p kl"
      by auto
    then show ?thesis using linux_hitI [of j a n "sm_calls (ho_sys (m_world m'))" "[]" kl cl p] t(1) by simp
  qed
  with t(1,2) show ?thesis by blast
qed

theorem linux_run_kills_its_child_witness:
  "SKill (- 100) SIGKILL \<in> set (sm_calls (ho_sys (m_world (snd (run_state
    (JobRunner_Output (host (linux_ops no_cgroups) spawn100 fresh_attr calm_base) False 0 inv0)
    (fresh_host fresh_attr []))))))"
proof -
  obtain res m' where run: "run_state (JobRunner_Output (host (linux_ops no_cgroups) spawn100 fresh_attr calm_base) False 0 inv0)
      (fresh_host fresh_attr []) = (res, m')" "ho_started (m_world m') = [(fresh_attr\<lparr>at_Setpgid := True\<rparr>, 100, 0)]"
    using linux_run_demo by blast
  from linux_run_kills_its_child [OF run(1)] run show ?thesis
    by (auto simp: fresh_host_def mach0_def fresh_attr_def linux_hit_def)
qed

text \<open>
  Claim C15. On Windows every process a run starts is created suspended, and right after its start it is
  assigned to the job, resumed, and ended with the termination of that job, or terminated by the failing assignment, or no
  longer there to be opened.
\<close>

theorem windows_run_terminates_its_child:
  assumes "valid_handles W"
    "run_state (JobRunner_Output (host (win_ops W) sp a0 B) l parent iv) m = (res, m')"
  shows "\<exists>tr st. sm_calls (ho_sys (m_world m')) = sm_calls (ho_sys (m_world m)) @ tr
    \<and> ho_started (m_world m') = ho_started (m_world m) @ st
    \<and> (\<forall>(a, p, n)\<in>set st. and a CREATE_SUSPENDED = CREATE_SUSPENDED
        \<and> (\<exists>j new asg kl cl. tr = new @ asg @ kl @ cl \<and> n = length (sm_calls (ho_sys (m_world m)) @ new)
            \<and> (win_joined j p asg \<and> win_aimed j kl \<or> win_rejected j p asg)))"
  using wp_run [OF windows_backend.run_on_host assms(2)] assms(1) by fastforce

theorem windows_run_terminates_its_child_witness:
  "\<exists>j new asg kl cl. sm_calls (ho_sys (m_world (snd (run_state
      (JobRunner_Output (host (win_ops demo_win) spawn100 0 calm_base) False 0 inv0) (fresh_host 0 0)))))
    = new @ asg @ kl @ cl \<and> (win_joined j 100 asg \<and> win_aimed j kl \<or> win_rejected j 100 asg)"
proof -
  obtain res m' where run: "run_state (JobRunner_Output (host (win_ops demo_win) spawn100 0 calm_base) False 0 inv0)
      (fresh_host 0 0) = (res, m')" "ho_started (m_world m') = [(CREATE_SUSPENDED, 100, 2)]"
    using windows_run_demo by blast
  let ?m0 = "fresh_host (0 :: 32 word) (0 :: nat) :: (nat, winJob, 32 word) hosted mach"
  from windows_run_terminates_its_child [OF valid_demo_win run(1)] obtain tr st where
    t: "calls_of m' = calls_of ?m0 @ tr" "ho_started (m_world m') = ho_started (m_world ?m0) @ st"
    and d: "\<forall>(a, p, n)\<in>set st. and a CREATE_SUSPENDED = CREATE_SUSPENDED
      \<and> (\<exists>j new asg kl cl. tr = new @ asg @ kl @ cl \<and> n = length (calls_of ?m0 @ new)
          \<and> (win_joined j p asg \<and> win_aimed j kl \<or> win_rejected j p asg))" by (elim exE conjE)
  from t run(2) have "calls_of m' = tr" "st = [(CREATE_SUSPENDED, 100, 2)]"
    by (simp_all add: fresh_host_def mach0_def sysm0_def)
  with d have "\<exists>j new asg kl cl. calls_of m' = new @ asg @ kl @ cl
      \<and> (win_joined j 100 asg \<and> win_aimed j kl \<or> win_rejected j 100 asg)" by simp metis
  then show ?thesis unfolding run(1) snd_conv .
qed

text \<open>
  Claim C4. On Linux closing a group aims the hard kill at every member it has gathered in any session of
  starts, adoptions, signals, suspends and resumes, between the last call of the session and the release
  of the job: either every member was started as the leader of a process group and SIGKILL goes to each of
  these groups, or every member was cloned into one cgroup, by the handle under which that cgroup's
  directory had been opened and has stayed open since, and that cgroup is killed, by \<^verbatim>\<open>cgroup.kill\<close> or by
  rounds of SIGKILL to every pid it lists.
\<close>

theorem linux_close_kills_every_member:
  assumes "run_state (NewGroup (host_group (linux_ops S) sp a0 G) opts) m = (Inr g, m1)"
    and "run_state (group_session (host_group (linux_ops S) sp a0 G) xs g) m1 = (g', m2)"
    and "run_state (group_Close (host_group (linux_ops S) sp a0 G) g') m2 = ((e, g''), m3)"
  shows "\<exists>kl cl. sm_calls (ho_sys (m_world m3)) = sm_calls (ho_sys (m_world m2)) @ kl @ cl
    \<and> ((\<forall>rp\<in>set (g_procs g'). SKill (- rp_pid rp) SIGKILL \<in> set kl
          \<and> (\<exists>a n. (a, rp_pid rp, n) \<in> set (ho_started (m_world m2)) \<and> at_Setpgid a))
      \<or> (\<exists>c. (g_procs g' \<noteq> [] \<longrightarrow> cgroup_killed c kl)
          \<and> (\<forall>rp\<in>set (g_procs g'). \<exists>a n. (a, rp_pid rp, n) \<in> set (ho_started (m_world m2))
              \<and> at_CgroupFD a = Some (cg_dirFD c) \<and> opened_as c (take n (sm_calls (ho_sys (m_world m2))))
              \<and> steady (drop n (sm_calls (ho_sys (m_world m2)))))))"
proof -
  from linux_backend.close_on_host [OF assms] obtain j kl cl
    where k: "sm_calls (ho_sys (m_world m3)) = sm_calls (ho_sys (m_world m2)) @ kl @ cl"
      "\<forall>rp\<in>set (g_procs g'). unix_aimed j (rp_pid rp) kl
        \<and> linux_backend.reached j (sm_calls (ho_sys (m_world m2))) (ho_started (m_world m2)) (rp_pid rp)" by blast
  show ?thesis
  proof (rule exI [of _ kl], rule exI [of _ cl], rule conjI [OF k(1)], cases j, goal_cases)
    case (1 p)
    with k(2) show ?case by (fastforce simp: pgroup_aimed_def linux_backend.reached_def)
  next
    case (2 c)
    have "\<exists>a n. (a, rp_pid rp, n) \<in> set (ho_started (m_world m2))
        \<and> at_CgroupFD a = Some (cg_dirFD c) \<and> opened_as c (take n (sm_calls (ho_sys (m_world m2))))
        \<and> steady (drop n (sm_calls (ho_sys (m_world m2))))" if "rp \<in> set (g_procs g')" for rp
      using k(2) that 2 unfolding linux_backend.reached_def by fastforce
    moreover have "g_procs g' \<noteq> [] \<longrightarrow> cgroup_killed c kl"
      using k(2) 2 by (cases "g_procs g'") auto
    ultimately show ?case by blast
  qed
qed

theorem linux_close_kills_every_member_witness:
  "\<exists>g m1 g' m2. run_state (NewGroup demo_group []) (fresh_host fresh_attr []) = (Inr g, m1)
    \<and> run_state (group_session demo_group [OpStart 0 inv0 [], OpSignal SignalTerm] g) m1 = (g', m2)
    \<and> SKill (- 100) SIGKILL \<in> set (sm_calls (ho_sys (m_world (snd (run_state (group_Close demo_group g') m2)))))"
proof -
  obtain g m1 g' m2 where run: "run_state (NewGroup demo_group []) (fresh_host fresh_attr []) = (Inr g, m1)"
    "run_state (group_session demo_group [OpStart 0 inv0 [], OpSignal SignalTerm] g) m1 = (g', m2)"
    "map rp_pid (g_procs g') = [100]" "ho_started (m_world m2) = [(fresh_attr\<lparr>at_Setpgid := True\<rparr>, 100, 0)]"
    using group_demo by (elim exE conjE)
  obtain e g'' m3 where close: "run_state (group_Close demo_group g') m2 = ((e, g''), m3)" by (metis surj_pair)
  have "\<exists>rp. g_procs g' = [rp] \<and> rp_pid rp = 100" using run(3) by auto
  with linux_close_kills_every_member [OF run(1,2) [unfolded demo_group_def] close [unfolded demo_group_def]] run(4)
  have "SKill (- 100) SIGKILL \<in> set (sm_calls (ho_sys (m_world m3)))"
    by (auto simp: fresh_attr_def)
  with run close show ?thesis by auto
qed

end
