(* ===== verification/ChainedRuns.thy ===== *)
theory ChainedRuns
  imports ContainedRuns Pipeline Supervisor
begin

text \<open>
  Pipelines (\<^verbatim>\<open>pipeline.go\<close>), retried commands (\<^verbatim>\<open>command.go\<close>) and supervision (\<^verbatim>\<open>supervisor.go\<close>) on a
  containment backend of \<^verbatim>\<open>internal/sys\<close>: many processes in one job, and many jobs one after the other.
  From the promises of the backend alone, each process ever started is dealt with in system calls.
\<close>

section \<open>Invariants of the host\<close>

text \<open>
  A predicate on the host that does not depend on the surroundings, and a program that keeps it; the rules
  follow the structure of the programs.
\<close>

definition sheltered :: "(('w, 'j, 'a) hosted \<Rightarrow> bool) \<Rightarrow> bool" where
  "sheltered I \<longleftrightarrow> (\<forall>(f :: 'w \<Rightarrow> unit \<times> 'w) h. I (snd (hosting f h)) = I h)"

definition stays :: "(('w, 'j, 'a) hosted \<Rightarrow> bool) \<Rightarrow> (('w, 'j, 'a) hosted mach, 'r) state \<Rightarrow> bool" where
  "stays I c \<longleftrightarrow> (\<forall>m. I (m_world m) \<longrightarrow> wp c (\<lambda>r m'. I (m_world m')) m)"

named_theorems stays_intro \<open>programs that keep a predicate on the host\<close>

lemma sheltered_any: "sheltered I \<Longrightarrow> I (snd (hosting f h)) = I h"
proof -
  assume s: "sheltered I"
  have "snd (hosting f h) = snd (hosting (\<lambda>w. ((), snd (f w))) h)" by (simp add: hosting_def split: prod.split)
  with s show ?thesis unfolding sheltered_def by metis
qed

lemma sheltered_run: "sheltered I \<Longrightarrow> hosting f h = (r, h') \<Longrightarrow> I h' = I h"
  using sheltered_any [of I f h] by simp

lemma stays_return [stays_intro]: "stays I (State_Monad.return a)"
  by (simp add: stays_def wp_return)

lemma stays_bind [stays_intro]: "stays I c \<Longrightarrow> (\<And>a. stays I (f a)) \<Longrightarrow> stays I (State_Monad.bind c f)"
  by (auto simp: stays_def wp_bind intro: wp_mono)

lemma stays_if [stays_intro]: "(b \<Longrightarrow> stays I c) \<Longrightarrow> (\<not> b \<Longrightarrow> stays I d) \<Longrightarrow> stays I (if b then c else d)"
  by simp

lemma stays_option [stays_intro]:
  "(x = None \<Longrightarrow> stays I c) \<Longrightarrow> (\<And>a. x = Some a \<Longrightarrow> stays I (f a)) \<Longrightarrow> stays I (case x of None \<Rightarrow> c | Some a \<Rightarrow> f a)"
  by (cases x) simp_all

lemma stays_sum [stays_intro]:
  "(\<And>a. x = Inl a \<Longrightarrow> stays I (f a)) \<Longrightarrow> (\<And>b. x = Inr b \<Longrightarrow> stays I (g b)) \<Longrightarrow>
    stays I (case x of Inl a \<Rightarrow> f a | Inr b \<Rightarrow> g b)"
  by (cases x) simp_all

lemma stays_prod [stays_intro]: "(\<And>a b. x = (a, b) \<Longrightarrow> stays I (f a b)) \<Longrightarrow> stays I (case x of (a, b) \<Rightarrow> f a b)"
  by (cases x) simp_all

lemma stays_let [stays_intro]: "stays I (f x) \<Longrightarrow> stays I (let y = x in f y)"
  by simp

lemma stays_wp: "stays I c \<Longrightarrow> I (m_world m) \<Longrightarrow> wp c (\<lambda>r m'. I (m_world m')) m"
  by (simp add: stays_def)

lemma run_stays:
  assumes "stays I c" "run_state c m = (r, m')" "I (m_world m)"
  shows "I (m_world m')"
  using wp_run [OF stays_wp [OF assms(1,3)] assms(2)] .

lemma stays_then:
  "stays I c \<Longrightarrow> I (m_world m) \<Longrightarrow> (\<And>r m'. I (m_world m') \<Longrightarrow> wp (f r) Q m') \<Longrightarrow> wp (State_Monad.bind c f) Q m"
  by (auto simp: stays_def wp_bind intro: wp_mono)

lemma stays_log [stays_intro]: "stays I (log_events evs)"
  by (simp add: stays_def wp_log_events)

lemma stays_read [stays_intro]: "stays I (read_world f)"
  by (simp add: stays_def wp_read_world)

lemma stays_ghost [stays_intro]: "stays I (os_call (\<lambda>w. (a, w)) c)"
  by (simp add: stays_def wp_os_call)

lemma stays_call: "sheltered I \<Longrightarrow> stays I (os_call (hosting f) c)"
  by (auto simp: stays_def wp_os_call sheltered_run)

lemma stays_ctx [stays_intro]:
  assumes "sheltered I"
  shows "stays I (ctxErr (host ops sp a0 B) c)" "stays I (withTimeout (host ops sp a0 B) c d)"
    "stays I (time_now (host ops sp a0 B))" "stays I (os_Pipe (host ops sp a0 B))"
    "stays I (cmd_Wait (host ops sp a0 B) p)" "stays I (close_Pipes (host ops sp a0 B) n)"
    "stays I (sleepCtx (host ops sp a0 B) c d)" "stays I (applyJitter d (hosting rng) b)"
  using stays_call [OF assms]
  by (auto simp: os_defs host_def sleepCtx_def applyJitter_def stays_def wp_simps sheltered_run [OF assms]
      sheltered_any [OF assms] split: prod.splits)

lemma stays_composed [stays_intro]:
  assumes "sheltered I"
  shows "stays I (cancelledBy (host ops sp a0 B) c name)" "stays I (startErr (host ops sp a0 B) name e)"
    "stays I (deadlineFired (host ops sp a0 B) c)" "stays I (cancel_of (host ops sp a0 B) s c)"
  unfolding cancelledBy_def startErr_def deadlineFired_def cancel_of_def
  by (intro stays_intro assms)+

lemma stays_wait_all [stays_intro]: "sheltered I \<Longrightarrow> stays I (wait_all (host ops sp a0 B) ps)"
  by (induction ps) (auto intro!: stays_intro)

lemma stays_outcomes [stays_intro]: "sheltered I \<Longrightarrow> stays I (stage_outcomes (host ops sp a0 B) stages procs sts)"
  by (induction "host ops sp a0 B" stages procs sts rule: stage_outcomes.induct) (auto intro!: stays_intro)

lemma stays_storm [stays_intro]:
  "sheltered I \<Longrightarrow> stays I (storm_guard (host ops sp a0 B) pow (hosting rng) s ctx crashed pauses storm)"
  unfolding storm_guard_def by (intro stays_intro)

lemma stays_restart [stays_intro]:
  "sheltered I \<Longrightarrow>
    stays I (supervise_restart (host ops sp a0 B) pow (hosting rng) s ctx r crashed restarts pauses storm)"
  unfolding supervise_restart_def by (intro stays_intro)

lemma stays_retry [stays_intro]:
  assumes "sheltered I" "stays I (cmd_run (host ops sp a0 B) c ctx)"
  shows "stays I (retry_loop (host ops sp a0 B) ctx c extr n k)"
proof (induction "nat (n - k)" arbitrary: k rule: less_induct)
  case less
  show ?case
    by (subst retry_loop.simps, intro stays_intro assms less) simp_all
qed

lemma stays_loop [stays_intro]:
  assumes "sheltered I" "\<And>iv. stays I (supervisor_runner (host ops sp a0 B) s ctx iv)"
  shows "stays I (supervise_loop (host ops sp a0 B) pow (hosting rng) s ctx fuel restarts pauses storm)"
proof (induction fuel arbitrary: restarts pauses storm)
  case (Suc fuel)
  have "stays I (supervise_round (host ops sp a0 B) pow (hosting rng) s ctx restarts pauses storm)"
    unfolding supervise_round_def by (intro stays_intro assms)
  with Suc show ?case by (auto intro!: stays_intro)
qed (simp add: stays_return)

section \<open>Many processes on any backend\<close>

context contained_job
begin

text \<open>
  What the system calls \<open>cs\<close> did to a process started with the attributes \<open>a\<close> after the first \<open>n\<close> of them:
  it was started where a job reaches it, when the job stood for what it was created as, and was taken in
  and later hit by the kill of that job, before anything could change what the job stands for, or dealt
  with by the failing assignment.
\<close>

definition dealt :: "syscall list \<Rightarrow> 'a \<Rightarrow> int \<Rightarrow> nat \<Rightarrow> bool" where
  "dealt cs a p n \<longleftrightarrow> n \<le> length cs \<and> (\<exists>j xs asg ys kl cl. drop n cs = xs @ asg @ ys @ kl @ cl
     \<and> steady (xs @ asg @ ys) \<and> born j (take n cs) \<and> placed j a
     \<and> (joined j p asg \<and> aimed j p kl \<or> rejected j p asg))"

lemma dealtI:
  assumes "n \<le> length cs" "drop n cs = xs @ asg @ ys @ kl @ cl" "steady (xs @ asg @ ys)" "born j (take n cs)"
    "placed j a" "joined j p asg \<and> aimed j p kl \<or> rejected j p asg"
  shows "dealt cs a p n"
  unfolding dealt_def using assms by blast

lemma dealt_append:
  assumes "dealt cs a p n"
  shows "dealt (cs @ post) a p n"
proof -
  from assms obtain j xs asg ys kl cl where d: "n \<le> length cs" "drop n cs = xs @ asg @ ys @ kl @ cl"
    "steady (xs @ asg @ ys)" "born j (take n cs)" "placed j a"
    "joined j p asg \<and> aimed j p kl \<or> rejected j p asg" unfolding dealt_def by blast
  show ?thesis
    by (rule dealtI [of n _ xs asg ys kl "cl @ post" j]) (use d in simp_all)
qed

text \<open>From \<open>h\<close> to \<open>h'\<close> only processes were started that have been dealt with.\<close>

definition settled :: "('w, 'j, 'a) hosted \<Rightarrow> ('w, 'j, 'a) hosted \<Rightarrow> bool" where
  "settled h h' \<longleftrightarrow> (\<exists>tr st. sm_calls (ho_sys h') = sm_calls (ho_sys h) @ tr
     \<and> ho_started h' = ho_started h @ st
     \<and> (\<forall>(a, p, n)\<in>set st. length (sm_calls (ho_sys h)) \<le> n \<and> dealt (sm_calls (ho_sys h')) a p n))"

lemma settled_refl [simp]: "settled h h"
  by (simp add: settled_def)

lemma settled_calls:
  "sm_calls (ho_sys h') = sm_calls (ho_sys h) @ tr \<Longrightarrow> ho_started h' = ho_started h \<Longrightarrow> settled h h'"
  by (simp add: settled_def)

lemma settled_trans:
  assumes "settled h h'" "settled h' h''"
  shows "settled h h''"
proof -
  from assms obtain tr st tr' st' where
    c: "sm_calls (ho_sys h') = sm_calls (ho_sys h) @ tr" and s: "ho_started h' = ho_started h @ st"
    and d: "\<forall>(a, p, n)\<in>set st. length (sm_calls (ho_sys h)) \<le> n \<and> dealt (sm_calls (ho_sys h')) a p n"
    and c': "sm_calls (ho_sys h'') = sm_calls (ho_sys h') @ tr'" and s': "ho_started h'' = ho_started h' @ st'"
    and d': "\<forall>(a, p, n)\<in>set st'. length (sm_calls (ho_sys h')) \<le> n \<and> dealt (sm_calls (ho_sys h'')) a p n"
    unfolding settled_def by blast
  have "\<forall>(a, p, n)\<in>set (st @ st'). length (sm_calls (ho_sys h)) \<le> n \<and> dealt (sm_calls (ho_sys h'')) a p n"
  proof -
    have "length (sm_calls (ho_sys h)) \<le> n \<and> dealt (sm_calls (ho_sys h'')) a p n" if "(a, p, n) \<in> set st" for a p n
      using d that dealt_append unfolding c' by blast
    moreover have "length (sm_calls (ho_sys h)) \<le> n \<and> dealt (sm_calls (ho_sys h'')) a p n" if "(a, p, n) \<in> set st'" for a p n
    proof -
      from d' that have "length (sm_calls (ho_sys h')) \<le> n" "dealt (sm_calls (ho_sys h'')) a p n" by blast+
      with c show ?thesis by simp
    qed
    ultimately show ?thesis by fastforce
  qed
  then show ?thesis unfolding settled_def
    using c s c' s' by (intro exI [of _ "tr @ tr'"] exI [of _ "st @ st'"]) simp
qed

lemma settled_hosting: "hosting f h = (r, h') \<Longrightarrow> settled h0 h' = settled h0 h"
  by (drule hostingD) (simp add: settled_def)

lemma settled_hosting_snd [simp]: "settled h0 (snd (hosting f h)) = settled h0 h"
  by (simp add: settled_def)

text \<open>
  A process an open job has been given: the kill of the job would hit it, or it was rejected.
\<close>

definition held :: "'j \<Rightarrow> syscall list \<Rightarrow> 'a \<Rightarrow> int \<Rightarrow> nat \<Rightarrow> bool" where
  "held j cs a p n \<longleftrightarrow> n \<le> length cs \<and> born j (take n cs) \<and> placed j a
     \<and> (\<exists>xs asg ys. drop n cs = xs @ asg @ ys \<and> steady (xs @ asg @ ys)
          \<and> (covers j p \<and> joined j p asg \<or> rejected j p asg))"

lemma heldE:
  assumes "held j cs a p n"
  obtains xs asg ys where "n \<le> length cs" "born j (take n cs)" "placed j a" "drop n cs = xs @ asg @ ys"
    "steady (xs @ asg @ ys)" "covers j p \<and> joined j p asg \<or> rejected j p asg"
  using assms unfolding held_def by blast

lemma held_killed:
  assumes "held j cs a p n" "\<And>p. covers j p \<Longrightarrow> aimed j p kl"
  shows "dealt (cs @ kl) a p n"
  using assms(1)
proof (rule heldE)
  fix xs asg ys
  assume "n \<le> length cs" "born j (take n cs)" "placed j a" "drop n cs = xs @ asg @ ys"
    "steady (xs @ asg @ ys)" "covers j p \<and> joined j p asg \<or> rejected j p asg"
  then show ?thesis
    using assms(2) by (intro dealtI [of n _ xs asg ys kl "[]" j]) auto
qed

lemma held_later:
  assumes "held j cs a p n" "steady asg" "\<forall>s. born j s \<longrightarrow> born j' s"
    "\<forall>q. covers j q \<longrightarrow> covers j' q" "\<forall>a. placed j a \<longrightarrow> placed j' a"
    "\<forall>q t. (joined j q t \<longrightarrow> joined j' q t) \<and> (rejected j q t \<longrightarrow> rejected j' q t)"
  shows "held j' (cs @ asg) a p n"
  using assms(1)
proof (rule heldE)
  fix xs t ys
  assume "n \<le> length cs" "born j (take n cs)" "placed j a" "drop n cs = xs @ t @ ys"
    "steady (xs @ t @ ys)" "covers j p \<and> joined j p t \<or> rejected j p t"
  with assms(2-6) show ?thesis unfolding held_def
    by (intro conjI exI [of _ xs] exI [of _ t] exI [of _ "ys @ asg"]) auto
qed

lemma held_new:
  assumes "born j cs" "steady asg" "placed j a" "covers j p \<and> joined j p asg \<or> rejected j p asg"
  shows "held j (cs @ asg) a p (length cs)"
  unfolding held_def using assms by (intro conjI exI [of _ "[]"] exI [of _ asg]) simp_all

text \<open>An open job, and the processes started since \<open>h0\<close>.\<close>

definition chained :: "('w, 'j, 'a) hosted \<Rightarrow> ('w, 'j, 'a) hosted \<Rightarrow> bool" where
  "chained h0 h \<longleftrightarrow> (\<exists>j tr st. ho_job h = Some j \<and> usable j \<and> born j (sm_calls (ho_sys h))
     \<and> sm_calls (ho_sys h) = sm_calls (ho_sys h0) @ tr \<and> ho_started h = ho_started h0 @ st
     \<and> (\<forall>(a, p, n)\<in>set st. length (sm_calls (ho_sys h0)) \<le> n \<and> held j (sm_calls (ho_sys h)) a p n))"

lemma chained_start: "ho_job h = Some j \<Longrightarrow> usable j \<Longrightarrow> born j (sm_calls (ho_sys h)) \<Longrightarrow> chained h h"
  by (simp add: chained_def)

lemma chained_hosting: "hosting f h = (r, h') \<Longrightarrow> chained h0 h' = chained h0 h"
  by (drule hostingD) (simp add: chained_def)

lemma chained_hosting_snd [simp]: "chained h0 (snd (hosting f h)) = chained h0 h"
  by (simp add: chained_def)

text \<open>One more process: started with the attributes prepared, and then assigned.\<close>

lemma chained_assign:
  assumes "on_job (\<lambda>j. jo_Assign ops j (Some p)) h = (r, h')" "ho_job h = Some j" "usable j" "placed j a"
    "ho_started h = ho_started h1 @ [(a, p, length (sm_calls (ho_sys h1)))]"
    "sm_calls (ho_sys h) = sm_calls (ho_sys h1)" "ho_job h1 = Some j" "chained h0 h1"
  shows "chained h0 h'"
proof -
  from host_assign [OF assms(1-3)] obtain asg j' where n: "sm_calls (ho_sys h') = sm_calls (ho_sys h) @ asg"
    "ho_job h' = Some j'" "usable j'" "steady asg" "\<forall>s. born j s \<longrightarrow> born j' s"
    "\<forall>q. covers j q \<longrightarrow> covers j' q" "\<forall>a. placed j a \<longrightarrow> placed j' a"
    "\<forall>q t. (joined j q t \<longrightarrow> joined j' q t) \<and> (rejected j q t \<longrightarrow> rejected j' q t)"
    "covers j' p \<and> joined j' p asg \<or> rejected j' p asg" "ho_started h' = ho_started h"
    by (cases r) auto
  let ?cs = "sm_calls (ho_sys h1)"
  from assms(7,8) obtain tr st where o: "?cs = sm_calls (ho_sys h0) @ tr" "ho_started h1 = ho_started h0 @ st"
    "\<forall>(a, p, n)\<in>set st. length (sm_calls (ho_sys h0)) \<le> n \<and> held j ?cs a p n" "born j ?cs"
    unfolding chained_def by auto
  have new: "held j' (?cs @ asg) a p (length ?cs)"
    using held_new n(4,5,7,9) o(4) assms(4) by blast
  have "\<forall>(b, q, k)\<in>set (st @ [(a, p, length ?cs)]). length (sm_calls (ho_sys h0)) \<le> k \<and> held j' (?cs @ asg) b q k"
  proof -
    have "length (sm_calls (ho_sys h0)) \<le> k \<and> held j' (?cs @ asg) b q k" if "(b, q, k) \<in> set st" for b q k
      using o(3) that held_later [OF _ n(4-8)] by blast
    moreover have "length (sm_calls (ho_sys h0)) \<le> length ?cs" using o(1) by simp
    ultimately show ?thesis using new by fastforce
  qed
  moreover have "born j' (?cs @ asg)" using n(4,5) o(4) born_steady by blast
  ultimately show ?thesis unfolding chained_def
    using n(1-3,10) o(1,2) assms(5,6)
    by (intro exI [of _ j'] exI [of _ "tr @ asg"] exI [of _ "st @ [(a, p, length ?cs)]"]) simp
qed

lemma chained_kill:
  assumes "on_job (\<lambda>j. keeping j (jo_Kill ops j)) h = (r, h')" "chained h0 h"
  shows "settled h0 h' \<and> ho_job h' \<noteq> None"
proof -
  from assms(2) obtain j tr st where o: "ho_job h = Some j" "usable j"
    "sm_calls (ho_sys h) = sm_calls (ho_sys h0) @ tr" "ho_started h = ho_started h0 @ st"
    "\<forall>(a, p, n)\<in>set st. length (sm_calls (ho_sys h0)) \<le> n \<and> held j (sm_calls (ho_sys h)) a p n"
    unfolding chained_def by blast
  from host_kill [OF assms(1) o(1,2)] obtain kl where k: "sm_calls (ho_sys h') = sm_calls (ho_sys h) @ kl"
    "ho_job h' = Some j" "\<forall>p. covers j p \<longrightarrow> aimed j p kl" "ho_started h' = ho_started h" by blast
  have "\<forall>(a, p, n)\<in>set st. length (sm_calls (ho_sys h0)) \<le> n \<and> dealt (sm_calls (ho_sys h')) a p n"
    using o(5) k(3) unfolding k(1) by (auto intro: held_killed)
  then show ?thesis unfolding settled_def
    using o(3,4) k(1,2,4) by auto
qed

section \<open>Runs one after the other\<close>

lemma sheltered_settled: "sheltered (settled h0)" and sheltered_chained: "sheltered (chained h0)"
  by (simp_all add: sheltered_def)

lemma settled_run: "stays (settled h0) (JobRunner_Output (host ops sp a0 B) l parent iv)"
  unfolding stays_def
proof (intro allI impI, rule wp_mono [OF run_on_host], elim exE conjE, goal_cases)
  case (1 m res m' tr st)
  let ?cs = "sm_calls (ho_sys (m_world m))"
  have "length ?cs \<le> n \<and> dealt (?cs @ tr) a p n" if "(a, p, n) \<in> set st" for a p n
  proof -
    from 1(4) that obtain j new asg kl cl where d: "tr = new @ asg @ kl @ cl" "n = length (?cs @ new)"
      "born j (?cs @ new)" "steady asg" "placed j a" "joined j p asg \<and> aimed j p kl \<or> rejected j p asg" by fast
    then have "dealt (?cs @ tr) a p n" by (intro dealtI [of n _ "[]" asg "[]" kl cl j]) simp_all
    with d(2) show ?thesis by simp
  qed
  with 1(2,3) have "settled (m_world m) (m_world m')" unfolding settled_def by (intro exI [of _ tr] exI [of _ st]) auto
  with 1(1) show ?case by (rule settled_trans)
qed

lemma settled_retry:
  "cm_runner c = None \<Longrightarrow> stays (settled h0) (retryRun (host ops sp a0 B) ctx c extr)"
  unfolding retryRun_def cmd_run_def cmd_runner_def
  by (intro stays_intro sheltered_settled) (simp add: cmd_run_def cmd_runner_def stays_bind stays_ghost settled_run)

lemma settled_supervisor:
  "sv_runner s = None \<Longrightarrow> sv_rng s = map_option hosting r \<Longrightarrow>
    stays (settled h0) (supervisor_Run (host ops sp a0 B) pow (hosting rng) fuel s ctx)"
  unfolding supervisor_Run_def
  by (cases r) (auto intro!: stays_loop sheltered_settled simp: supervisor_runner_def settled_run)

section \<open>A chain of processes\<close>

lemma chained_configure:
  "chained h0 (m_world m) \<Longrightarrow>
    wp (configure (host ops sp a0 B) iv) (\<lambda>r m'. chained h0 (m_world m') \<and> ready (m_world m')) m"
  using configured by (auto simp: configure_def wp_os_call host_def host_configure_def chained_def ready_def)

lemma chained_spawn:
  assumes "chained h0 (m_world m)" "ready (m_world m)"
  shows "wp (cmd_Start (host ops sp a0 B) c iv out) (\<lambda>st m1. case st of
      Inl e \<Rightarrow> chained h0 (m_world m1)
    | Inr p \<Rightarrow> \<forall>r h'. on_job (\<lambda>j. jo_Assign ops j (Some p)) (m_world m1) = (r, h') \<longrightarrow> chained h0 h') m"
  unfolding cmd_Start_def wp_os_call
proof (intro allI impI)
  fix st h1
  assume "p_start (host ops sp a0 B) c iv out (m_world m) = (st, h1)"
  then have s: "ho_job h1 = ho_job (m_world m)" "sm_calls (ho_sys h1) = sm_calls (ho_sys (m_world m))"
    "ho_started h1 = ho_started (m_world m) @ (case st of Inl e \<Rightarrow> [] | Inr p \<Rightarrow> [(ho_attr (m_world m), p, length (sm_calls (ho_sys (m_world m))))])"
    by (auto simp: host_def dest: host_startD)
  from assms(1) obtain j where j: "ho_job (m_world m) = Some j" "usable j" unfolding chained_def by blast
  with assms(2) have "placed j (ho_attr (m_world m))" by (simp add: ready_def)
  with s j show "case st of
      Inl e \<Rightarrow> chained h0 (m_world (m\<lparr>m_world := h1, m_calls := m_calls m @ calls\<rparr>))
    | Inr p \<Rightarrow> \<forall>r h'. on_job (\<lambda>j. jo_Assign ops j (Some p)) (m_world (m\<lparr>m_world := h1, m_calls := m_calls m @ calls\<rparr>)) = (r, h')
        \<longrightarrow> chained h0 h'" for calls
    using assms(1) by (cases st) (simp add: chained_def, auto intro: chained_assign)
qed

lemma chained_member:
  assumes "chained h0 (m_world m)" "ready (m_world m)"
    "\<And>e. stays (chained h0) (failed e)" "\<And>p r. stays (chained h0) (assigned_to p r)"
  shows "wp (do {
      st \<leftarrow> cmd_Start (host ops sp a0 B) c iv out;
      case st of Inl e \<Rightarrow> failed e
      | Inr p \<Rightarrow> do { r \<leftarrow> job_Assign (host ops sp a0 B) p; assigned_to p r }
    }) (\<lambda>r m'. chained h0 (m_world m')) m"
proof (rule wp_bindI, rule wp_mono [OF chained_spawn [OF assms(1,2)]], goal_cases)
  case (1 st m1)
  then show ?case
    by (cases st) (auto simp: stays_wp [OF assms(3)] job_Assign_def wp_bind wp_os_call host_def
      intro!: stays_wp [OF assms(4)])
qed

lemma chained_stage [stays_intro]:
  "stays (chained h0) (start_stage (host ops sp a0 B) runCtx carry i l stage ends procs)"
  unfolding start_stage_def
proof (rule stays_bind, goal_cases)
  case 1
  show ?case by (intro stays_intro sheltered_chained)
next
  case (2 stageCtx)
  show ?case
  proof (rule stays_let, rule stays_bind, goal_cases)
    case 1
    show ?case by (intro stays_intro sheltered_chained)
  next
    case (2 perr)
    show ?case
    proof (rule stays_option, goal_cases)
      case 1
      show ?case unfolding Let_def stays_def
        by (intro allI impI wp_bindI, rule wp_mono [OF chained_configure], assumption)
          (auto split: option.split simp: wp_return intro!: chained_member stays_intro sheltered_chained)
    qed (rule stays_return)
  qed
qed

lemma chained_stages [stays_intro]:
  "stays (chained h0) (start_stages (host ops sp a0 B) runCtx carry i stages ends procs)"
  by (induction "host ops sp a0 B" runCtx carry i stages ends procs rule: start_stages.induct)
    (auto intro!: stays_intro)

text \<open>The end of a chain: the job is killed on both paths, and then only the surroundings change.\<close>

definition killed_since :: "('w, 'j, 'a) hosted \<Rightarrow> ('w, 'j, 'a) hosted \<Rightarrow> bool" where
  "killed_since h0 h \<longleftrightarrow> settled h0 h \<and> ho_job h \<noteq> None"

lemma sheltered_killed: "sheltered (killed_since h0)"
  by (simp add: sheltered_def killed_since_def)

lemma chain_killed:
  assumes "chained h0 (m_world m)" "\<And>r. stays (killed_since h0) (f r)"
  shows "wp (State_Monad.bind (job_Kill (host ops sp a0 B)) f) (\<lambda>r m'. killed_since h0 (m_world m')) m"
proof (rule wp_bindI)
  have "wp (job_Kill (host ops sp a0 B)) (\<lambda>r m'. killed_since h0 (m_world m')) m"
    using chained_kill assms(1) by (auto simp: job_Kill_def wp_os_call host_def killed_since_def)
  then show "wp (job_Kill (host ops sp a0 B)) (\<lambda>r. wp (f r) (\<lambda>r m'. killed_since h0 (m_world m'))) m"
    by (rule wp_mono) (rule stays_wp [OF assms(2)])
qed

lemma chain_failed:
  "chained h0 (m_world m) \<Longrightarrow>
    wp (pipeline_fail (host ops sp a0 B) parent name err ends procs) (\<lambda>r m'. killed_since h0 (m_world m')) m"
  unfolding pipeline_fail_def by (erule chain_killed) (intro stays_intro sheltered_killed)

lemma chain_finished:
  assumes "chained h0 (m_world m)"
  shows "wp (pipeline_finish (host ops sp a0 B) pl parent runCtx mech start ends procs)
    (\<lambda>r m'. killed_since h0 (m_world m')) m"
  unfolding pipeline_finish_def
  by (rule stays_then [where I = "chained h0"], rule stays_log, rule assms,
      rule stays_then [OF stays_ctx(6) [OF sheltered_chained]], assumption,
      rule stays_then [OF stays_wait_all [OF sheltered_chained]], assumption,
      rule stays_then [OF stays_ctx(3) [OF sheltered_chained]], assumption, erule chain_killed)
    (intro stays_intro sheltered_killed)

lemma chain_contained:
  assumes "chained h0 (m_world m)"
  shows "wp (pipeline_contained (host ops sp a0 B) pl parent runCtx mech) (\<lambda>r m'. killed_since h0 (m_world m')) m"
  unfolding pipeline_contained_def
proof (rule stays_then [where I = "chained h0"], goal_cases)
  case (3 start m1)
  then show ?case
    by (rule stays_then [OF chained_stages]) (auto split: sum.split prod.split intro: chain_failed chain_finished)
qed (use assms in \<open>intro stays_intro sheltered_chained, simp\<close>)

text \<open>
  A whole pipeline, from any state in which the processes since \<open>h0\<close> are settled.
\<close>

lemma settled_new:
  assumes "settled h0 (m_world m)"
  shows "wp (newJob (host ops sp a0 B)) (\<lambda>r m'. settled h0 (m_world m')
    \<and> (\<forall>x. r = Inr x \<longrightarrow> chained (m_world m') (m_world m'))) m"
proof -
  obtain r s' where run: "run_state (jo_new ops no_limits) (ho_sys (m_world m)) = (r, s')" by fastforce
  from emits_run [OF created run] obtain tr where "sm_calls s' = sm_calls (ho_sys (m_world m)) @ tr"
    "\<forall>j. r = Inr j \<longrightarrow> usable j \<and> born j (sm_calls s')" by auto
  then show ?thesis
    using settled_trans [OF assms settled_calls]
    by (auto simp: newJob_def wp_os_call host_def host_new_def run intro: chained_start split: sum.splits)
qed

lemma settled_close:
  assumes "settled h0 h" "killed_since h (m_world m)"
  shows "wp (job_Close (host ops sp a0 B)) (\<lambda>r m'. settled h0 (m_world m')) m"
proof -
  from assms obtain j where j: "ho_job (m_world m) = Some j" and s: "settled h0 (m_world m)"
    unfolding killed_since_def using settled_trans by blast
  have "emits (jo_Close ops j) s (\<lambda>tr (r, j'). True)" for s
    using released by (simp add: case_prod_unfold)
  then have "\<exists>tr. sm_calls (ho_sys h') = sm_calls (ho_sys (m_world m)) @ tr \<and> ho_started h' = ho_started (m_world m)"
    if "on_job (jo_Close ops) (m_world m) = (r, h')" for r h'
    using on_jobD [OF that j, where P = "\<lambda>tr r j'. True"] by blast
  then show ?thesis
    using settled_trans [OF s settled_calls] by (auto simp: job_Close_def wp_os_call host_def)
qed

lemma settled_pipeline: "stays (settled h0) (pipeline_Output (host ops sp a0 B) pl parent)"
proof -
  let ?P = "host ops sp a0 B"
  have job: "stays (settled h0) (do {
      j \<leftarrow> newJob ?P;
      case j of
        Inl err \<Rightarrow> State_Monad.return (Inl (StartError (pipeline_name pl) err))
      | Inr mech \<Rightarrow> do {
          r \<leftarrow> pipeline_contained ?P pl parent runCtx (toMechanism mech);
          _ \<leftarrow> job_Close ?P;
          State_Monad.return r
        }
    })" for runCtx
    unfolding stays_def
  proof (intro allI impI, rule wp_bindI, erule wp_mono [OF settled_new], elim conjE, goal_cases)
    case (1 m j m1)
    show ?case
    proof (cases j)
      case (Inr mech)
      with 1(2) have "chained (m_world m1) (m_world m1)" by blast
      then show ?thesis unfolding Inr sum.case
        by (intro wp_bindI wp_mono [OF chain_contained] wp_mono [OF settled_close [OF 1(1)]]) (simp_all add: wp_return)
    qed (use 1 in \<open>simp add: wp_return\<close>)
  qed
  show ?thesis unfolding pipeline_Output_def
  proof (rule stays_if [OF stays_return], rule stays_bind, goal_cases)
    case 1
    show ?case by (intro stays_intro sheltered_settled)
  next
    case (2 runCtx)
    show ?case by (rule stays_bind [OF stays_composed(1) [OF sheltered_settled]], rule stays_option [OF job stays_return])
  qed
qed

end

section \<open>Properties\<close>

lemma linux_dealt:
  assumes "linux_backend.dealt cs a p n"
  shows "linux_hit cs a p n"
proof -
  from assms obtain j xs asg ys kl cl where d: "drop n cs = xs @ asg @ ys @ kl @ cl" "steady (xs @ asg @ ys)"
    "unix_born j (take n cs)" "unix_placed j a" "unix_aimed j p kl"
    unfolding linux_backend.dealt_def by blast
  show ?thesis
    by (rule linux_hitI [OF d(4,3) _ d(2,5), of cl]) (simp add: d(1))
qed

lemma linux_settled:
  assumes "linux_backend.settled h h'"
  shows "\<exists>tr st. sm_calls (ho_sys h') = sm_calls (ho_sys h) @ tr \<and> ho_started h' = ho_started h @ st
    \<and> (\<forall>(a, p, n)\<in>set st. length (sm_calls (ho_sys h)) \<le> n \<and> linux_hit (sm_calls (ho_sys h')) a p n)"
proof -
  from assms obtain tr st where "sm_calls (ho_sys h') = sm_calls (ho_sys h) @ tr" "ho_started h' = ho_started h @ st"
    "\<forall>(a, p, n)\<in>set st. length (sm_calls (ho_sys h)) \<le> n \<and> linux_backend.dealt (sm_calls (ho_sys h')) a p n"
    unfolding linux_backend.settled_def by blast
  moreover from this(3) have "\<forall>(a, p, n)\<in>set st. length (sm_calls (ho_sys h)) \<le> n
      \<and> linux_hit (sm_calls (ho_sys h')) a p n" using linux_dealt by blast
  ultimately show ?thesis by blast
qed

text \<open>
  Claim C5. On Linux every stage of a pipeline is contained from its start and hit by the hard kill, also
  when a later stage cannot be started: it leads a process group of its own and afterwards SIGKILL is sent
  to that whole group, or it is cloned into a cgroup, by the handle that cgroup's directory was opened
  under, and afterwards that cgroup is killed, by \<^verbatim>\<open>cgroup.kill\<close> or by rounds of SIGKILL to every pid it
  lists.
\<close>

theorem linux_pipeline_kills_every_stage:
  assumes "run_state (pipeline_Output (host (linux_ops S) sp a0 B) pl parent) m = (res, m')"
  shows "\<exists>tr st. sm_calls (ho_sys (m_world m')) = sm_calls (ho_sys (m_world m)) @ tr
    \<and> ho_started (m_world m') = ho_started (m_world m) @ st
    \<and> (\<forall>(a, p, n)\<in>set st. length (sm_calls (ho_sys (m_world m))) \<le> n
        \<and> linux_hit (sm_calls (ho_sys (m_world m'))) a p n)"
  by (rule linux_settled, rule run_stays [OF linux_backend.settled_pipeline assms]) simp

definition spawn_stage :: "('w, 'a) spawner" where
  "spawn_stage a c iv out w = (Inr (if inv_Stdin iv = None then 100 else 101), w)"

definition demo_chain :: "(int list, unixJob, sysProcAttr) hosted pipeline" where
  "demo_chain = \<lparr>pl_stages = [mk_Command ''ls'' [], mk_Command ''wc'' []], pl_timeout = 0, pl_stdin = None, pl_log = False\<rparr>"

theorem linux_pipeline_kills_every_stage_witness:
  "\<exists>m'. snd (run_state (pipeline_Output (host (linux_ops no_cgroups) spawn_stage fresh_attr calm_base) demo_chain 0)
      (fresh_host fresh_attr [])) = m'
    \<and> SKill (- 100) SIGKILL \<in> set (sm_calls (ho_sys (m_world m')))
    \<and> SKill (- 101) SIGKILL \<in> set (sm_calls (ho_sys (m_world m')))"
proof -
  let ?c = "pipeline_Output (host (linux_ops no_cgroups) spawn_stage fresh_attr calm_base) demo_chain 0"
  obtain res m' where run: "run_state ?c (fresh_host fresh_attr []) = (res, m')" by fastforce
  have "ho_started (m_world (snd (run_state ?c (fresh_host fresh_attr []))))
      = [(fresh_attr\<lparr>at_Setpgid := True\<rparr>, 100, 0), (fresh_attr\<lparr>at_Setpgid := True\<rparr>, 101, 0)]"
    by (simp add: pipeline_Output_def pipeline_contained_def pipeline_finish_def demo_chain_def mk_Command_def
      start_stage_def os_defs cancelledBy_def spawn_stage_def cmd_invocation_def
      host_eval ops_defs newJob_linux_def createCgroup_def no_cgroups_def limits_Any_def no_limits_def
      groupConfig0_def pgroup_Configure_def pgroup_Assign_def pgroup_Kill_def pgroup_Signal_def deliver_def
      sys_Kill_def newPgroupJob_def pgroup_Close_def demo_sys_def)
  with run have "ho_started (m_world m') = [(fresh_attr\<lparr>at_Setpgid := True\<rparr>, 100, 0), (fresh_attr\<lparr>at_Setpgid := True\<rparr>, 101, 0)]"
    by simp
  with linux_pipeline_kills_every_stage [OF run] run show ?thesis
    by (auto simp: linux_hit_def fresh_host_def mach0_def fresh_attr_def sysm0_def)
qed

text \<open>
  Claim C6. On Linux a supervisor leaves no process behind, however often it restarts its command and
  however it ends: every process of every incarnation is contained from its start and hit by the hard kill.
\<close>

theorem linux_supervisor_kills_every_incarnation:
  assumes "sv_runner s = None" "sv_rng s = map_option hosting r"
    "run_state (supervisor_Run (host (linux_ops S) sp a0 B) pow (hosting rng) fuel s ctx) m = (res, m')"
  shows "\<exists>tr st. sm_calls (ho_sys (m_world m')) = sm_calls (ho_sys (m_world m)) @ tr
    \<and> ho_started (m_world m') = ho_started (m_world m) @ st
    \<and> (\<forall>(a, p, n)\<in>set st. length (sm_calls (ho_sys (m_world m))) \<le> n
        \<and> linux_hit (sm_calls (ho_sys (m_world m'))) a p n)"
  by (rule linux_settled, rule run_stays [OF linux_backend.settled_supervisor [OF assms(1,2)] assms(3)]) simp

definition demo_supervisor :: "(int list, unixJob, sysProcAttr) hosted supervisor" where
  "demo_supervisor = WithRestart RestartNever (Supervise (mk_Command ''ls'' []))"

theorem linux_supervisor_kills_every_incarnation_witness:
  "SKill (- 100) SIGKILL \<in> set (sm_calls (ho_sys (m_world (snd (run_state
    (supervisor_Run (host (linux_ops no_cgroups) spawn100 fresh_attr calm_base) (\<lambda>x y. x) (hosting (Pair (Fin 0))) 1
      demo_supervisor 0) (fresh_host fresh_attr []))))))"
proof -
  let ?c = "supervisor_Run (host (linux_ops no_cgroups) spawn100 fresh_attr calm_base) (\<lambda>x y. x) (hosting (Pair (Fin 0))) 1
      demo_supervisor 0"
  note s = demo_supervisor_def WithRestart_def Supervise_def mk_Command_def
  have d: "sv_runner demo_supervisor = None" "sv_rng demo_supervisor = map_option hosting None"
    by (simp_all add: s)
  obtain res m' where run: "run_state ?c (fresh_host fresh_attr []) = (res, m')" by fastforce
  have "ho_started (m_world (snd (run_state ?c (fresh_host fresh_attr [])))) = [(fresh_attr\<lparr>at_Setpgid := True\<rparr>, 100, 0)]"
    by (simp add: supervisor_Run_def supervise_round_def supervise_restart_def supervisor_runner_def s conclude_def
      cmd_invocation_def 
      JobRunner_Output_def JobRunner_contained_def JobRunner_finish_def os_defs cancelledBy_def
      host_eval ops_defs newJob_linux_def createCgroup_def no_cgroups_def limits_Any_def no_limits_def
      groupConfig0_def pgroup_Configure_def pgroup_Assign_def pgroup_Kill_def pgroup_Signal_def deliver_def
      sys_Kill_def newPgroupJob_def pgroup_Close_def demo_sys_def log_spawned_def)
  with run have "ho_started (m_world m') = [(fresh_attr\<lparr>at_Setpgid := True\<rparr>, 100, 0)]" by simp
  with linux_supervisor_kills_every_incarnation [OF d run] run show ?thesis
    by (auto simp: linux_hit_def fresh_host_def mach0_def fresh_attr_def sysm0_def)
qed

text \<open>The same for a pipeline on Windows, with the order of the assignment and the termination of the job.\<close>

theorem windows_pipeline_ends_every_stage:
  fixes W :: "'w winapi"
  assumes "valid_handles W" "run_state (pipeline_Output (host (win_ops W) sp a0 B) pl parent) m = (res, m')"
  shows "\<exists>tr st. sm_calls (ho_sys (m_world m')) = sm_calls (ho_sys (m_world m)) @ tr
    \<and> ho_started (m_world m') = ho_started (m_world m) @ st
    \<and> (\<forall>(a, p, n)\<in>set st. length (sm_calls (ho_sys (m_world m))) \<le> n \<and> and a CREATE_SUSPENDED = CREATE_SUSPENDED
        \<and> (\<exists>j xs asg ys kl cl. drop n (sm_calls (ho_sys (m_world m'))) = xs @ asg @ ys @ kl @ cl
            \<and> (win_joined j p asg \<and> win_aimed j kl \<or> win_rejected j p asg)))"
proof -
  let ?ends = "\<lambda>cs a p n. and a CREATE_SUSPENDED = CREATE_SUSPENDED
      \<and> (\<exists>j xs asg ys kl cl. drop n cs = xs @ asg @ ys @ kl @ cl
          \<and> (win_joined j p asg \<and> win_aimed j kl \<or> win_rejected j p asg))"
  have "windows_backend.settled W (m_world m) (m_world m')"
    by (rule run_stays [OF windows_backend.settled_pipeline assms(2)]) simp
  then obtain tr st where t: "sm_calls (ho_sys (m_world m')) = sm_calls (ho_sys (m_world m)) @ tr"
    "ho_started (m_world m') = ho_started (m_world m) @ st"
    and d: "\<forall>(a, p, n)\<in>set st. length (sm_calls (ho_sys (m_world m))) \<le> n
      \<and> windows_backend.dealt TYPE('w) W (sm_calls (ho_sys (m_world m'))) a p n"
    unfolding windows_backend.settled_def by blast
  have ends: "?ends cs a p n" if "windows_backend.dealt TYPE('w) W cs a p n" for cs a p n
    using that assms(1) unfolding windows_backend.dealt_def by blast
  show ?thesis
  proof (intro exI conjI ballI, rule t(1), rule t(2), unfold case_prod_unfold, intro conjI, goal_cases)
    case (1 x)
    with d show ?case by auto
  next
    case (2 x)
    with d show ?case using ends [of _ "fst x" "fst (snd x)" "snd (snd x)"] by auto
  next
    case (3 x)
    with d show ?case using ends [of _ "fst x" "fst (snd x)" "snd (snd x)"] by auto
  qed
qed

end
