(* ===== verification/Slices.thy ===== *)
theory Slices
  imports Prelude
begin

text \<open>
  Go slices with their backing arrays, for the places where the code's correctness depends on who shares
  an array with whom.  A heap is the list of the arrays allocated so far; a slice is nil or a window of
  one of them.  \<^verbatim>\<open>append\<close> writes into the spare capacity of its array when there is any, which is what the
  copies in the builders guard against; how much capacity a new array gets is the runtime's choice and a
  parameter.  The lemmas say when an operation leaves what other slices show as it is.
\<close>

section \<open>Slices and heaps\<close>

type_synonym 'e heap = "'e list list"

record slice =
  sl_arr :: nat
  sl_off :: nat
  sl_len :: nat
  sl_cap :: nat

text \<open>What a slice shows.\<close>

fun content :: "'e heap \<Rightarrow> slice option \<Rightarrow> 'e list" where
  "content h None = []"
| "content h (Some s) = take (sl_len s) (drop (sl_off s) (h ! sl_arr s))"

text \<open>A slice lies in the heap; the arrays a slice can reach.\<close>

fun in_heap :: "'e heap \<Rightarrow> slice option \<Rightarrow> bool" where
  "in_heap h None = True"
| "in_heap h (Some s) = (sl_arr s < length h \<and> sl_len s \<le> sl_cap s
     \<and> sl_off s + sl_cap s \<le> length (h ! sl_arr s))"

fun arrays :: "slice option \<Rightarrow> nat set" where
  "arrays None = {}"
| "arrays (Some s) = {sl_arr s}"

section \<open>Operations\<close>

text \<open>The runtime's choice of a capacity, from the old capacity and the number of elements to hold.\<close>

type_synonym growth = "nat \<Rightarrow> nat \<Rightarrow> nat"

text \<open>A new array with the given elements, and zero values in its spare capacity.\<close>

definition go_alloc :: "(nat \<Rightarrow> nat) \<Rightarrow> 'e \<Rightarrow> 'e list \<Rightarrow> 'e heap \<Rightarrow> slice \<times> 'e heap" where
  "go_alloc grow z xs h =
    (let c = max (length xs) (grow (length xs))
     in (\<lparr>sl_arr = length h, sl_off = 0, sl_len = length xs, sl_cap = c\<rparr>,
         h @ [xs @ replicate (c - length xs) z]))"

definition overwrite :: "nat \<Rightarrow> 'e list \<Rightarrow> 'e list \<Rightarrow> 'e list" where
  "overwrite i xs a = take i a @ xs @ drop (i + length xs) a"

text \<open>\<^verbatim>\<open>append(s, xs...)\<close>; nothing appended gives the same slice back.\<close>

definition go_append :: "growth \<Rightarrow> 'e \<Rightarrow> slice option \<Rightarrow> 'e list \<Rightarrow> 'e heap \<Rightarrow> slice option \<times> 'e heap" where
  "go_append grow z s xs h =
    (if xs = [] then (s, h)
     else case s of
       None \<Rightarrow> (case go_alloc (grow 0) z xs h of (s', h') \<Rightarrow> (Some s', h'))
     | Some w \<Rightarrow>
         if sl_len w + length xs \<le> sl_cap w
         then (Some (w\<lparr>sl_len := sl_len w + length xs\<rparr>),
               h[sl_arr w := overwrite (sl_off w + sl_len w) xs (h ! sl_arr w)])
         else (case go_alloc (grow (sl_cap w)) z (content h s @ xs) h of (s', h') \<Rightarrow> (Some s', h')))"

text \<open>\<^verbatim>\<open>append([]T(nil), s...)\<close>: nil when there is nothing to copy.\<close>

definition go_copy :: "growth \<Rightarrow> 'e \<Rightarrow> slice option \<Rightarrow> 'e heap \<Rightarrow> slice option \<times> 'e heap" where
  "go_copy grow z s h = go_append grow z None (content h s) h"

text \<open>\<^verbatim>\<open>append([]T{}, s...)\<close>: never nil; the literal is an empty array.\<close>

definition go_copy_literal :: "growth \<Rightarrow> 'e \<Rightarrow> slice option \<Rightarrow> 'e heap \<Rightarrow> slice option \<times> 'e heap" where
  "go_copy_literal grow z s h =
    go_append grow z (Some \<lparr>sl_arr = length h, sl_off = 0, sl_len = 0, sl_cap = 0\<rparr>) (content h s) (h @ [[]])"

text \<open>An assignment \<^verbatim>\<open>s[i] = x\<close>, which panics out of range.\<close>

definition go_set :: "slice option \<Rightarrow> nat \<Rightarrow> 'e \<Rightarrow> 'e heap \<Rightarrow> 'e heap option" where
  "go_set s i x h =
    (case s of
       None \<Rightarrow> None
     | Some w \<Rightarrow> if i < sl_len w then Some (h[sl_arr w := (h ! sl_arr w)[sl_off w + i := x]]) else None)"

section \<open>Frames\<close>

text \<open>\<open>grows A h h'\<close>: only the arrays in \<open>A\<close> and new ones differ.\<close>

definition grows :: "nat set \<Rightarrow> 'e heap \<Rightarrow> 'e heap \<Rightarrow> bool" where
  "grows A h h' \<longleftrightarrow> length h \<le> length h' \<and> (\<forall>i < length h. length (h' ! i) = length (h ! i) \<and> (i \<notin> A \<longrightarrow> h' ! i = h ! i))"

lemma grows_refl [simp]: "grows A h h"
  by (simp add: grows_def)

lemma grows_trans: "grows A h h' \<Longrightarrow> grows B h' h'' \<Longrightarrow> grows (A \<union> B) h h''"
  by (auto simp: grows_def)

lemma grows_mono: "grows A h h' \<Longrightarrow> A \<inter> {..<length h} \<subseteq> B \<Longrightarrow> grows B h h'"
  by (auto simp: grows_def)

lemma in_heap_arrays: "in_heap h s \<Longrightarrow> arrays s \<subseteq> {..<length h}"
  by (cases s) auto

lemma grows_in_heap: "grows A h h' \<Longrightarrow> in_heap h s \<Longrightarrow> in_heap h' s"
  by (cases s) (auto simp: grows_def)

lemma grows_content: "grows A h h' \<Longrightarrow> in_heap h s \<Longrightarrow> arrays s \<inter> A = {} \<Longrightarrow> content h' s = content h s"
  by (cases s) (auto simp: grows_def)

lemma go_alloc:
  assumes "go_alloc grow z xs h = (s, h')"
  shows "grows {} h h'" "in_heap h' (Some s)" "arrays (Some s) = {length h}" "content h' (Some s) = xs"
  using assms by (auto simp: go_alloc_def Let_def grows_def nth_append)

lemma length_overwrite: "i + length xs \<le> length a \<Longrightarrow> length (overwrite i xs a) = length a"
  by (simp add: overwrite_def)

lemma go_append_frame:
  assumes "go_append grow z s xs h = (s', h')" "in_heap h s"
  shows "grows (arrays s) h h'" "in_heap h' s'" "arrays s' \<subseteq> arrays s \<union> {length h..}"
    "content h' s' = content h s @ xs" "s' = None \<longleftrightarrow> s = None \<and> xs = []"
proof -
  consider "xs = []" | "xs \<noteq> []" "s = None"
    | w where "xs \<noteq> []" "s = Some w" "sl_len w + length xs \<le> sl_cap w"
    | w where "xs \<noteq> []" "s = Some w" "\<not> sl_len w + length xs \<le> sl_cap w"
    by (cases s) auto
  then have "grows (arrays s) h h' \<and> in_heap h' s' \<and> arrays s' \<subseteq> arrays s \<union> {length h..}
    \<and> content h' s' = content h s @ xs \<and> (s' = None \<longleftrightarrow> s = None \<and> xs = [])"
  proof cases
    case 1
    with assms show ?thesis by (simp add: go_append_def)
  next
    case 2
    obtain w h1 where "go_alloc (grow 0) z xs h = (w, h1)" by fastforce
    with 2 assms go_alloc [OF this] show ?thesis by (auto simp: go_append_def)
  next
    case (3 w)
    then obtain x ys where "xs = x # ys" by (cases xs) auto
    with 3 assms show ?thesis
      by (auto simp: go_append_def grows_def length_overwrite nth_list_update overwrite_def
          min_def take_drop add.commute)
  next
    case (4 w)
    obtain w' h1 where "go_alloc (grow (sl_cap w)) z (content h s @ xs) h = (w', h1)" by fastforce
    with 4 assms go_alloc [OF this] show ?thesis
      by (auto simp: go_append_def intro: grows_mono split: prod.splits)
  qed
  then show "grows (arrays s) h h'" "in_heap h' s'" "arrays s' \<subseteq> arrays s \<union> {length h..}"
    "content h' s' = content h s @ xs" "s' = None \<longleftrightarrow> s = None \<and> xs = []" by blast+
qed

lemma go_copy:
  assumes "go_copy grow z s h = (s', h')" "in_heap h s"
  shows "grows {} h h'" "in_heap h' s'" "arrays s' \<subseteq> {length h..}" "content h' s' = content h s"
  using go_append_frame [OF assms(1) [unfolded go_copy_def]] by simp_all

lemma go_copy_literal:
  assumes "go_copy_literal grow z s h = (s', h')" "in_heap h s"
  shows "grows {} h h'" "in_heap h' s'" "arrays s' \<subseteq> {length h..}" "content h' s' = content h s" "s' \<noteq> None"
proof -
  have g: "grows {} h (h @ [[]])" by (auto simp: grows_def nth_append)
  note f = go_append_frame [OF assms(1) [unfolded go_copy_literal_def]]
  show "grows {} h h'" using grows_trans [OF g f(1)] by (auto intro: grows_mono)
  show "in_heap h' s'" "content h' s' = content h s" "s' \<noteq> None" using f by simp_all
  show "arrays s' \<subseteq> {length h..}" using f(3) by auto
qed

lemma go_set_frame:
  assumes "go_set s i x h = Some h'" "in_heap h s"
  shows "grows (arrays s) h h'"
  using assms by (auto simp: go_set_def grows_def nth_list_update split: option.splits if_splits)

section \<open>Sharing\<close>

text \<open>What code that holds slices may do with them: make, assign, append, and take a window of one.\<close>

inductive holder_step :: "'e heap \<Rightarrow> slice option list \<Rightarrow> 'e heap \<Rightarrow> slice option list \<Rightarrow> bool" where
  make: "go_alloc g z xs h = (s, h') \<Longrightarrow> holder_step h held h' (held @ [Some s])"
| assign: "s \<in> set held \<Longrightarrow> go_set s i x h = Some h' \<Longrightarrow> holder_step h held h' held"
| append: "s \<in> set held \<Longrightarrow> go_append grow z s xs h = (s', h') \<Longrightarrow> holder_step h held h' (held @ [s'])"
| window: "Some s \<in> set held \<Longrightarrow> i \<le> j \<Longrightarrow> j \<le> sl_cap s \<Longrightarrow>
    holder_step h held h (held @ [Some (s\<lparr>sl_off := sl_off s + i, sl_len := j - i, sl_cap := sl_cap s - i\<rparr>)])"

text \<open>The slices that are owned share no array with those others hold.\<close>

definition apart :: "'e heap \<Rightarrow> slice option list \<Rightarrow> slice option list \<Rightarrow> bool" where
  "apart h owned held \<longleftrightarrow> (\<forall>s\<in>set owned. in_heap h s \<and> (\<forall>t\<in>set held. arrays s \<inter> arrays t = {}))
     \<and> (\<forall>t\<in>set held. in_heap h t)"

definition held_arrays :: "slice option list \<Rightarrow> nat set" where
  "held_arrays held = \<Union> (arrays ` set held)"

lemma holder_step_frame:
  assumes "holder_step h held h' held'" "\<forall>t\<in>set held. in_heap h t"
  shows "grows (held_arrays held) h h' \<and> held_arrays held' \<subseteq> held_arrays held \<union> {length h..}
    \<and> (\<forall>t\<in>set held'. in_heap h' t)"
  using assms
proof cases
  case (make g z xs s)
  with go_alloc [OF make(2)] assms(2) show ?thesis
    by (auto simp: held_arrays_def intro: grows_mono grows_in_heap)
next
  case (assign s i x)
  with assms(2) have "in_heap h s" by auto
  from go_set_frame [OF assign(3) this] assign(1,2) assms(2) show ?thesis
    by (auto simp: held_arrays_def intro: grows_mono grows_in_heap)
next
  case (append s grow z xs s')
  with assms(2) have "in_heap h s" by auto
  from go_append_frame [OF append(3) this] append(1,2) assms(2) show ?thesis
    by (auto simp: held_arrays_def intro: grows_mono grows_in_heap)
next
  case (window s i j)
  with assms(2) show ?thesis by (fastforce simp: held_arrays_def)
qed

lemma apart_holder:
  assumes "apart h owned held" "holder_step h held h' held'"
  shows "apart h' owned held'" "\<forall>s\<in>set owned. content h' s = content h s"
proof -
  have f: "grows (held_arrays held) h h'" "held_arrays held' \<subseteq> held_arrays held \<union> {length h..}"
    "\<forall>t\<in>set held'. in_heap h' t"
    using holder_step_frame [OF assms(2)] assms(1) by (auto simp: apart_def)
  have own: "in_heap h s \<and> arrays s \<inter> held_arrays held = {} \<and> arrays s \<subseteq> {..<length h}" if "s \<in> set owned" for s
    using assms(1) that in_heap_arrays [of h s] by (auto simp: apart_def held_arrays_def)
  show "\<forall>s\<in>set owned. content h' s = content h s"
    using own grows_content [OF f(1)] by blast
  have "arrays s \<inter> arrays t = {}" if "s \<in> set owned" "t \<in> set held'" for s t
    using own [OF that(1)] f(2) that(2) by (fastforce simp: held_arrays_def)
  then show "apart h' owned held'"
    using own f(3) grows_in_heap [OF f(1)] by (auto simp: apart_def)
qed

text \<open>Fresh slices keep the two sides apart, whichever side they go to.\<close>

lemma apart_fresh:
  assumes "apart h owned held" "grows {} h h'" "\<forall>s\<in>set new. in_heap h' s \<and> arrays s \<subseteq> {length h..}"
  shows "apart h' (owned @ new) held" "apart h' owned (held @ new)" "\<forall>s\<in>set owned. content h' s = content h s"
proof -
  have old: "in_heap h' s \<and> arrays s \<subseteq> {..<length h}" if "s \<in> set owned \<or> s \<in> set held" for s
    using assms(1) that grows_in_heap [OF assms(2)] in_heap_arrays [of h s] by (auto simp: apart_def)
  have "arrays s \<inter> arrays t = {}" if "s \<in> set owned \<or> s \<in> set held" "t \<in> set new" for s t
    using old [OF that(1)] assms(3) that(2) by fastforce
  then show "apart h' (owned @ new) held" "apart h' owned (held @ new)"
    using assms(1,3) old by (auto simp: apart_def Int_commute) blast+
  show "\<forall>s\<in>set owned. content h' s = content h s"
    using assms(1) grows_content [OF assms(2)] by (auto simp: apart_def)
qed

text \<open>
  The danger: two appends to one slice with spare capacity write to the same place, and the result of the
  first shows what the second appended.
\<close>

lemma append_shares_spare_capacity:
  assumes "in_heap h (Some s)" "sl_len s < sl_cap s"
    "go_append grow z (Some s) [x] h = (a, h1)" "go_append grow z (Some s) [y] h1 = (b, h2)"
  shows "content h1 a = content h (Some s) @ [x]" "content h2 a = content h (Some s) @ [y]" "a = b"
proof -
  note f = go_append_frame [OF assms(3,1)]
  show "content h1 a = content h (Some s) @ [x]" by (rule f(4))
  show eq: "a = b" using assms(2-4) by (simp add: go_append_def split: if_splits)
  have "content h1 (Some s) = content h (Some s)"
    using assms(1-3) by (auto simp: go_append_def overwrite_def min_def drop_take)
  with go_append_frame [OF assms(4) grows_in_heap [OF f(1) assms(1)]] eq
  show "content h2 a = content h (Some s) @ [y]" by simp
qed

end
