(* ===== verification/CommandSharing.thy ===== *)
theory CommandSharing
  imports Slices Command
begin

text \<open>
  The command builder with its slices (\<^verbatim>\<open>command.go\<close>): \<^verbatim>\<open>clone\<close> copies every slice of a command, and each
  \<^verbatim>\<open>WithX\<close> works on the clone, so a command never changes once it is built, whatever is derived from it
  and whatever its callers and runners do with the slices they hold.  This is what allows the other
  theories to treat a command as a value: \<open>cmd_at\<close> reads the value off the store, and every builder is
  shown to be the operation of \<open>Command\<close> on these values.
\<close>

section \<open>Commands in the store\<close>

record cstore =
  cs_str :: "bytes heap"
  cs_int :: "int heap"
  cs_oct :: "char heap"

record growths =
  gw_str :: growth
  gw_int :: growth
  gw_oct :: growth

text \<open>A command by reference: its slices, and its other fields, which are copied by value.\<close>

record 'w cmdref =
  cr_args :: "slice option"
  cr_env :: "slice option"
  cr_okCodes :: "slice option"
  cr_stdinBytes :: "slice option"
  cr_rest :: "'w cmd"

definition cmd_at :: "cstore \<Rightarrow> 'w cmdref \<Rightarrow> 'w cmd" where
  "cmd_at st c = (cr_rest c)
     \<lparr>cm_args := content (cs_str st) (cr_args c),
      cm_env := map_option (\<lambda>s. content (cs_str st) (Some s)) (cr_env c),
      cm_okCodes := content (cs_int st) (cr_okCodes c),
      cm_stdinBytes := content (cs_oct st) (cr_stdinBytes c)\<rparr>"

definition on_str :: "(bytes heap \<Rightarrow> 'r \<times> bytes heap) \<Rightarrow> (cstore, 'r) state" where
  "on_str f = State (\<lambda>st. case f (cs_str st) of (r, h) \<Rightarrow> (r, st\<lparr>cs_str := h\<rparr>))"

definition on_int :: "(int heap \<Rightarrow> 'r \<times> int heap) \<Rightarrow> (cstore, 'r) state" where
  "on_int f = State (\<lambda>st. case f (cs_int st) of (r, h) \<Rightarrow> (r, st\<lparr>cs_int := h\<rparr>))"

definition on_oct :: "(char heap \<Rightarrow> 'r \<times> char heap) \<Rightarrow> (cstore, 'r) state" where
  "on_oct f = State (\<lambda>st. case f (cs_oct st) of (r, h) \<Rightarrow> (r, st\<lparr>cs_oct := h\<rparr>))"

section \<open>The builders\<close>

definition cloneEnv :: "growth \<Rightarrow> slice option \<Rightarrow> bytes heap \<Rightarrow> slice option \<times> bytes heap" where
  "cloneEnv gw env h = (if env = None then (None, h) else go_copy_literal gw [] env h)"

definition clone :: "growths \<Rightarrow> 'w cmdref \<Rightarrow> (cstore, 'w cmdref) state" where
  "clone gw c = do {
     as \<leftarrow> on_str (go_copy (gw_str gw) [] (cr_args c));
     env \<leftarrow> on_str (cloneEnv (gw_str gw) (cr_env c));
     codes \<leftarrow> on_int (go_copy (gw_int gw) 0 (cr_okCodes c));
     bs \<leftarrow> on_oct (go_copy (gw_oct gw) (CHR 0x00) (cr_stdinBytes c));
     State_Monad.return (c\<lparr>cr_args := as, cr_env := env, cr_okCodes := codes, cr_stdinBytes := bs\<rparr>)
   }"

text \<open>\<^verbatim>\<open>Command\<close>; the variadic arguments are a slice of the caller.\<close>

definition ref_Command :: "growths \<Rightarrow> bytes \<Rightarrow> slice option \<Rightarrow> (cstore, 'w cmdref) state" where
  "ref_Command gw program args = do {
     as \<leftarrow> on_str (go_copy (gw_str gw) [] args);
     State_Monad.return \<lparr>cr_args = as, cr_env = None, cr_okCodes = None, cr_stdinBytes = None,
       cr_rest = mk_Command program []\<rparr>
   }"

definition ref_WithArgs :: "growths \<Rightarrow> slice option \<Rightarrow> 'w cmdref \<Rightarrow> (cstore, 'w cmdref) state" where
  "ref_WithArgs gw args c = do {
     cp \<leftarrow> clone gw c;
     as \<leftarrow> on_str (\<lambda>h. go_append (gw_str gw) [] (cr_args cp) (content h args) h);
     State_Monad.return (cp\<lparr>cr_args := as\<rparr>)
   }"

definition ref_WithEnv :: "growths \<Rightarrow> slice option \<Rightarrow> 'w cmdref \<Rightarrow> (cstore, 'w cmdref) state" where
  "ref_WithEnv gw env c = do {
     cp \<leftarrow> clone gw c;
     e \<leftarrow> on_str (go_copy_literal (gw_str gw) [] env);
     State_Monad.return (cp\<lparr>cr_env := e\<rparr>)
   }"

text \<open>\<^verbatim>\<open>os.Environ\<close> returns a fresh slice; \<open>environ\<close> is what it holds.\<close>

definition ref_AppendEnv :: "growths \<Rightarrow> bytes list \<Rightarrow> slice option \<Rightarrow> 'w cmdref \<Rightarrow> (cstore, 'w cmdref) state" where
  "ref_AppendEnv gw environ env c = do {
     cp \<leftarrow> clone gw c;
     e \<leftarrow> on_str (\<lambda>h. case cr_env cp of
         None \<Rightarrow> (case go_alloc (gw_str gw 0) [] environ h of
             (s, h1) \<Rightarrow> go_append (gw_str gw) [] (Some s) (content h1 env) h1)
       | Some s \<Rightarrow> go_append (gw_str gw) [] (Some s) (content h env) h);
     State_Monad.return (cp\<lparr>cr_env := e\<rparr>)
   }"

definition ref_WithOkCodes :: "growths \<Rightarrow> slice option \<Rightarrow> 'w cmdref \<Rightarrow> (cstore, 'w cmdref) state" where
  "ref_WithOkCodes gw codes c = do {
     cp \<leftarrow> clone gw c;
     k \<leftarrow> on_int (go_copy (gw_int gw) 0 codes);
     State_Monad.return (cp\<lparr>cr_okCodes := k\<rparr>)
   }"

definition ref_WithStdin :: "growths \<Rightarrow> nat option \<Rightarrow> 'w cmdref \<Rightarrow> (cstore, 'w cmdref) state" where
  "ref_WithStdin gw r c = do {
     cp \<leftarrow> clone gw c;
     State_Monad.return (cp\<lparr>cr_stdinBytes := None, cr_rest := (cr_rest cp)\<lparr>cm_stdin := r, cm_hasStdinBytes := False\<rparr>\<rparr>)
   }"

definition ref_WithStdinBytes :: "growths \<Rightarrow> slice option \<Rightarrow> 'w cmdref \<Rightarrow> (cstore, 'w cmdref) state" where
  "ref_WithStdinBytes gw b c = do {
     cp \<leftarrow> clone gw c;
     bs \<leftarrow> on_oct (go_copy (gw_oct gw) (CHR 0x00) b);
     State_Monad.return (cp\<lparr>cr_stdinBytes := bs,
       cr_rest := (cr_rest cp)\<lparr>cm_hasStdinBytes := True, cm_stdin := None\<rparr>\<rparr>)
   }"

text \<open>The builders that set fields without slices differ in the assignment only.\<close>

definition ref_set :: "growths \<Rightarrow> ('w cmd \<Rightarrow> 'w cmd) \<Rightarrow> 'w cmdref \<Rightarrow> (cstore, 'w cmdref) state" where
  "ref_set gw f c = do {
     cp \<leftarrow> clone gw c;
     State_Monad.return (cp\<lparr>cr_rest := f (cr_rest cp)\<rparr>)
   }"

datatype 'w builder =
    BArgs "slice option"
  | BDir bytes
  | BEnv "slice option"
  | BAppendEnv "bytes list" "slice option"
  | BTimeout duration
  | BOkCodes "slice option"
  | BRunner "'w runner option"
  | BStdin "nat option"
  | BStdinBytes "slice option"
  | BLogger runLog
  | BUncheckedInPipe
  | BRetry int duration "(goerr \<Rightarrow> bool) option"

fun ref_apply :: "growths \<Rightarrow> 'w builder \<Rightarrow> 'w cmdref \<Rightarrow> (cstore, 'w cmdref) state" where
  "ref_apply gw (BArgs as) c = ref_WithArgs gw as c"
| "ref_apply gw (BDir d) c = ref_set gw (WithDir d) c"
| "ref_apply gw (BEnv es) c = ref_WithEnv gw es c"
| "ref_apply gw (BAppendEnv environ es) c = ref_AppendEnv gw environ es c"
| "ref_apply gw (BTimeout d) c = ref_set gw (WithTimeout d) c"
| "ref_apply gw (BOkCodes k) c = ref_WithOkCodes gw k c"
| "ref_apply gw (BRunner r) c = ref_set gw (WithRunner r) c"
| "ref_apply gw (BStdin r) c = ref_WithStdin gw r c"
| "ref_apply gw (BStdinBytes b) c = ref_WithStdinBytes gw b c"
| "ref_apply gw (BLogger l) c = ref_set gw (WithLogger l) c"
| "ref_apply gw BUncheckedInPipe c = ref_set gw WithUncheckedInPipe c"
| "ref_apply gw (BRetry n d f) c = ref_set gw (WithRetry n d f) c"

text \<open>The same operation on values, its slice arguments read when it is applied.\<close>

fun val_apply :: "cstore \<Rightarrow> 'w builder \<Rightarrow> 'w cmd \<Rightarrow> 'w cmd" where
  "val_apply st (BArgs as) c = WithArgs (content (cs_str st) as) c"
| "val_apply st (BDir d) c = WithDir d c"
| "val_apply st (BEnv es) c = WithEnv (content (cs_str st) es) c"
| "val_apply st (BAppendEnv environ es) c = AppendEnv environ (content (cs_str st) es) c"
| "val_apply st (BTimeout d) c = WithTimeout d c"
| "val_apply st (BOkCodes k) c = WithOkCodes (content (cs_int st) k) c"
| "val_apply st (BRunner r) c = WithRunner r c"
| "val_apply st (BStdin r) c = WithStdin r c"
| "val_apply st (BStdinBytes b) c = WithStdinBytes (content (cs_oct st) b) c"
| "val_apply st (BLogger l) c = WithLogger l c"
| "val_apply st BUncheckedInPipe c = WithUncheckedInPipe c"
| "val_apply st (BRetry n d f) c = WithRetry n d f c"

text \<open>\<^verbatim>\<open>invocation\<close>: the slices a runner is given.\<close>

record invref =
  ir_args :: "slice option"
  ir_env :: "slice option"
  ir_okCodes :: "slice option"

definition ref_invocation :: "growths \<Rightarrow> 'w cmdref \<Rightarrow> (cstore, invref) state" where
  "ref_invocation gw c = do {
     as \<leftarrow> on_str (go_copy (gw_str gw) [] (cr_args c));
     env \<leftarrow> on_str (cloneEnv (gw_str gw) (cr_env c));
     codes \<leftarrow> on_int (go_copy (gw_int gw) 0 (cr_okCodes c));
     State_Monad.return \<lparr>ir_args = as, ir_env = env, ir_okCodes = codes\<rparr>
   }"

text \<open>\<^verbatim>\<open>cloneInvocation\<close> of the recording runner (\<^verbatim>\<open>processkittest/doubles.go\<close>), before it keeps a call.\<close>

definition cloneInvocation :: "growths \<Rightarrow> invref \<Rightarrow> (cstore, invref) state" where
  "cloneInvocation gw r = do {
     as \<leftarrow> on_str (go_copy (gw_str gw) [] (ir_args r));
     env \<leftarrow> (if ir_env r \<noteq> None then on_str (go_copy_literal (gw_str gw) [] (ir_env r))
             else State_Monad.return None);
     codes \<leftarrow> on_int (go_copy (gw_int gw) 0 (ir_okCodes r));
     State_Monad.return \<lparr>ir_args = as, ir_env = env, ir_okCodes = codes\<rparr>
   }"

section \<open>What a builder does to the store\<close>

definition store_grows :: "cstore \<Rightarrow> cstore \<Rightarrow> bool" where
  "store_grows st st' \<longleftrightarrow> grows {} (cs_str st) (cs_str st') \<and> grows {} (cs_int st) (cs_int st')
     \<and> grows {} (cs_oct st) (cs_oct st')"

definition refs_in :: "cstore \<Rightarrow> 'w cmdref \<Rightarrow> bool" where
  "refs_in st c \<longleftrightarrow> in_heap (cs_str st) (cr_args c) \<and> in_heap (cs_str st) (cr_env c)
     \<and> in_heap (cs_int st) (cr_okCodes c) \<and> in_heap (cs_oct st) (cr_stdinBytes c)"

text \<open>The slices of a command in the store \<open>st'\<close> are new since \<open>st\<close>, and its two string slices are apart.\<close>

definition fresh_refs :: "cstore \<Rightarrow> cstore \<Rightarrow> 'w cmdref \<Rightarrow> bool" where
  "fresh_refs st st' c \<longleftrightarrow> refs_in st' c
     \<and> arrays (cr_args c) \<subseteq> {length (cs_str st)..} \<and> arrays (cr_env c) \<subseteq> {length (cs_str st)..}
     \<and> arrays (cr_okCodes c) \<subseteq> {length (cs_int st)..} \<and> arrays (cr_stdinBytes c) \<subseteq> {length (cs_oct st)..}
     \<and> arrays (cr_args c) \<inter> arrays (cr_env c) = {}"

lemma cloneEnv_frame:
  assumes "cloneEnv gw env h = (e, h')" "in_heap h env"
  shows "grows {} h h'" "in_heap h' e" "arrays e \<subseteq> {length h..}" "content h' e = content h env"
    "e = None \<longleftrightarrow> env = None"
  using assms go_copy_literal [of gw "[]" env h e h'] by (auto simp: cloneEnv_def split: if_splits)

lemma grows_length: "grows A h h' \<Longrightarrow> length h \<le> length h'"
  by (simp add: grows_def)

lemma grows_fresh_trans: "grows {} h h1 \<Longrightarrow> grows A h1 h2 \<Longrightarrow> A \<subseteq> {length h..} \<Longrightarrow> grows {} h h2"
  by (drule (1) grows_trans) (erule grows_mono, auto)

lemma clone_spec:
  assumes "run_state (clone gw c) st = (c', st')" "refs_in st c"
  shows "store_grows st st'" "fresh_refs st st' c'" "cmd_at st' c' = cmd_at st c" "cr_rest c' = cr_rest c"
    "cr_env c' = None \<longleftrightarrow> cr_env c = None"
proof -
  obtain a h1 where a: "go_copy (gw_str gw) [] (cr_args c) (cs_str st) = (a, h1)" by fastforce
  obtain e h2 where e: "cloneEnv (gw_str gw) (cr_env c) h1 = (e, h2)" by fastforce
  obtain k i1 where k: "go_copy (gw_int gw) 0 (cr_okCodes c) (cs_int st) = (k, i1)" by fastforce
  obtain b o1 where b: "go_copy (gw_oct gw) (CHR 0x00) (cr_stdinBytes c) (cs_oct st) = (b, o1)" by fastforce
  have c': "c' = c\<lparr>cr_args := a, cr_env := e, cr_okCodes := k, cr_stdinBytes := b\<rparr>"
    "st' = \<lparr>cs_str = h2, cs_int = i1, cs_oct = o1\<rparr>"
    using assms(1) by (auto simp: clone_def on_str_def on_int_def on_oct_def a e k b)
  have ins: "in_heap (cs_str st) (cr_args c)" "in_heap (cs_str st) (cr_env c)"
    "in_heap (cs_int st) (cr_okCodes c)" "in_heap (cs_oct st) (cr_stdinBytes c)"
    using assms(2) by (simp_all add: refs_in_def)
  note fa = go_copy [OF a ins(1)]
  note fe = cloneEnv_frame [OF e grows_in_heap [OF fa(1) ins(2)]]
  note fk = go_copy [OF k ins(3)] note fb = go_copy [OF b ins(4)]
  have sep: "arrays a \<inter> arrays e = {}" using in_heap_arrays [OF fa(2)] fe(3) by fastforce
  show "store_grows st st'" using fa(1) fe(1) fk(1) fb(1) grows_trans [OF fa(1) fe(1)] by (simp add: c' store_grows_def)
  show "fresh_refs st st' c'"
    using fa fe fk fb sep grows_in_heap [OF fe(1) fa(2)] grows_length [OF fa(1)]
    by (auto simp: c' fresh_refs_def refs_in_def)
  have "content h2 a = content (cs_str st) (cr_args c)"
    using grows_content [OF fe(1) fa(2)] fa(4) by simp
  moreover have "content h2 e = content (cs_str st) (cr_env c)"
    using fe(4) grows_content [OF fa(1) ins(2)] by simp
  ultimately show "cmd_at st' c' = cmd_at st c"
    using fe(5) fk(4) fb(4) by (auto simp: c' cmd_at_def map_option_case split: option.split)
  show "cr_rest c' = cr_rest c" "cr_env c' = None \<longleftrightarrow> cr_env c = None" using fe(5) by (simp_all add: c')
qed

fun args_in :: "cstore \<Rightarrow> 'w builder \<Rightarrow> bool" where
  "args_in st (BArgs as) = in_heap (cs_str st) as"
| "args_in st (BEnv es) = in_heap (cs_str st) es"
| "args_in st (BAppendEnv environ es) = in_heap (cs_str st) es"
| "args_in st (BOkCodes k) = in_heap (cs_int st) k"
| "args_in st (BStdinBytes b) = in_heap (cs_oct st) b"
| "args_in st _ = True"

text \<open>A builder allocates, and the command it answers is the value of the operation.\<close>

definition builds :: "cstore \<Rightarrow> 'w cmd \<Rightarrow> 'w cmdref \<times> cstore \<Rightarrow> bool" where
  "builds st v r \<longleftrightarrow> store_grows st (snd r) \<and> fresh_refs st (snd r) (fst r) \<and> cmd_at (snd r) (fst r) = v"

text \<open>The clone, and a field without slices set.\<close>

lemma builds_set:
  assumes "refs_in st c" "\<And>v g i j k. f (v\<lparr>cm_args := g, cm_env := i, cm_okCodes := j, cm_stdinBytes := k\<rparr>) 
    = (f v)\<lparr>cm_args := g, cm_env := i, cm_okCodes := j, cm_stdinBytes := k\<rparr>"
  shows "builds st (f (cmd_at st c)) (run_state (ref_set gw f c) st)"
proof -
  obtain cp st1 where cp: "run_state (clone gw c) st = (cp, st1)" by fastforce
  note s = clone_spec [OF cp assms(1)]
  show ?thesis
    using s(1,2) by (simp add: builds_def ref_set_def cp s(3) [symmetric])
      (simp add: cmd_at_def assms(2) fresh_refs_def refs_in_def)
qed

text \<open>
  The clone, and one of its slices replaced by the result of an operation on its heap that leaves the
  other slice of that heap alone.
\<close>

lemma builds_string_slice:
  assumes "refs_in st c" "run_state (clone gw c) st = (cp, st1)"
    "F (cs_str st1) = (s, h2)" "grows A (cs_str st1) h2" "A \<subseteq> {length (cs_str st)..}"
    "in_heap h2 s" "arrays s \<subseteq> {length (cs_str st)..}"
  shows "A \<inter> arrays (cr_env cp) = {} \<Longrightarrow> arrays s \<inter> arrays (cr_env cp) = {} \<Longrightarrow>
      builds st ((cmd_at st c)\<lparr>cm_args := content h2 s\<rparr>)
        (run_state (do { a \<leftarrow> on_str F; State_Monad.return (cp\<lparr>cr_args := a\<rparr>) }) st1)"
    and "A \<inter> arrays (cr_args cp) = {} \<Longrightarrow> arrays (cr_args cp) \<inter> arrays s = {} \<Longrightarrow> s \<noteq> None \<Longrightarrow>
      builds st ((cmd_at st c)\<lparr>cm_env := Some (content h2 s)\<rparr>)
        (run_state (do { e \<leftarrow> on_str F; State_Monad.return (cp\<lparr>cr_env := e\<rparr>) }) st1)"
proof -
  note cl = clone_spec [OF assms(2,1)]
  have ins: "in_heap (cs_str st1) (cr_args cp)" "in_heap (cs_str st1) (cr_env cp)"
    "in_heap (cs_int st1) (cr_okCodes cp)" "in_heap (cs_oct st1) (cr_stdinBytes cp)"
    using cl(2) by (simp_all add: fresh_refs_def refs_in_def)
  have g: "store_grows st (st1\<lparr>cs_str := h2\<rparr>)"
    using cl(1) grows_fresh_trans [OF _ assms(4,5)] by (simp add: store_grows_def)
  { assume a: "A \<inter> arrays (cr_env cp) = {}" "arrays s \<inter> arrays (cr_env cp) = {}"
    have "content h2 (cr_env cp) = content (cs_str st1) (cr_env cp)"
      using grows_content [OF assms(4) ins(2)] a(1) by blast
    then have "cmd_at (st1\<lparr>cs_str := h2\<rparr>) (cp\<lparr>cr_args := s\<rparr>) = (cmd_at st1 cp)\<lparr>cm_args := content h2 s\<rparr>"
      by (auto simp: cmd_at_def map_option_case split: option.split)
    then show "builds st ((cmd_at st c)\<lparr>cm_args := content h2 s\<rparr>)
        (run_state (do { a \<leftarrow> on_str F; State_Monad.return (cp\<lparr>cr_args := a\<rparr>) }) st1)"
      using g cl(2,3) ins assms(6,7) a(2) grows_in_heap [OF assms(4) ins(2)]
      by (simp add: builds_def on_str_def assms(3) fresh_refs_def refs_in_def) }
  { assume a: "A \<inter> arrays (cr_args cp) = {}" "arrays (cr_args cp) \<inter> arrays s = {}" "s \<noteq> None"
    have "content h2 (cr_args cp) = content (cs_str st1) (cr_args cp)"
      using grows_content [OF assms(4) ins(1)] a(1) by blast
    then have "cmd_at (st1\<lparr>cs_str := h2\<rparr>) (cp\<lparr>cr_env := s\<rparr>) = (cmd_at st1 cp)\<lparr>cm_env := Some (content h2 s)\<rparr>"
      using a(3) by (auto simp: cmd_at_def)
    then show "builds st ((cmd_at st c)\<lparr>cm_env := Some (content h2 s)\<rparr>)
        (run_state (do { e \<leftarrow> on_str F; State_Monad.return (cp\<lparr>cr_env := e\<rparr>) }) st1)"
      using g cl(2,3) ins assms(6,7) a(2) grows_in_heap [OF assms(4) ins(1)]
      by (simp add: builds_def on_str_def assms(3) fresh_refs_def refs_in_def) }
qed

lemma fresh_refsD:
  assumes "fresh_refs st st' c"
  shows "in_heap (cs_str st') (cr_args c)" "in_heap (cs_str st') (cr_env c)" "in_heap (cs_int st') (cr_okCodes c)"
    "in_heap (cs_oct st') (cr_stdinBytes c)" "arrays (cr_args c) \<subseteq> {length (cs_str st)..}"
    "arrays (cr_env c) \<subseteq> {length (cs_str st)..}" "arrays (cr_args c) \<inter> arrays (cr_env c) = {}"
  using assms by (simp_all add: fresh_refs_def refs_in_def)

lemma store_growsD:
  assumes "store_grows st st'"
  shows "grows {} (cs_str st) (cs_str st')" "grows {} (cs_int st) (cs_int st')" "grows {} (cs_oct st) (cs_oct st')"
  using assms by (simp_all add: store_grows_def)

lemma new_apart: "arrays s \<subseteq> {length h..} \<Longrightarrow> in_heap h t \<Longrightarrow> arrays s \<inter> arrays t = {}"
  using in_heap_arrays [of h t] by fastforce

lemma builds_WithArgs:
  assumes "refs_in st c" "in_heap (cs_str st) args"
  shows "builds st (WithArgs (content (cs_str st) args) (cmd_at st c)) (run_state (ref_WithArgs gw args c) st)"
proof -
  obtain cp st1 where cp: "run_state (clone gw c) st = (cp, st1)" by fastforce
  note cl = clone_spec [OF cp assms(1)] note fr = fresh_refsD [OF cl(2)]
  let ?F = "\<lambda>h. go_append (gw_str gw) [] (cr_args cp) (content h args) h"
  obtain s h2 where F: "?F (cs_str st1) = (s, h2)" by fastforce
  note f = go_append_frame [OF F fr(1)]
  have n: "{length (cs_str st1)..} \<inter> arrays (cr_env cp) = {}" using in_heap_arrays [OF fr(2)] by fastforce
  have "content (cs_str st1) args = content (cs_str st) args"
    using grows_content [OF store_growsD(1) [OF cl(1)] assms(2)] by simp
  moreover have "cm_args (cmd_at st c) = content (cs_str st1) (cr_args cp)"
    unfolding cl(3) [symmetric] by (simp add: cmd_at_def)
  ultimately have "content h2 s = cm_args (cmd_at st c) @ content (cs_str st) args" using f(4) by simp
  moreover have "builds st ((cmd_at st c)\<lparr>cm_args := content h2 s\<rparr>)
      (run_state (do { a \<leftarrow> on_str ?F; State_Monad.return (cp\<lparr>cr_args := a\<rparr>) }) st1)"
    by (rule builds_string_slice(1) [where F = ?F, OF assms(1) cp F f(1) fr(5) f(2)])
      (use f(3) fr(5,7) n grows_length [OF store_growsD(1) [OF cl(1)]] in \<open>fastforce+\<close>)
  ultimately show ?thesis by (simp add: ref_WithArgs_def cp WithArgs_def)
qed

lemma builds_WithEnv:
  assumes "refs_in st c" "in_heap (cs_str st) env"
  shows "builds st (WithEnv (content (cs_str st) env) (cmd_at st c)) (run_state (ref_WithEnv gw env c) st)"
proof -
  obtain cp st1 where cp: "run_state (clone gw c) st = (cp, st1)" by fastforce
  note cl = clone_spec [OF cp assms(1)] note fr = fresh_refsD [OF cl(2)]
  let ?F = "go_copy_literal (gw_str gw) [] env"
  obtain s h2 where F: "?F (cs_str st1) = (s, h2)" by fastforce
  note f = go_copy_literal [OF F grows_in_heap [OF store_growsD(1) [OF cl(1)] assms(2)]]
  have "content h2 s = content (cs_str st) env"
    using f(4) grows_content [OF store_growsD(1) [OF cl(1)] assms(2)] by simp
  moreover have "builds st ((cmd_at st c)\<lparr>cm_env := Some (content h2 s)\<rparr>)
      (run_state (do { e \<leftarrow> on_str ?F; State_Monad.return (cp\<lparr>cr_env := e\<rparr>) }) st1)"
    by (rule builds_string_slice(2) [where F = ?F, OF assms(1) cp F f(1) _ f(2)])
      (use f(3,5) new_apart [OF f(3) fr(1)] grows_length [OF store_growsD(1) [OF cl(1)]] in \<open>fastforce+\<close>)
  ultimately show ?thesis by (simp add: ref_WithEnv_def cp WithEnv_def)
qed

lemma builds_AppendEnv:
  assumes "refs_in st c" "in_heap (cs_str st) env"
  shows "builds st (AppendEnv environ (content (cs_str st) env) (cmd_at st c))
    (run_state (ref_AppendEnv gw environ env c) st)"
proof -
  obtain cp st1 where cp: "run_state (clone gw c) st = (cp, st1)" by fastforce
  note cl = clone_spec [OF cp assms(1)] note fr = fresh_refsD [OF cl(2)]
  let ?F = "\<lambda>h. case cr_env cp of
         None \<Rightarrow> (case go_alloc (gw_str gw 0) [] environ h of
             (s, h1) \<Rightarrow> go_append (gw_str gw) [] (Some s) (content h1 env) h1)
       | Some s \<Rightarrow> go_append (gw_str gw) [] (Some s) (content h env) h"
  obtain s h2 where F: "?F (cs_str st1) = (s, h2)" by fastforce
  note env1 = grows_in_heap [OF store_growsD(1) [OF cl(1)] assms(2)]
  have same: "content (cs_str st1) env = content (cs_str st) env"
    using grows_content [OF store_growsD(1) [OF cl(1)] assms(2)] by simp
  have len: "length (cs_str st) \<le> length (cs_str st1)" using grows_length [OF store_growsD(1) [OF cl(1)]] .
  show ?thesis
  proof (cases "cr_env cp")
    case None
    then have e: "cm_env (cmd_at st c) = None" using cl(5) by (simp add: cmd_at_def)
    obtain s0 h1 where al: "go_alloc (gw_str gw 0) [] environ (cs_str st1) = (s0, h1)" by fastforce
    note fa = go_alloc [OF al]
    have F': "go_append (gw_str gw) [] (Some s0) (content h1 env) h1 = (s, h2)" using F None al by simp
    note f = go_append_frame [OF F' fa(2)]
    have g: "grows {} (cs_str st1) h2" by (rule grows_fresh_trans [OF fa(1) f(1)]) (simp only: fa(3), simp)
    have new: "arrays s \<subseteq> {length (cs_str st1)..}" using f(3) fa(3) grows_length [OF fa(1)] by fastforce
    have "content h2 s = environ @ content (cs_str st) env"
      using f(4) fa(4) grows_content [OF fa(1) env1] same by simp
    moreover have "builds st ((cmd_at st c)\<lparr>cm_env := Some (content h2 s)\<rparr>)
        (run_state (do { e \<leftarrow> on_str ?F; State_Monad.return (cp\<lparr>cr_env := e\<rparr>) }) st1)"
      by (rule builds_string_slice(2) [where F = ?F, OF assms(1) cp F g _ f(2)])
        (use f(5) new new_apart [OF new fr(1)] len in \<open>fastforce+\<close>)
    ultimately show ?thesis by (simp add: ref_AppendEnv_def cp AppendEnv_def e)
  next
    case (Some w)
    then have F': "go_append (gw_str gw) [] (Some w) (content (cs_str st1) env) (cs_str st1) = (s, h2)"
      and w: "in_heap (cs_str st1) (Some w)" using F fr(2) by simp_all
    have e: "cm_env (cmd_at st c) = Some (content (cs_str st1) (Some w))"
      unfolding cl(3) [symmetric] by (simp add: cmd_at_def Some)
    note f = go_append_frame [OF F' w]
    have n: "{length (cs_str st1)..} \<inter> arrays (cr_args cp) = {}" using in_heap_arrays [OF fr(1)] by fastforce
    have "content h2 s = content (cs_str st1) (Some w) @ content (cs_str st) env" using f(4) same by simp
    moreover have "builds st ((cmd_at st c)\<lparr>cm_env := Some (content h2 s)\<rparr>)
        (run_state (do { e \<leftarrow> on_str ?F; State_Monad.return (cp\<lparr>cr_env := e\<rparr>) }) st1)"
      by (rule builds_string_slice(2) [where F = ?F, OF assms(1) cp F f(1) _ f(2)])
        (use f(3,5) fr(6,7) Some n len in \<open>fastforce+\<close>)
    ultimately show ?thesis by (simp add: ref_AppendEnv_def cp AppendEnv_def e)
  qed
qed

lemma builds_other:
  assumes "refs_in st c"
  shows "in_heap (cs_int st) k \<Longrightarrow>
      builds st (WithOkCodes (content (cs_int st) k) (cmd_at st c)) (run_state (ref_WithOkCodes gw k c) st)"
    and "builds st (WithStdin r (cmd_at st c)) (run_state (ref_WithStdin gw r c) st)"
    and "in_heap (cs_oct st) b \<Longrightarrow>
      builds st (WithStdinBytes (content (cs_oct st) b) (cmd_at st c)) (run_state (ref_WithStdinBytes gw b c) st)"
proof -
  obtain cp st1 where cp: "run_state (clone gw c) st = (cp, st1)" by fastforce
  note cl = clone_spec [OF cp assms] note fr = fresh_refsD [OF cl(2)] note gr = store_growsD [OF cl(1)]
  note eqs = builds_def fresh_refs_def refs_in_def store_grows_def
  show "builds st (WithStdin r (cmd_at st c)) (run_state (ref_WithStdin gw r c) st)"
    using cl(1,2) unfolding cl(3) [symmetric] by (simp add: eqs ref_WithStdin_def cp WithStdin_def cmd_at_def)
  { assume k: "in_heap (cs_int st) k"
    obtain s h2 where F: "go_copy (gw_int gw) 0 k (cs_int st1) = (s, h2)" by fastforce
    note f = go_copy [OF F grows_in_heap [OF gr(2) k]]
    have "content h2 s = content (cs_int st) k" using f(4) grows_content [OF gr(2) k] by simp
    moreover have "arrays s \<subseteq> {length (cs_int st)..}" using f(3) grows_length [OF gr(2)] by fastforce
    ultimately show "builds st (WithOkCodes (content (cs_int st) k) (cmd_at st c)) (run_state (ref_WithOkCodes gw k c) st)"
      using cl(1,2) f(1,2) grows_trans [OF gr(2) f(1)]
      unfolding cl(3) [symmetric]
      by (simp add: eqs ref_WithOkCodes_def cp on_int_def F WithOkCodes_def cmd_at_def) }
  { assume b: "in_heap (cs_oct st) b"
    obtain s h2 where F: "go_copy (gw_oct gw) (CHR 0x00) b (cs_oct st1) = (s, h2)" by fastforce
    note f = go_copy [OF F grows_in_heap [OF gr(3) b]]
    have "content h2 s = content (cs_oct st) b" using f(4) grows_content [OF gr(3) b] by simp
    moreover have "arrays s \<subseteq> {length (cs_oct st)..}" using f(3) grows_length [OF gr(3)] by fastforce
    ultimately show "builds st (WithStdinBytes (content (cs_oct st) b) (cmd_at st c)) (run_state (ref_WithStdinBytes gw b c) st)"
      using cl(1,2) f(1,2) grows_trans [OF gr(3) f(1)]
      unfolding cl(3) [symmetric]
      by (simp add: eqs ref_WithStdinBytes_def cp on_oct_def F WithStdinBytes_def cmd_at_def) }
qed

lemma builds_scalars:
  assumes "refs_in st c"
  shows "builds st (WithDir d (cmd_at st c)) (run_state (ref_set gw (WithDir d) c) st)"
    "builds st (WithTimeout t (cmd_at st c)) (run_state (ref_set gw (WithTimeout t) c) st)"
    "builds st (WithRunner r (cmd_at st c)) (run_state (ref_set gw (WithRunner r) c) st)"
    "builds st (WithLogger l (cmd_at st c)) (run_state (ref_set gw (WithLogger l) c) st)"
    "builds st (WithUncheckedInPipe (cmd_at st c)) (run_state (ref_set gw WithUncheckedInPipe c) st)"
    "builds st (WithRetry n t f (cmd_at st c)) (run_state (ref_set gw (WithRetry n t f) c) st)"
  by (rule builds_set [OF assms], simp add: WithDir_def WithTimeout_def WithRunner_def WithLogger_def
      WithUncheckedInPipe_def WithRetry_def)+

lemma ref_apply_builds:
  assumes "refs_in st c" "args_in st b"
  shows "builds st (val_apply st b (cmd_at st c)) (run_state (ref_apply gw b c) st)"
  using assms
  by (cases b) (auto intro: builds_WithArgs builds_WithEnv builds_AppendEnv builds_other builds_scalars)

lemma ref_Command_builds:
  assumes "in_heap (cs_str st) args"
  shows "builds st (mk_Command program (content (cs_str st) args)) (run_state (ref_Command gw program args) st)"
proof -
  obtain s h1 where F: "go_copy (gw_str gw) [] args (cs_str st) = (s, h1)" by fastforce
  note f = go_copy [OF F assms]
  show ?thesis
    using f by (simp add: ref_Command_def on_str_def F builds_def store_grows_def fresh_refs_def refs_in_def
        cmd_at_def mk_Command_def)
qed

lemma ref_invocation_fresh:
  assumes "run_state (ref_invocation gw c) st = (r, st')" "refs_in st c"
  shows "store_grows st st'" "in_heap (cs_str st') (ir_args r)" "in_heap (cs_str st') (ir_env r)"
    "in_heap (cs_int st') (ir_okCodes r)" "arrays (ir_args r) \<subseteq> {length (cs_str st)..}"
    "arrays (ir_env r) \<subseteq> {length (cs_str st)..}" "arrays (ir_okCodes r) \<subseteq> {length (cs_int st)..}"
    "content (cs_str st') (ir_args r) = inv_Args (cmd_invocation (cmd_at st c))"
    "map_option (\<lambda>s. content (cs_str st') (Some s)) (ir_env r) = inv_Env (cmd_invocation (cmd_at st c))"
    "content (cs_int st') (ir_okCodes r) = inv_OkCodes (cmd_invocation (cmd_at st c))"
proof -
  obtain b o1 where b: "go_copy (gw_oct gw) (CHR 0x00) (cr_stdinBytes c) (cs_oct st) = (b, o1)" by fastforce
  obtain cp st1 where cp: "run_state (clone gw c) st = (cp, st1)" by fastforce
  have r: "ir_args r = cr_args cp \<and> ir_env r = cr_env cp \<and> ir_okCodes r = cr_okCodes cp
      \<and> cs_str st' = cs_str st1 \<and> cs_int st' = cs_int st1 \<and> cs_oct st' = cs_oct st"
    using assms(1) cp by (auto simp: ref_invocation_def clone_def on_str_def on_int_def on_oct_def split: prod.splits)
  note cl = clone_spec [OF cp assms(2)]
  from cl(1) show "store_grows st st'" by (simp add: store_grows_def r)
  from cl(2) show "in_heap (cs_str st') (ir_args r)" "in_heap (cs_str st') (ir_env r)"
    "in_heap (cs_int st') (ir_okCodes r)" "arrays (ir_args r) \<subseteq> {length (cs_str st)..}"
    "arrays (ir_env r) \<subseteq> {length (cs_str st)..}" "arrays (ir_okCodes r) \<subseteq> {length (cs_int st)..}"
    by (simp_all add: fresh_refs_def refs_in_def r)
  show "content (cs_str st') (ir_args r) = inv_Args (cmd_invocation (cmd_at st c))"
    "map_option (\<lambda>s. content (cs_str st') (Some s)) (ir_env r) = inv_Env (cmd_invocation (cmd_at st c))"
    "content (cs_int st') (ir_okCodes r) = inv_OkCodes (cmd_invocation (cmd_at st c))"
    unfolding cl(3) [symmetric] by (simp_all add: cmd_invocation_def cmd_at_def r)
qed

lemma on_str_pure: "on_str (Pair x) = State_Monad.return x"
  by (simp add: on_str_def State_Monad.return_def)

lemma cloneEnv_cases: "cloneEnv gw None = Pair None" "env \<noteq> None \<Longrightarrow> cloneEnv gw env = go_copy_literal gw [] env"
  by (auto simp: cloneEnv_def fun_eq_iff)

text \<open>A recorded call shares nothing with the invocation it was made from.\<close>

lemma cloneInvocation_fresh:
  assumes "run_state (cloneInvocation gw r) st = (r', st')" "in_heap (cs_str st) (ir_args r)"
    "in_heap (cs_str st) (ir_env r)" "in_heap (cs_int st) (ir_okCodes r)"
  shows "store_grows st st'" "content (cs_str st') (ir_args r') = content (cs_str st) (ir_args r)"
    "content (cs_int st') (ir_okCodes r') = content (cs_int st) (ir_okCodes r)"
    "ir_env r' = None \<longleftrightarrow> ir_env r = None" "content (cs_str st') (ir_env r') = content (cs_str st) (ir_env r)"
    "arrays (ir_args r') \<subseteq> {length (cs_str st)..}" "arrays (ir_env r') \<subseteq> {length (cs_str st)..}"
    "arrays (ir_okCodes r') \<subseteq> {length (cs_int st)..}"
proof -
  let ?c = "\<lparr>cr_args = ir_args r, cr_env = ir_env r, cr_okCodes = ir_okCodes r, cr_stdinBytes = None,
    cr_rest = mk_Command [] []\<rparr> :: nat cmdref"
  have "cloneInvocation gw r = ref_invocation gw ?c"
    by (cases "ir_env r = None") (simp_all add: cloneInvocation_def ref_invocation_def cloneEnv_cases on_str_pure)
  then have run: "run_state (ref_invocation gw ?c) st = (r', st')" using assms(1) by simp
  have "refs_in st ?c" using assms(2-4) by (simp add: refs_in_def)
  note f = ref_invocation_fresh [OF run this]
  show "store_grows st st'" "arrays (ir_args r') \<subseteq> {length (cs_str st)..}" "arrays (ir_env r') \<subseteq> {length (cs_str st)..}"
    "arrays (ir_okCodes r') \<subseteq> {length (cs_int st)..}"
    "content (cs_str st') (ir_args r') = content (cs_str st) (ir_args r)"
    "content (cs_int st') (ir_okCodes r') = content (cs_int st) (ir_okCodes r)"
    using f by (simp_all add: cmd_invocation_def cmd_at_def)
  show "ir_env r' = None \<longleftrightarrow> ir_env r = None" "content (cs_str st') (ir_env r') = content (cs_str st) (ir_env r)"
    using f(9) by (cases "ir_env r"; cases "ir_env r'"; simp add: cmd_invocation_def cmd_at_def)+
qed

section \<open>Programs that build and run commands\<close>

text \<open>
  A program holds commands and slices of its own: those it made, passed as arguments, or got in the
  invocations its runners were given.  It may write to and append to any slice it holds at any time.
\<close>

record 'w program =
  pr_store :: cstore
  pr_cmds :: "'w cmdref list"
  pr_strs :: "slice option list"
  pr_ints :: "slice option list"
  pr_octs :: "slice option list"

fun args_held :: "'w program \<Rightarrow> 'w builder \<Rightarrow> bool" where
  "args_held p (BArgs as) = (as \<in> set (pr_strs p))"
| "args_held p (BEnv es) = (es \<in> set (pr_strs p))"
| "args_held p (BAppendEnv environ es) = (es \<in> set (pr_strs p))"
| "args_held p (BOkCodes k) = (k \<in> set (pr_ints p))"
| "args_held p (BStdinBytes b) = (b \<in> set (pr_octs p))"
| "args_held p _ = True"

inductive program_step :: "growths \<Rightarrow> 'w program \<Rightarrow> 'w program \<Rightarrow> bool" for gw where
  new: "args \<in> set (pr_strs p) \<Longrightarrow> run_state (ref_Command gw program args) (pr_store p) = (c, st) \<Longrightarrow>
    program_step gw p (p\<lparr>pr_store := st, pr_cmds := pr_cmds p @ [c]\<rparr>)"
| derive: "c \<in> set (pr_cmds p) \<Longrightarrow> args_held p b \<Longrightarrow> run_state (ref_apply gw b c) (pr_store p) = (c', st) \<Longrightarrow>
    program_step gw p (p\<lparr>pr_store := st, pr_cmds := pr_cmds p @ [c']\<rparr>)"
| invoke: "c \<in> set (pr_cmds p) \<Longrightarrow> run_state (ref_invocation gw c) (pr_store p) = (r, st) \<Longrightarrow>
    program_step gw p (p\<lparr>pr_store := st, pr_strs := pr_strs p @ [ir_args r, ir_env r],
      pr_ints := pr_ints p @ [ir_okCodes r]\<rparr>)"
| strs: "holder_step (cs_str (pr_store p)) (pr_strs p) h held \<Longrightarrow>
    program_step gw p (p\<lparr>pr_store := (pr_store p)\<lparr>cs_str := h\<rparr>, pr_strs := held\<rparr>)"
| ints: "holder_step (cs_int (pr_store p)) (pr_ints p) h held \<Longrightarrow>
    program_step gw p (p\<lparr>pr_store := (pr_store p)\<lparr>cs_int := h\<rparr>, pr_ints := held\<rparr>)"
| octs: "holder_step (cs_oct (pr_store p)) (pr_octs p) h held \<Longrightarrow>
    program_step gw p (p\<lparr>pr_store := (pr_store p)\<lparr>cs_oct := h\<rparr>, pr_octs := held\<rparr>)"

inductive_cases program_stepE: "program_step gw p p'"

text \<open>The invariant: no array of a command is reachable from a slice the program holds.\<close>

definition str_slices :: "'w cmdref list \<Rightarrow> slice option list" where
  "str_slices cs = concat (map (\<lambda>c. [cr_args c, cr_env c]) cs)"

definition sealed :: "'w program \<Rightarrow> bool" where
  "sealed p \<longleftrightarrow> apart (cs_str (pr_store p)) (str_slices (pr_cmds p)) (pr_strs p)
     \<and> apart (cs_int (pr_store p)) (map cr_okCodes (pr_cmds p)) (pr_ints p)
     \<and> apart (cs_oct (pr_store p)) (map cr_stdinBytes (pr_cmds p)) (pr_octs p)"

lemma str_slices_simps [simp]:
  "str_slices [] = []" "str_slices (c # cs) = cr_args c # cr_env c # str_slices cs"
  "str_slices (cs @ cs') = str_slices cs @ str_slices cs'"
  by (simp_all add: str_slices_def)

lemma set_str_slices: "set (str_slices cs) = cr_args ` set cs \<union> cr_env ` set cs"
  by (induction cs) auto

text \<open>A store in which the slices of a command show the same denotes the same command.\<close>

definition same_at :: "cstore \<Rightarrow> cstore \<Rightarrow> 'w cmdref list \<Rightarrow> bool" where
  "same_at st st' cs \<longleftrightarrow> (\<forall>s\<in>set (str_slices cs). content (cs_str st') s = content (cs_str st) s)
     \<and> (\<forall>s\<in>set (map cr_okCodes cs). content (cs_int st') s = content (cs_int st) s)
     \<and> (\<forall>s\<in>set (map cr_stdinBytes cs). content (cs_oct st') s = content (cs_oct st) s)"

lemma cmd_at_cong:
  assumes "same_at st st' cs" "c \<in> set cs"
  shows "cmd_at st' c = cmd_at st c"
proof -
  have "content (cs_str st') (cr_args c) = content (cs_str st) (cr_args c)"
    "content (cs_str st') (cr_env c) = content (cs_str st) (cr_env c)"
    using assms by (auto simp: same_at_def set_str_slices)
  with assms show ?thesis
    by (cases "cr_env c") (simp_all add: same_at_def cmd_at_def)
qed

lemma sealed_refs_in: "sealed p \<Longrightarrow> c \<in> set (pr_cmds p) \<Longrightarrow> refs_in (pr_store p) c"
  by (simp add: sealed_def apart_def refs_in_def set_str_slices)

lemma sealed_args_in: "sealed p \<Longrightarrow> args_held p b \<Longrightarrow> args_in (pr_store p) b"
  by (cases b) (auto simp: sealed_def apart_def)

lemma sealed_new_command:
  assumes "sealed p" "store_grows (pr_store p) st" "fresh_refs (pr_store p) st c"
  shows "sealed (p\<lparr>pr_store := st, pr_cmds := pr_cmds p @ [c]\<rparr>) \<and> same_at (pr_store p) st (pr_cmds p)"
proof -
  note ap = assms(1) [unfolded sealed_def] note gr = store_growsD [OF assms(2)]
  note s = apart_fresh [OF conjunct1 [OF ap] gr(1), of "[cr_args c, cr_env c]"]
  note i = apart_fresh [OF conjunct1 [OF conjunct2 [OF ap]] gr(2), of "[cr_okCodes c]"]
  note o' = apart_fresh [OF conjunct2 [OF conjunct2 [OF ap]] gr(3), of "[cr_stdinBytes c]"]
  have f: "\<forall>s\<in>set [cr_args c, cr_env c]. in_heap (cs_str st) s \<and> arrays s \<subseteq> {length (cs_str (pr_store p))..}"
    "\<forall>s\<in>set [cr_okCodes c]. in_heap (cs_int st) s \<and> arrays s \<subseteq> {length (cs_int (pr_store p))..}"
    "\<forall>s\<in>set [cr_stdinBytes c]. in_heap (cs_oct st) s \<and> arrays s \<subseteq> {length (cs_oct (pr_store p))..}"
    using assms(3) by (simp_all add: fresh_refs_def refs_in_def)
  show ?thesis
    using s(1,3) [OF f(1)] i(1,3) [OF f(2)] o'(1,3) [OF f(3)] by (simp add: sealed_def same_at_def)
qed

lemma sealed_step:
  assumes "program_step gw p p'" "sealed p"
  shows "sealed p' \<and> same_at (pr_store p) (pr_store p') (pr_cmds p) \<and> (\<exists>cs. pr_cmds p' = pr_cmds p @ cs)"
  using assms(1)
proof cases
  case (new args program c st)
  with assms(2) have "in_heap (cs_str (pr_store p)) args" by (auto simp: sealed_def apart_def)
  then have "builds (pr_store p) (mk_Command program (content (cs_str (pr_store p)) args)) (c, st)"
    unfolding new(3) [symmetric] by (rule ref_Command_builds)
  with new(1) sealed_new_command [OF assms(2), of st c] show ?thesis by (simp add: builds_def)
next
  case (derive c b c' st)
  from ref_apply_builds [OF sealed_refs_in [OF assms(2) derive(2)] sealed_args_in [OF assms(2) derive(3)], of gw]
    derive sealed_new_command [OF assms(2), of st c']
  show ?thesis by (simp add: builds_def)
next
  case (invoke c r st)
  note ap = assms(2) [unfolded sealed_def]
  note f = ref_invocation_fresh [OF invoke(3) sealed_refs_in [OF assms(2) invoke(2)]]
  note gr = store_growsD [OF f(1)]
  note s = apart_fresh [OF conjunct1 [OF ap] gr(1), of "[ir_args r, ir_env r]"]
  note i = apart_fresh [OF conjunct1 [OF conjunct2 [OF ap]] gr(2), of "[ir_okCodes r]"]
  note o' = apart_fresh [OF conjunct2 [OF conjunct2 [OF ap]] gr(3), of "[]"]
  have new: "\<forall>s\<in>set [ir_args r, ir_env r]. in_heap (cs_str st) s \<and> arrays s \<subseteq> {length (cs_str (pr_store p))..}"
    "\<forall>s\<in>set [ir_okCodes r]. in_heap (cs_int st) s \<and> arrays s \<subseteq> {length (cs_int (pr_store p))..}"
    using f by simp_all
  show ?thesis
    using s(2,3) [OF new(1)] i(2,3) [OF new(2)] o'(2,3) by (simp add: invoke(1) sealed_def same_at_def)
next
  case (strs h held)
  note f = apart_holder [OF conjunct1 [OF assms(2) [unfolded sealed_def]] strs(2)]
  with assms(2) show ?thesis by (simp add: strs(1) sealed_def same_at_def)
next
  case (ints h held)
  note f = apart_holder [OF conjunct1 [OF conjunct2 [OF assms(2) [unfolded sealed_def]]] ints(2)]
  with assms(2) show ?thesis by (simp add: ints(1) sealed_def same_at_def)
next
  case (octs h held)
  note f = apart_holder [OF conjunct2 [OF conjunct2 [OF assms(2) [unfolded sealed_def]]] octs(2)]
  with assms(2) show ?thesis by (simp add: octs(1) sealed_def same_at_def)
qed

lemma sealed_steps:
  assumes "(program_step gw)\<^sup>*\<^sup>* p p'" "sealed p"
  shows "sealed p' \<and> (\<exists>cs. pr_cmds p' = pr_cmds p @ cs)
    \<and> (\<forall>c\<in>set (pr_cmds p). cmd_at (pr_store p') c = cmd_at (pr_store p) c)"
  using assms
proof (induction rule: rtranclp_induct)
  case base
  then show ?case by simp
next
  case (step q r)
  then obtain cs where q: "sealed q" "pr_cmds q = pr_cmds p @ cs"
    "\<forall>c\<in>set (pr_cmds p). cmd_at (pr_store q) c = cmd_at (pr_store p) c" by blast
  from sealed_step [OF step.hyps(2) q(1)] obtain ds
    where r: "sealed r" "same_at (pr_store q) (pr_store r) (pr_cmds q)" "pr_cmds r = pr_cmds q @ ds" by blast
  have "cmd_at (pr_store r) c = cmd_at (pr_store p) c" if "c \<in> set (pr_cmds p)" for c
    using cmd_at_cong [OF r(2), of c] q(2,3) that by simp
  with q(2) r(1,3) show ?case by simp
qed

text \<open>A program before its first step; every program holds the nil slices.\<close>

definition program0 :: "'w program" where
  "program0 = \<lparr>pr_store = \<lparr>cs_str = [], cs_int = [], cs_oct = []\<rparr>, pr_cmds = [], pr_strs = [None],
     pr_ints = [None], pr_octs = [None]\<rparr>"

lemma sealed0: "sealed program0"
  by (simp add: sealed_def apart_def program0_def)

section \<open>A concrete program\<close>

text \<open>
  A program that makes a slice holding \<^verbatim>\<open>status\<close> and a command with it as its arguments, under a
  runtime that doubles.
\<close>

definition doubling :: growths where
  "doubling = \<lparr>gw_str = (\<lambda>c n. 2 * n), gw_int = (\<lambda>c n. 2 * n), gw_oct = (\<lambda>c n. 2 * n)\<rparr>"

definition demo_args :: "slice option" where
  "demo_args = Some \<lparr>sl_arr = 0, sl_off = 0, sl_len = 1, sl_cap = 2\<rparr>"

definition demo_cmd :: "nat cmdref" where
  "demo_cmd = \<lparr>cr_args = Some \<lparr>sl_arr = 1, sl_off = 0, sl_len = 1, sl_cap = 2\<rparr>, cr_env = None, cr_okCodes = None,
     cr_stdinBytes = None, cr_rest = mk_Command ''git'' []\<rparr>"

definition demo_program :: "nat program" where
  "demo_program = \<lparr>pr_store = \<lparr>cs_str = [[''status'', []], [''status'', []]], cs_int = [], cs_oct = []\<rparr>,
     pr_cmds = [demo_cmd], pr_strs = [None, demo_args], pr_ints = [None], pr_octs = [None]\<rparr>"

lemma demo_program_reached: "(program_step doubling)\<^sup>*\<^sup>* program0 demo_program"
proof -
  let ?p = "\<lparr>pr_store = \<lparr>cs_str = [[''status'', []]], cs_int = [], cs_oct = []\<rparr>, pr_cmds = [],
    pr_strs = [None, demo_args], pr_ints = [None], pr_octs = [None]\<rparr> :: nat program"
  let ?start = "program0 :: nat program"
  have "holder_step (cs_str (pr_store ?start)) (pr_strs ?start) [[''status'', []]]
      (pr_strs ?start @ [Some \<lparr>sl_arr = 0, sl_off = 0, sl_len = 1, sl_cap = 2\<rparr>])"
    by (rule holder_step.make [where g = "\<lambda>n. 2 * n" and z = "[]" and xs = "[''status'']"])
      (simp add: go_alloc_def program0_def numeral_2_eq_2)
  from program_step.strs [OF this, of doubling] have 1: "program_step doubling program0 ?p"
    by (simp add: program0_def demo_args_def)
  have "run_state (ref_Command doubling ''git'' demo_args) (pr_store ?p) = (demo_cmd, pr_store demo_program)"
    by (simp add: ref_Command_def on_str_def go_copy_def go_append_def go_alloc_def doubling_def demo_args_def
        demo_cmd_def demo_program_def numeral_2_eq_2)
  from program_step.new [OF _ this] have "program_step doubling ?p demo_program"
    by (simp add: program0_def demo_program_def)
  with 1 show ?thesis by (meson converse_rtranclp_into_rtranclp r_into_rtranclp)
qed

section \<open>Properties\<close>

text \<open>
  Claim C32. A command never changes once it is built: whatever a program then derives from it or from
  other commands, whatever it writes or appends to the slices it passed as arguments, and whatever a
  runner does to the slices of the invocations it was given, every command keeps its place and denotes
  the same value, so base commands can be shared.
\<close>

theorem commands_are_immutable:
  assumes "(program_step gw)\<^sup>*\<^sup>* program0 p" "(program_step gw)\<^sup>*\<^sup>* p p'"
  shows "\<forall>i < length (pr_cmds p). pr_cmds p' ! i = pr_cmds p ! i
    \<and> cmd_at (pr_store p') (pr_cmds p ! i) = cmd_at (pr_store p) (pr_cmds p ! i)"
proof -
  from sealed_steps [OF assms(2) conjunct1 [OF sealed_steps [OF assms(1) sealed0]]]
  show ?thesis by (auto simp: nth_append)
qed

theorem commands_are_immutable_witness:
  "\<exists>p'. (program_step doubling)\<^sup>*\<^sup>* demo_program p' \<and> content (cs_str (pr_store p')) demo_args = [''log'']
    \<and> cm_args (cmd_at (pr_store p') demo_cmd) = [''status'']"
proof -
  let ?h = "[[''log'', []], [''status'', []]]"
  let ?p = "demo_program\<lparr>pr_store := (pr_store demo_program)\<lparr>cs_str := ?h\<rparr>\<rparr>"
  have "holder_step (cs_str (pr_store demo_program)) (pr_strs demo_program) ?h (pr_strs demo_program)"
    by (rule holder_step.assign [where s = demo_args and i = 0 and x = "''log''"])
      (simp_all add: demo_program_def demo_args_def go_set_def)
  from program_step.strs [OF this, of doubling] have step: "(program_step doubling)\<^sup>*\<^sup>* demo_program ?p"
    by (simp add: demo_program_def)
  from commands_are_immutable [OF demo_program_reached step]
  have "cmd_at (pr_store ?p) demo_cmd = cmd_at (pr_store demo_program) demo_cmd"
    by (simp add: demo_program_def)
  then have "cm_args (cmd_at (pr_store ?p) demo_cmd) = [''status'']"
    by (simp add: cmd_at_def demo_program_def demo_cmd_def)
  with step show ?thesis by (intro exI [of _ ?p]) (simp add: demo_args_def)
qed

text \<open>
  Claim C33. The builders on shared slices refine the builders on values: in every reachable program the
  command a builder answers denotes the value-level operation applied to what the receiver and the
  slice arguments hold at that moment, no other command changes, and an invocation holds the slices of the
  value-level invocation.
\<close>

theorem builders_refine_values:
  assumes "(program_step gw)\<^sup>*\<^sup>* program0 p" "c \<in> set (pr_cmds p)" "args_held p b"
    "run_state (ref_apply gw b c) (pr_store p) = (c', st)"
    "run_state (ref_invocation gw c) (pr_store p) = (r, st2)"
  shows "cmd_at st c' = val_apply (pr_store p) b (cmd_at (pr_store p) c)
    \<and> (\<forall>d\<in>set (pr_cmds p). cmd_at st d = cmd_at (pr_store p) d)
    \<and> content (cs_str st2) (ir_args r) = inv_Args (cmd_invocation (cmd_at (pr_store p) c))
    \<and> map_option (\<lambda>s. content (cs_str st2) (Some s)) (ir_env r) = inv_Env (cmd_invocation (cmd_at (pr_store p) c))
    \<and> content (cs_int st2) (ir_okCodes r) = inv_OkCodes (cmd_invocation (cmd_at (pr_store p) c))"
proof -
  have s: "sealed p" using sealed_steps [OF assms(1) sealed0] by blast
  note b = ref_apply_builds [OF sealed_refs_in [OF s assms(2)] sealed_args_in [OF s assms(3)], of gw]
  have "same_at (pr_store p) st (pr_cmds p)"
    using sealed_step [OF program_step.derive [OF assms(2,3,4)] s] by simp
  with b assms(4) ref_invocation_fresh(8-10) [OF assms(5) sealed_refs_in [OF s assms(2)]] show ?thesis
    by (simp add: builds_def cmd_at_cong)
qed

theorem builders_refine_values_witness:
  "\<exists>c' st. run_state (ref_apply doubling (BArgs demo_args) demo_cmd) (pr_store demo_program) = (c', st)
    \<and> cm_args (cmd_at st c') = [''status'', ''status''] \<and> cm_args (cmd_at st demo_cmd) = [''status'']"
proof -
  obtain c' st where run: "run_state (ref_apply doubling (BArgs demo_args) demo_cmd) (pr_store demo_program) = (c', st)"
    by fastforce
  obtain r st2 where inv: "run_state (ref_invocation doubling demo_cmd) (pr_store demo_program) = (r, st2)" by fastforce
  have "demo_cmd \<in> set (pr_cmds demo_program)" "args_held demo_program (BArgs demo_args)"
    by (simp_all add: demo_program_def)
  note b = builders_refine_values [OF demo_program_reached this run inv]
  have demo: "cm_args (cmd_at (pr_store demo_program) demo_cmd) = [''status'']"
    "content (cs_str (pr_store demo_program)) demo_args = [''status'']"
    by (simp_all add: cmd_at_def demo_program_def demo_cmd_def demo_args_def)
  have "cmd_at st c' = WithArgs [''status''] (cmd_at (pr_store demo_program) demo_cmd)"
    "cmd_at st demo_cmd = cmd_at (pr_store demo_program) demo_cmd"
    using b demo(2) by (simp_all add: demo_program_def)
  with run demo(1) show ?thesis by (auto simp: WithArgs_def)
qed

end
