(* ===== verification/SharedValues.thy ===== *)
theory SharedValues
  imports CommandSharing Pipeline
begin

text \<open>
  Results and pipelines with their slices.  \<^verbatim>\<open>NewResult\<close> and the real runner copy what they take from an
  invocation, and \<^verbatim>\<open>Args\<close> and \<^verbatim>\<open>StdoutBytes\<close> hand out copies (\<^verbatim>\<open>result.go\<close>, \<^verbatim>\<open>runner.go\<close>); \<^verbatim>\<open>Pipe\<close> copies its stages
  and every \<^verbatim>\<open>WithX\<close> of a pipeline works on a clone (\<^verbatim>\<open>pipeline.go\<close>).  So neither changes once it is made,
  whatever is done to the slices that went in or came out.
\<close>

section \<open>Results in the store\<close>

record resref =
  rf_args :: "slice option"
  rf_stdout :: "slice option"
  rf_okCodes :: "slice option"
  rf_rest :: result

definition result_at :: "cstore \<Rightarrow> resref \<Rightarrow> result" where
  "result_at st r = (rf_rest r)
     \<lparr>r_args := content (cs_str st) (rf_args r), r_stdout := content (cs_oct st) (rf_stdout r),
      r_okCodes := content (cs_int st) (rf_okCodes r)\<rparr>"

text \<open>\<^verbatim>\<open>NewResult\<close>, for an invocation of the program with the given slices.\<close>

definition ref_NewResult ::
    "growths \<Rightarrow> bytes \<Rightarrow> invref \<Rightarrow> outcome \<Rightarrow> slice option \<Rightarrow> slice option \<Rightarrow> (cstore, resref) state" where
  "ref_NewResult gw program iv oc stdout stderr = do {
     as \<leftarrow> on_str (go_copy (gw_str gw) [] (ir_args iv));
     out \<leftarrow> on_oct (go_copy (gw_oct gw) (CHR 0x00) stdout);
     err \<leftarrow> on_oct (\<lambda>h. (normalizeNewlines (content h stderr), h));
     codes \<leftarrow> on_int (go_copy (gw_int gw) 0 (ir_okCodes iv));
     State_Monad.return \<lparr>rf_args = as, rf_stdout = out, rf_okCodes = codes,
       rf_rest = \<lparr>r_program = program, r_args = [], r_outcome = oc, r_stdout = [], r_stderr = err,
         r_duration = 0, r_okCodes = [], r_mechanism = MechanismUnknown\<rparr>\<rparr>
   }"

text \<open>The result of a real run: its stdout is the buffer of this run, which nobody else holds.\<close>

definition ref_runResult ::
    "growths \<Rightarrow> bytes \<Rightarrow> invref \<Rightarrow> outcome \<Rightarrow> bytes \<Rightarrow> bytes \<Rightarrow> duration \<Rightarrow> mechanism \<Rightarrow> (cstore, resref) state" where
  "ref_runResult gw program iv oc stdout stderr d mech = do {
     as \<leftarrow> on_str (go_copy (gw_str gw) [] (ir_args iv));
     out \<leftarrow> on_oct (go_append (gw_oct gw) (CHR 0x00) None stdout);
     codes \<leftarrow> on_int (go_copy (gw_int gw) 0 (ir_okCodes iv));
     State_Monad.return \<lparr>rf_args = as, rf_stdout = out, rf_okCodes = codes,
       rf_rest = \<lparr>r_program = program, r_args = [], r_outcome = oc, r_stdout = [],
         r_stderr = normalizeNewlines stderr, r_duration = d, r_okCodes = [], r_mechanism = mech\<rparr>\<rparr>
   }"

definition ref_Args :: "growths \<Rightarrow> resref \<Rightarrow> (cstore, slice option) state" where
  "ref_Args gw r = on_str (go_copy (gw_str gw) [] (rf_args r))"

definition ref_StdoutBytes :: "growths \<Rightarrow> resref \<Rightarrow> (cstore, slice option) state" where
  "ref_StdoutBytes gw r = on_oct (go_copy (gw_oct gw) (CHR 0x00) (rf_stdout r))"

text \<open>
  A program with the results made so far and the slices it holds: those it built itself, those of the
  invocations its runners were given, and those the getters handed out.
\<close>

record results =
  rs_store :: cstore
  rs_made :: "resref list"
  rs_strs :: "slice option list"
  rs_ints :: "slice option list"
  rs_octs :: "slice option list"

inductive result_step :: "growths \<Rightarrow> results \<Rightarrow> results \<Rightarrow> bool" for gw where
  faked: "ir_args iv \<in> set (rs_strs p) \<Longrightarrow> ir_okCodes iv \<in> set (rs_ints p) \<Longrightarrow> out \<in> set (rs_octs p) \<Longrightarrow>
    err \<in> set (rs_octs p) \<Longrightarrow> run_state (ref_NewResult gw program iv oc out err) (rs_store p) = (r, st) \<Longrightarrow>
    result_step gw p (p\<lparr>rs_store := st, rs_made := rs_made p @ [r]\<rparr>)"
| ran: "ir_args iv \<in> set (rs_strs p) \<Longrightarrow> ir_okCodes iv \<in> set (rs_ints p) \<Longrightarrow>
    run_state (ref_runResult gw program iv oc stdout stderr d mech) (rs_store p) = (r, st) \<Longrightarrow>
    result_step gw p (p\<lparr>rs_store := st, rs_made := rs_made p @ [r]\<rparr>)"
| args: "r \<in> set (rs_made p) \<Longrightarrow> run_state (ref_Args gw r) (rs_store p) = (s, st) \<Longrightarrow>
    result_step gw p (p\<lparr>rs_store := st, rs_strs := rs_strs p @ [s]\<rparr>)"
| stdout: "r \<in> set (rs_made p) \<Longrightarrow> run_state (ref_StdoutBytes gw r) (rs_store p) = (s, st) \<Longrightarrow>
    result_step gw p (p\<lparr>rs_store := st, rs_octs := rs_octs p @ [s]\<rparr>)"
| strs: "holder_step (cs_str (rs_store p)) (rs_strs p) h held \<Longrightarrow>
    result_step gw p (p\<lparr>rs_store := (rs_store p)\<lparr>cs_str := h\<rparr>, rs_strs := held\<rparr>)"
| ints: "holder_step (cs_int (rs_store p)) (rs_ints p) h held \<Longrightarrow>
    result_step gw p (p\<lparr>rs_store := (rs_store p)\<lparr>cs_int := h\<rparr>, rs_ints := held\<rparr>)"
| octs: "holder_step (cs_oct (rs_store p)) (rs_octs p) h held \<Longrightarrow>
    result_step gw p (p\<lparr>rs_store := (rs_store p)\<lparr>cs_oct := h\<rparr>, rs_octs := held\<rparr>)"

definition results0 :: results where
  "results0 = \<lparr>rs_store = \<lparr>cs_str = [], cs_int = [], cs_oct = []\<rparr>, rs_made = [], rs_strs = [None],
     rs_ints = [None], rs_octs = [None]\<rparr>"

section \<open>Results are sealed\<close>

definition sealed_results :: "results \<Rightarrow> bool" where
  "sealed_results p \<longleftrightarrow> apart (cs_str (rs_store p)) (map rf_args (rs_made p)) (rs_strs p)
     \<and> apart (cs_int (rs_store p)) (map rf_okCodes (rs_made p)) (rs_ints p)
     \<and> apart (cs_oct (rs_store p)) (map rf_stdout (rs_made p)) (rs_octs p)"

lemma apart_in_heap: "apart h owned held \<Longrightarrow> s \<in> set owned \<or> s \<in> set held \<Longrightarrow> in_heap h s"
  by (auto simp: apart_def)

definition same_results :: "results \<Rightarrow> results \<Rightarrow> bool" where
  "same_results p p' \<longleftrightarrow> (\<exists>rs. rs_made p' = rs_made p @ rs)
     \<and> (\<forall>r\<in>set (rs_made p). result_at (rs_store p') r = result_at (rs_store p) r)"

text \<open>A result is made of fresh slices; the older ones keep what they show.\<close>

lemma sealed_new_result:
  assumes "sealed_results p" "grows {} (cs_str (rs_store p)) (cs_str st)" "grows {} (cs_int (rs_store p)) (cs_int st)"
    "grows {} (cs_oct (rs_store p)) (cs_oct st)"
    "in_heap (cs_str st) (rf_args r)" "arrays (rf_args r) \<subseteq> {length (cs_str (rs_store p))..}"
    "in_heap (cs_int st) (rf_okCodes r)" "arrays (rf_okCodes r) \<subseteq> {length (cs_int (rs_store p))..}"
    "in_heap (cs_oct st) (rf_stdout r)" "arrays (rf_stdout r) \<subseteq> {length (cs_oct (rs_store p))..}"
  shows "sealed_results (p\<lparr>rs_store := st, rs_made := rs_made p @ [r]\<rparr>)
    \<and> same_results p (p\<lparr>rs_store := st, rs_made := rs_made p @ [r]\<rparr>)"
proof -
  note ap = assms(1) [unfolded sealed_results_def]
  note s = apart_fresh [OF conjunct1 [OF ap] assms(2), of "[rf_args r]"]
  note i = apart_fresh [OF conjunct1 [OF conjunct2 [OF ap]] assms(3), of "[rf_okCodes r]"]
  note o' = apart_fresh [OF conjunct2 [OF conjunct2 [OF ap]] assms(4), of "[rf_stdout r]"]
  from s i o' assms(5-10) show ?thesis
    by (simp add: sealed_results_def same_results_def result_at_def)
qed

lemma faked_result:
  assumes "sealed_results p" "ir_args iv \<in> set (rs_strs p)" "ir_okCodes iv \<in> set (rs_ints p)" "out \<in> set (rs_octs p)"
    "err \<in> set (rs_octs p)" "run_state (ref_NewResult gw program iv oc out err) (rs_store p) = (r, st)"
  shows "sealed_results (p\<lparr>rs_store := st, rs_made := rs_made p @ [r]\<rparr>)
    \<and> same_results p (p\<lparr>rs_store := st, rs_made := rs_made p @ [r]\<rparr>)"
    and "result_at st r = newResult (inv0\<lparr>inv_Program := program, inv_Args := content (cs_str (rs_store p)) (ir_args iv),
        inv_OkCodes := content (cs_int (rs_store p)) (ir_okCodes iv)\<rparr>) oc (content (cs_oct (rs_store p)) out)
      (content (cs_oct (rs_store p)) err)"
proof -
  let ?st = "rs_store p"
  note ap = assms(1) [unfolded sealed_results_def]
  have ins: "in_heap (cs_str ?st) (ir_args iv)" "in_heap (cs_int ?st) (ir_okCodes iv)" "in_heap (cs_oct ?st) out"
    "in_heap (cs_oct ?st) err"
    using ap apart_in_heap assms(2-5) by blast+
  obtain a h where a: "go_copy (gw_str gw) [] (ir_args iv) (cs_str ?st) = (a, h)" by fastforce
  obtain b o1 where b: "go_copy (gw_oct gw) (CHR 0x00) out (cs_oct ?st) = (b, o1)" by fastforce
  obtain k i where k: "go_copy (gw_int gw) 0 (ir_okCodes iv) (cs_int ?st) = (k, i)" by fastforce
  note fa = go_copy [OF a ins(1)] note fb = go_copy [OF b ins(3)] note fk = go_copy [OF k ins(2)]
  have r: "rf_args r = a" "rf_stdout r = b" "rf_okCodes r = k" "st = \<lparr>cs_str = h, cs_int = i, cs_oct = o1\<rparr>"
    "rf_rest r = \<lparr>r_program = program, r_args = [], r_outcome = oc, r_stdout = [],
       r_stderr = normalizeNewlines (content o1 err), r_duration = 0, r_okCodes = [], r_mechanism = MechanismUnknown\<rparr>"
    using assms(6) by (auto simp: ref_NewResult_def on_str_def on_int_def on_oct_def a b k)
  have "content o1 err = content (cs_oct ?st) err" using grows_content [OF fb(1) ins(4)] by simp
  with fa fb fk show "result_at st r = newResult (inv0\<lparr>inv_Program := program,
        inv_Args := content (cs_str ?st) (ir_args iv), inv_OkCodes := content (cs_int ?st) (ir_okCodes iv)\<rparr>) oc
        (content (cs_oct ?st) out) (content (cs_oct ?st) err)"
    by (simp add: result_at_def r newResult_def)
  show "sealed_results (p\<lparr>rs_store := st, rs_made := rs_made p @ [r]\<rparr>)
    \<and> same_results p (p\<lparr>rs_store := st, rs_made := rs_made p @ [r]\<rparr>)"
    by (rule sealed_new_result [OF assms(1)]) (use fa fb fk in \<open>simp_all add: r\<close>)
qed

lemma ran_result:
  assumes "sealed_results p" "ir_args iv \<in> set (rs_strs p)" "ir_okCodes iv \<in> set (rs_ints p)"
    "run_state (ref_runResult gw program iv oc stdout stderr d mech) (rs_store p) = (r, st)"
  shows "sealed_results (p\<lparr>rs_store := st, rs_made := rs_made p @ [r]\<rparr>)
    \<and> same_results p (p\<lparr>rs_store := st, rs_made := rs_made p @ [r]\<rparr>)"
proof -
  let ?st = "rs_store p"
  note ap = assms(1) [unfolded sealed_results_def]
  have ins: "in_heap (cs_str ?st) (ir_args iv)" "in_heap (cs_int ?st) (ir_okCodes iv)"
    using ap apart_in_heap assms(2-3) by blast+
  obtain a h where a: "go_copy (gw_str gw) [] (ir_args iv) (cs_str ?st) = (a, h)" by fastforce
  obtain b o1 where b: "go_append (gw_oct gw) (CHR 0x00) None stdout (cs_oct ?st) = (b, o1)" by fastforce
  obtain k i where k: "go_copy (gw_int gw) 0 (ir_okCodes iv) (cs_int ?st) = (k, i)" by fastforce
  note fa = go_copy [OF a ins(1)] note fk = go_copy [OF k ins(2)]
  note fb = go_append_frame [OF b]
  have r: "rf_args r = a" "rf_stdout r = b" "rf_okCodes r = k" "st = \<lparr>cs_str = h, cs_int = i, cs_oct = o1\<rparr>"
    using assms(4) by (auto simp: ref_runResult_def on_str_def on_int_def on_oct_def a b k)
  show ?thesis
    by (rule sealed_new_result [OF assms(1)]) (use fa fb fk in \<open>simp_all add: r\<close>)
qed

lemma sealed_result_step:
  assumes "result_step gw p p'" "sealed_results p"
  shows "sealed_results p' \<and> same_results p p'"
  using assms(1)
proof cases
  case (faked iv out err program oc r st)
  with faked_result(1) [OF assms(2) faked(2-6)] show ?thesis by simp
next
  case (ran iv program oc stdout stderr d mech r st)
  with ran_result [OF assms(2) ran(2-4)] show ?thesis by simp
next
  case (args r s st)
  note ap = assms(2) [unfolded sealed_results_def]
  have i: "in_heap (cs_str (rs_store p)) (rf_args r)" using ap apart_in_heap args(2) by force
  obtain h where h: "go_copy (gw_str gw) [] (rf_args r) (cs_str (rs_store p)) = (s, h)"
    "st = (rs_store p)\<lparr>cs_str := h\<rparr>"
    using args(3) by (auto simp: ref_Args_def on_str_def split: prod.splits)
  note f = go_copy [OF h(1) i]
  with apart_fresh [OF conjunct1 [OF ap] f(1), of "[s]"] ap show ?thesis
    by (simp add: args(1) h(2) sealed_results_def same_results_def result_at_def)
next
  case (stdout r s st)
  note ap = assms(2) [unfolded sealed_results_def]
  have i: "in_heap (cs_oct (rs_store p)) (rf_stdout r)" using ap apart_in_heap stdout(2) by force
  obtain h where h: "go_copy (gw_oct gw) (CHR 0x00) (rf_stdout r) (cs_oct (rs_store p)) = (s, h)"
    "st = (rs_store p)\<lparr>cs_oct := h\<rparr>"
    using stdout(3) by (auto simp: ref_StdoutBytes_def on_oct_def split: prod.splits)
  note f = go_copy [OF h(1) i]
  with apart_fresh [OF conjunct2 [OF conjunct2 [OF ap]] f(1), of "[s]"] ap show ?thesis
    by (simp add: stdout(1) h(2) sealed_results_def same_results_def result_at_def)
next
  case (strs h held)
  with apart_holder [OF conjunct1 [OF assms(2) [unfolded sealed_results_def]] strs(2)] assms(2) show ?thesis
    by (simp add: sealed_results_def same_results_def result_at_def)
next
  case (ints h held)
  with apart_holder [OF conjunct1 [OF conjunct2 [OF assms(2) [unfolded sealed_results_def]]] ints(2)] assms(2)
  show ?thesis by (simp add: sealed_results_def same_results_def result_at_def)
next
  case (octs h held)
  with apart_holder [OF conjunct2 [OF conjunct2 [OF assms(2) [unfolded sealed_results_def]]] octs(2)] assms(2)
  show ?thesis by (simp add: sealed_results_def same_results_def result_at_def)
qed

lemma same_results_trans: "same_results p q \<Longrightarrow> same_results q r \<Longrightarrow> same_results p r"
  by (auto simp: same_results_def)

lemma sealed_result_steps:
  "(result_step gw)\<^sup>*\<^sup>* p p' \<Longrightarrow> sealed_results p \<Longrightarrow> sealed_results p' \<and> same_results p p'"
proof (induction rule: rtranclp_induct)
  case base
  then show ?case by (simp add: same_results_def)
next
  case (step q r)
  with sealed_result_step [OF step.hyps(2)] same_results_trans show ?case by blast
qed

lemma sealed_results0: "sealed_results results0"
  by (simp add: sealed_results_def apart_def results0_def)

section \<open>Pipelines in the store\<close>

text \<open>Stages are pointers to commands, which do not change (\<open>commands_are_immutable\<close>); \<open>nil\<close> is the nil pointer.\<close>

record piperef =
  pf_stages :: "slice option"
  pf_timeout :: duration
  pf_stdin :: "nat option"
  pf_log :: runLog

definition pipeline_at :: "('c \<Rightarrow> 'w cmd) \<Rightarrow> 'c heap \<Rightarrow> piperef \<Rightarrow> 'w pipeline" where
  "pipeline_at deref h p = \<lparr>pl_stages = map deref (content h (pf_stages p)), pl_timeout = pf_timeout p,
     pl_stdin = pf_stdin p, pl_log = pf_log p\<rparr>"

definition ref_Pipe :: "growth \<Rightarrow> 'c \<Rightarrow> slice option \<Rightarrow> ('c heap, piperef) state" where
  "ref_Pipe gw nil stages = do {
     s \<leftarrow> State (go_copy gw nil stages);
     State_Monad.return \<lparr>pf_stages = s, pf_timeout = 0, pf_stdin = None, pf_log = False\<rparr>
   }"

definition pipeline_clone :: "growth \<Rightarrow> 'c \<Rightarrow> piperef \<Rightarrow> ('c heap, piperef) state" where
  "pipeline_clone gw nil p = do {
     s \<leftarrow> State (go_copy gw nil (pf_stages p));
     State_Monad.return (p\<lparr>pf_stages := s\<rparr>)
   }"

datatype pipeBuilder = PTimeout duration | PStdin "nat option" | PLogger runLog

fun pipe_set :: "pipeBuilder \<Rightarrow> piperef \<Rightarrow> piperef" where
  "pipe_set (PTimeout d) p = p\<lparr>pf_timeout := d\<rparr>"
| "pipe_set (PStdin r) p = p\<lparr>pf_stdin := r\<rparr>"
| "pipe_set (PLogger l) p = p\<lparr>pf_log := l\<rparr>"

definition ref_pipe_With :: "growth \<Rightarrow> 'c \<Rightarrow> pipeBuilder \<Rightarrow> piperef \<Rightarrow> ('c heap, piperef) state" where
  "ref_pipe_With gw nil b p = do {
     cp \<leftarrow> pipeline_clone gw nil p;
     State_Monad.return (pipe_set b cp)
   }"

fun val_pipe_With :: "pipeBuilder \<Rightarrow> 'w pipeline \<Rightarrow> 'w pipeline" where
  "val_pipe_With (PTimeout d) p = pipeline_WithTimeout d p"
| "val_pipe_With (PStdin r) p = pipeline_WithStdin r p"
| "val_pipe_With (PLogger l) p = pipeline_WithLogger l p"

record 'c pipes =
  ps_heap :: "'c heap"
  ps_made :: "piperef list"
  ps_held :: "slice option list"

inductive pipe_step :: "growth \<Rightarrow> 'c \<Rightarrow> 'c pipes \<Rightarrow> 'c pipes \<Rightarrow> bool" for gw nil where
  piped: "s \<in> set (ps_held p) \<Longrightarrow> run_state (ref_Pipe gw nil s) (ps_heap p) = (r, h) \<Longrightarrow>
    pipe_step gw nil p (p\<lparr>ps_heap := h, ps_made := ps_made p @ [r]\<rparr>)"
| derived: "r \<in> set (ps_made p) \<Longrightarrow> run_state (ref_pipe_With gw nil b r) (ps_heap p) = (r', h) \<Longrightarrow>
    pipe_step gw nil p (p\<lparr>ps_heap := h, ps_made := ps_made p @ [r']\<rparr>)"
| held: "holder_step (ps_heap p) (ps_held p) h held \<Longrightarrow> pipe_step gw nil p (p\<lparr>ps_heap := h, ps_held := held\<rparr>)"

definition pipes0 :: "'c pipes" where
  "pipes0 = \<lparr>ps_heap = [], ps_made = [], ps_held = [None]\<rparr>"

definition sealed_pipes :: "'c pipes \<Rightarrow> bool" where
  "sealed_pipes p \<longleftrightarrow> apart (ps_heap p) (map pf_stages (ps_made p)) (ps_held p)"

definition same_pipes :: "'c pipes \<Rightarrow> 'c pipes \<Rightarrow> bool" where
  "same_pipes p p' \<longleftrightarrow> (\<exists>rs. ps_made p' = ps_made p @ rs)
     \<and> (\<forall>r\<in>set (ps_made p). content (ps_heap p') (pf_stages r) = content (ps_heap p) (pf_stages r))"

lemma pipe_set_stages [simp]: "pf_stages (pipe_set b p) = pf_stages p"
  by (cases b) simp_all

text \<open>Both builders copy a list of stages into a new pipeline.\<close>

lemma sealed_new_pipe:
  assumes "sealed_pipes p" "go_copy gw nil s (ps_heap p) = (s', h)" "in_heap (ps_heap p) s" "pf_stages r = s'"
  shows "sealed_pipes (p\<lparr>ps_heap := h, ps_made := ps_made p @ [r]\<rparr>)
    \<and> same_pipes p (p\<lparr>ps_heap := h, ps_made := ps_made p @ [r]\<rparr>) \<and> content h (pf_stages r) = content (ps_heap p) s"
proof -
  note f = go_copy [OF assms(2,3)]
  with apart_fresh [OF assms(1) [unfolded sealed_pipes_def] f(1), of "[s']"] assms(4) show ?thesis
    by (simp add: sealed_pipes_def same_pipes_def)
qed

lemma sealed_pipe_step:
  assumes "pipe_step gw nil p p'" "sealed_pipes p"
  shows "sealed_pipes p' \<and> same_pipes p p'"
  using assms(1)
proof cases
  case (piped s r h)
  obtain s' h' where c: "go_copy gw nil s (ps_heap p) = (s', h')" by fastforce
  with piped(3) have "h' = h" "pf_stages r = s'" by (auto simp: ref_Pipe_def)
  with sealed_new_pipe [OF assms(2) c _ this(2)] piped(1,2) assms(2) apart_in_heap show ?thesis
    unfolding sealed_pipes_def by blast
next
  case (derived r b r' h)
  obtain s' h' where c: "go_copy gw nil (pf_stages r) (ps_heap p) = (s', h')" by fastforce
  with derived(3) have "h' = h" "pf_stages r' = s'" by (auto simp: ref_pipe_With_def pipeline_clone_def)
  moreover have "in_heap (ps_heap p) (pf_stages r)"
    using assms(2) derived(2) apart_in_heap unfolding sealed_pipes_def by force
  ultimately show ?thesis using sealed_new_pipe [OF assms(2) c, of r'] derived(1) by blast
next
  case (held h held)
  with apart_holder [OF assms(2) [unfolded sealed_pipes_def] held(2)] show ?thesis
    by (simp add: sealed_pipes_def same_pipes_def)
qed

lemma sealed_pipe_steps:
  "(pipe_step gw nil)\<^sup>*\<^sup>* p p' \<Longrightarrow> sealed_pipes p \<Longrightarrow> sealed_pipes p' \<and> same_pipes p p'"
proof (induction rule: rtranclp_induct)
  case base
  then show ?case by (simp add: same_pipes_def)
next
  case (step q r)
  with sealed_pipe_step [OF step.hyps(2)] show ?case by (auto simp: same_pipes_def)
qed

lemma sealed_pipes0: "sealed_pipes pipes0"
  by (simp add: sealed_pipes_def apart_def pipes0_def)

section \<open>Properties\<close>

text \<open>
  A result never changes once it is made, whatever is written through the slices it was made
  of and the slices its getters handed out; and what the getters hand out later is what it held then.
\<close>

theorem results_are_immutable:
  assumes "(result_step gw)\<^sup>*\<^sup>* results0 p" "(result_step gw)\<^sup>*\<^sup>* p p'" "r \<in> set (rs_made p)"
    "run_state (ref_Args gw r) (rs_store p') = (as, st)" "run_state (ref_StdoutBytes gw r) (rs_store p') = (out, st2)"
  shows "result_at (rs_store p') r = result_at (rs_store p) r
    \<and> content (cs_str st) as = r_args (result_at (rs_store p) r)
    \<and> content (cs_oct st2) out = r_stdout (result_at (rs_store p) r)"
proof -
  have s: "sealed_results p" using sealed_result_steps [OF assms(1) sealed_results0] by blast
  note t = sealed_result_steps [OF assms(2) s]
  then have same: "result_at (rs_store p') r = result_at (rs_store p) r" "r \<in> set (rs_made p')"
    using assms(3) by (auto simp: same_results_def)
  have i: "in_heap (cs_str (rs_store p')) (rf_args r)" "in_heap (cs_oct (rs_store p')) (rf_stdout r)"
    using t same(2) apart_in_heap unfolding sealed_results_def by force+
  obtain h where h: "go_copy (gw_str gw) [] (rf_args r) (cs_str (rs_store p')) = (as, h)" "cs_str st = h"
    using assms(4) by (auto simp: ref_Args_def on_str_def split: prod.splits)
  obtain k where k: "go_copy (gw_oct gw) (CHR 0x00) (rf_stdout r) (cs_oct (rs_store p')) = (out, k)" "cs_oct st2 = k"
    using assms(5) by (auto simp: ref_StdoutBytes_def on_oct_def split: prod.splits)
  from go_copy(4) [OF h(1) i(1)] go_copy(4) [OF k(1) i(2)] same(1) [symmetric] show ?thesis
    by (simp add: h(2) k(2)) (simp add: result_at_def)
qed

text \<open>
  The same for pipelines, and their builders on shared stages are those of \<open>Pipeline\<close> on values.
\<close>

theorem pipelines_are_immutable:
  assumes "(pipe_step gw nil)\<^sup>*\<^sup>* pipes0 p" "(pipe_step gw nil)\<^sup>*\<^sup>* p p'" "r \<in> set (ps_made p)"
    "run_state (ref_pipe_With gw nil b r) (ps_heap p') = (r', h)"
  shows "pipeline_at deref (ps_heap p') r = pipeline_at deref (ps_heap p) r
    \<and> pipeline_at deref h r' = val_pipe_With b (pipeline_at deref (ps_heap p) r)"
proof -
  have s: "sealed_pipes p" using sealed_pipe_steps [OF assms(1) sealed_pipes0] by blast
  note t = sealed_pipe_steps [OF assms(2) s]
  then have same: "content (ps_heap p') (pf_stages r) = content (ps_heap p) (pf_stages r)" "r \<in> set (ps_made p')"
    using assms(3) by (auto simp: same_pipes_def)
  have i: "in_heap (ps_heap p') (pf_stages r)"
    using t same(2) apart_in_heap unfolding sealed_pipes_def by force
  obtain s' h' where c: "go_copy gw nil (pf_stages r) (ps_heap p') = (s', h')" by fastforce
  with assms(4) have r': "h = h'" "r' = pipe_set b (r\<lparr>pf_stages := s'\<rparr>)"
    by (auto simp: ref_pipe_With_def pipeline_clone_def)
  from go_copy(4) [OF c i] same(1) show ?thesis
    by (cases b) (simp_all add: r' pipeline_at_def pipeline_WithTimeout_def pipeline_WithStdin_def
        pipeline_WithLogger_def)
qed

end
