(* ===== verification/JobHandles.thy ===== *)
theory JobHandles
  imports JobWindows
begin

text \<open>
  Who uses the handle of a Job Object when (\<^verbatim>\<open>winJob\<close> in \<^verbatim>\<open>internal/sys/job_windows.go\<close>, under the lock of
  the group in \<^verbatim>\<open>group.go\<close>) as a step relation of many threads on many groups.  A handle is an index into a
  table of the process whose free entries the kernel hands out again.  \<^verbatim>\<open>Assign\<close>, \<^verbatim>\<open>Adopt\<close> and the kill of
  \<^verbatim>\<open>Close\<close> always reach the job of their own group; \<^verbatim>\<open>Kill\<close> and \<^verbatim>\<open>Stats\<close> copy the handle under the lock and
  use it after they have released it, and a concurrent \<^verbatim>\<open>Close\<close> lets them reach the job of another group.
\<close>

section \<open>States\<close>

text \<open>
  Where a thread is, and the handle it has copied.  \<open>Starting\<close> to \<open>AdoptHolding\<close> hold the lock of the
  group, \<open>AdoptHolding\<close> the lock of the job as well.
\<close>

datatype hpc =
    Free
  | Starting nat
  | Assigning nat handle
  | Adopting nat
  | AdoptHolding nat
  | Closing nat
  | ClosingKill nat handle
  | Releasing nat
  | Killing nat handle
  | Querying nat handle
  | QueryingMemory nat handle

datatype use = UseAssign | UseAdopt | UseClose | UseKill | UseStats

text \<open>
  The handle table says which group's Job Object a handle names.  Two ghosts: the calls made with a job
  handle, each with the group that made it and the group whose job it reached, and the groups whose handle
  has been closed.
\<close>

record handles =
  hd_table :: "handle \<Rightarrow> nat option"
  hd_job :: "nat \<Rightarrow> winJob option"
  hd_closed :: "nat set"
  hd_gmu :: "nat \<Rightarrow> nat option"
  hd_jmu :: "nat \<Rightarrow> nat option"
  hd_pc :: "nat \<Rightarrow> hpc"
  hd_uses :: "(use \<times> nat \<times> nat option) list"
  hd_released :: "nat list"

definition handles0 :: handles where
  "handles0 = \<lparr>hd_table = (\<lambda>_. None), hd_job = (\<lambda>_. None), hd_closed = {}, hd_gmu = (\<lambda>_. None),
     hd_jmu = (\<lambda>_. None), hd_pc = (\<lambda>_. Free), hd_uses = [], hd_released = []\<rparr>"

definition go_to :: "nat \<Rightarrow> hpc \<Rightarrow> handles \<Rightarrow> handles" where
  "go_to t pc s = s\<lparr>hd_pc := (hd_pc s)(t := pc)\<rparr>"

definition lock_group :: "nat \<Rightarrow> nat option \<Rightarrow> handles \<Rightarrow> handles" where
  "lock_group i w s = s\<lparr>hd_gmu := (hd_gmu s)(i := w)\<rparr>"

definition lock_job :: "nat \<Rightarrow> nat option \<Rightarrow> handles \<Rightarrow> handles" where
  "lock_job i w s = s\<lparr>hd_jmu := (hd_jmu s)(i := w)\<rparr>"

definition use_handle :: "use \<Rightarrow> nat \<Rightarrow> handle \<Rightarrow> handles \<Rightarrow> handles" where
  "use_handle u i h s = s\<lparr>hd_uses := hd_uses s @ [(u, i, hd_table s h)]\<rparr>"

text \<open>\<^verbatim>\<open>winJob.Close\<close>, which holds the lock of the job throughout.\<close>

definition close_job :: "nat \<Rightarrow> winJob \<Rightarrow> handles \<Rightarrow> handles" where
  "close_job i j s =
    (if job_open j
     then s\<lparr>hd_table := (hd_table s)(wj_handle j := None),
            hd_job := (hd_job s)(i \<mapsto> \<lparr>wj_handle = InvalidHandle\<rparr>), hd_released := hd_released s @ [i]\<rparr>
     else s)"

lemmas handle_ops = go_to_def lock_group_def lock_job_def use_handle_def close_job_def

section \<open>Steps\<close>

inductive handle_step :: "nat \<Rightarrow> handles \<Rightarrow> handles \<Rightarrow> bool" for t where
  create: "hd_job s i = None \<Longrightarrow> h \<noteq> 0 \<Longrightarrow> h \<noteq> InvalidHandle \<Longrightarrow> hd_table s h = None \<Longrightarrow>
    handle_step t s (s\<lparr>hd_job := (hd_job s)(i \<mapsto> \<lparr>wj_handle = h\<rparr>), hd_table := (hd_table s)(h \<mapsto> i)\<rparr>)"
| start: "hd_pc s t = Free \<Longrightarrow> hd_job s i \<noteq> None \<Longrightarrow> hd_gmu s i = None \<Longrightarrow> i \<notin> hd_closed s \<Longrightarrow>
    handle_step t s (go_to t (Starting i) (lock_group i (Some t) s))"
| start_reads: "hd_pc s t = Starting i \<Longrightarrow> hd_jmu s i = None \<Longrightarrow> hd_job s i = Some j \<Longrightarrow> job_open j \<Longrightarrow>
    handle_step t s (go_to t (Assigning i (wj_handle j)) s)"
| start_fails: "hd_pc s t = Starting i \<Longrightarrow> handle_step t s (go_to t Free (lock_group i None s))"
| open_fails: "hd_pc s t = Assigning i h \<Longrightarrow> handle_step t s (go_to t Free (lock_group i None s))"
| assign: "hd_pc s t = Assigning i h \<Longrightarrow>
    handle_step t s (go_to t Free (lock_group i None (use_handle UseAssign i h s)))"
| adopt: "hd_pc s t = Free \<Longrightarrow> hd_job s i \<noteq> None \<Longrightarrow> hd_gmu s i = None \<Longrightarrow> i \<notin> hd_closed s \<Longrightarrow>
    handle_step t s (go_to t (Adopting i) (lock_group i (Some t) s))"
| adopt_locks: "hd_pc s t = Adopting i \<Longrightarrow> hd_jmu s i = None \<Longrightarrow> hd_job s i = Some j \<Longrightarrow> job_open j \<Longrightarrow>
    handle_step t s (go_to t (AdoptHolding i) (lock_job i (Some t) s))"
| adopt_refused: "hd_pc s t = Adopting i \<Longrightarrow> hd_jmu s i = None \<Longrightarrow> hd_job s i = Some j \<Longrightarrow> \<not> job_open j \<Longrightarrow>
    handle_step t s (go_to t Free (lock_group i None s))"
| adopt_fails: "hd_pc s t = AdoptHolding i \<Longrightarrow>
    handle_step t s (go_to t Free (lock_group i None (lock_job i None s)))"
| adopt_uses: "hd_pc s t = AdoptHolding i \<Longrightarrow> hd_job s i = Some j \<Longrightarrow>
    handle_step t s (go_to t Free (lock_group i None (lock_job i None (use_handle UseAdopt i (wj_handle j) s))))"
| close_flags: "hd_pc s t = Free \<Longrightarrow> hd_job s i \<noteq> None \<Longrightarrow> hd_gmu s i = None \<Longrightarrow> i \<notin> hd_closed s \<Longrightarrow>
    handle_step t s (go_to t (Closing i) (s\<lparr>hd_closed := insert i (hd_closed s)\<rparr>))"
| close_reads: "hd_pc s t = Closing i \<Longrightarrow> hd_jmu s i = None \<Longrightarrow> hd_job s i = Some j \<Longrightarrow>
    handle_step t s (go_to t (if job_open j then ClosingKill i (wj_handle j) else Releasing i) s)"
| close_kills: "hd_pc s t = ClosingKill i h \<Longrightarrow>
    handle_step t s (go_to t (Releasing i) (use_handle UseClose i h s))"
| close_releases: "hd_pc s t = Releasing i \<Longrightarrow> hd_jmu s i = None \<Longrightarrow> hd_job s i = Some j \<Longrightarrow>
    handle_step t s (go_to t Free (close_job i j s))"
| kill_reads: "hd_pc s t = Free \<Longrightarrow> hd_jmu s i = None \<Longrightarrow> hd_job s i = Some j \<Longrightarrow>
    handle_step t s (go_to t (if job_open j then Killing i (wj_handle j) else Free) s)"
| kill_uses: "hd_pc s t = Killing i h \<Longrightarrow> handle_step t s (go_to t Free (use_handle UseKill i h s))"
| stats_reads: "hd_pc s t = Free \<Longrightarrow> hd_jmu s i = None \<Longrightarrow> hd_job s i = Some j \<Longrightarrow>
    handle_step t s (go_to t (if job_open j then Querying i (wj_handle j) else Free) s)"
| stats_fails: "hd_pc s t = Querying i h \<Longrightarrow> handle_step t s (go_to t Free (use_handle UseStats i h s))"
| stats_uses: "hd_pc s t = Querying i h \<Longrightarrow> handle_step t s (go_to t (QueryingMemory i h) (use_handle UseStats i h s))"
| stats_ends: "hd_pc s t = QueryingMemory i h \<Longrightarrow> handle_step t s (go_to t Free (use_handle UseStats i h s))"

inductive_cases handle_stepE: "handle_step t s s'"

definition handles_step :: "handles \<Rightarrow> handles \<Rightarrow> bool" where
  "handles_step s s' \<longleftrightarrow> (\<exists>t. handle_step t s s')"

definition handles_reach :: "handles \<Rightarrow> bool" where
  "handles_reach = handles_step\<^sup>*\<^sup>* handles0"

section \<open>The invariant\<close>

text \<open>What a thread does, by its place: which locks it holds, which group it closes, which handle it grips.\<close>

fun holds_group :: "hpc \<Rightarrow> nat option" where
  "holds_group (Starting i) = Some i"
| "holds_group (Assigning i h) = Some i"
| "holds_group (Adopting i) = Some i"
| "holds_group (AdoptHolding i) = Some i"
| "holds_group _ = None"

fun holds_job :: "hpc \<Rightarrow> nat option" where
  "holds_job (AdoptHolding i) = Some i"
| "holds_job _ = None"

fun closes :: "hpc \<Rightarrow> nat option" where
  "closes (Closing i) = Some i"
| "closes (ClosingKill i h) = Some i"
| "closes (Releasing i) = Some i"
| "closes _ = None"

text \<open>The handle a thread has copied, with its group, when nothing can close it before it is used.\<close>

fun grips :: "nat set \<Rightarrow> hpc \<Rightarrow> (nat \<times> handle) option" where
  "grips C (Assigning i h) = Some (i, h)"
| "grips C (ClosingKill i h) = Some (i, h)"
| "grips C (Killing i h) = (if i \<in> C then None else Some (i, h))"
| "grips C (Querying i h) = (if i \<in> C then None else Some (i, h))"
| "grips C (QueryingMemory i h) = (if i \<in> C then None else Some (i, h))"
| "grips C _ = None"

definition handle_of :: "(nat \<Rightarrow> winJob option) \<Rightarrow> nat \<Rightarrow> handle option" where
  "handle_of jobs i = (case jobs i of Some j \<Rightarrow> if job_open j then Some (wj_handle j) else None | None \<Rightarrow> None)"

lemma handle_of_upd [simp]:
  "handle_of (jobs(i \<mapsto> j)) = (handle_of jobs)(i := if job_open j then Some (wj_handle j) else None)"
  by (auto simp: handle_of_def)

lemma job_open_handle [simp]: "job_open \<lparr>wj_handle = h\<rparr> \<longleftrightarrow> h \<noteq> InvalidHandle \<and> h \<noteq> 0"
  by (simp add: job_open_def)

lemma handle_of_Some [simp]: "jobs i = Some j \<Longrightarrow> handle_of jobs i = (if job_open j then Some (wj_handle j) else None)"
  "jobs i = None \<Longrightarrow> handle_of jobs i = None"
  by (simp_all add: handle_of_def)

text \<open>
  A table and the things it names, such as locks and the threads that hold them, mirror each other; of
  the threads at most one is at work on an index.
\<close>

definition owned :: "('a \<Rightarrow> 'b option) \<Rightarrow> ('b \<Rightarrow> 'a option) \<Rightarrow> bool" where
  "owned l c \<longleftrightarrow> (\<forall>i t. l i = Some t \<longleftrightarrow> c t = Some i)"

lemma owned_get: "owned l c \<Longrightarrow> c t = Some i \<Longrightarrow> l i = Some t"
  by (simp add: owned_def)

definition sole :: "(nat \<Rightarrow> nat option) \<Rightarrow> bool" where
  "sole c \<longleftrightarrow> (\<forall>t u i. c t = Some i \<longrightarrow> c u = Some i \<longrightarrow> t = u)"

lemma owned_take: "owned l c \<Longrightarrow> l i = None \<Longrightarrow> c t = None \<Longrightarrow> owned (l(i \<mapsto> t)) (c(t \<mapsto> i))"
  by (auto simp: owned_def) (metis option.distinct(1))+

lemma owned_drop: "owned l c \<Longrightarrow> c t = Some i \<Longrightarrow> owned (l(i := None)) (c(t := None))"
  by (auto simp: owned_def) (metis option.inject)+

lemma sole_take: "sole c \<Longrightarrow> (\<And>u. c u \<noteq> Some i) \<Longrightarrow> sole (c(t \<mapsto> i))"
  by (auto simp: sole_def)

lemma sole_drop: "sole c \<Longrightarrow> sole (c(t := None))"
  by (auto simp: sole_def)

definition lock_inv :: "handles \<Rightarrow> bool" where
  "lock_inv s \<longleftrightarrow> owned (hd_gmu s) (holds_group \<circ> hd_pc s) \<and> owned (hd_jmu s) (holds_job \<circ> hd_pc s)
     \<and> (\<forall>i\<in>hd_closed s. hd_gmu s i = None) \<and> (\<forall>i. hd_jmu s i \<noteq> None \<longrightarrow> handle_of (hd_job s) i \<noteq> None)"

definition table_inv :: "handles \<Rightarrow> bool" where
  "table_inv s \<longleftrightarrow> owned (hd_table s) (handle_of (hd_job s))"

definition release_inv :: "handles \<Rightarrow> bool" where
  "release_inv s \<longleftrightarrow> distinct (hd_released s) \<and> set (hd_released s) \<subseteq> hd_closed s
     \<and> set (hd_released s) = {i. hd_job s i \<noteq> None \<and> handle_of (hd_job s) i = None}"

definition closer_inv :: "handles \<Rightarrow> bool" where
  "closer_inv s \<longleftrightarrow> sole (closes \<circ> hd_pc s)
     \<and> (\<forall>t i. (closes \<circ> hd_pc s) t = Some i \<longrightarrow> i \<in> hd_closed s \<and> i \<notin> set (hd_released s))"

definition grip_inv :: "handles \<Rightarrow> bool" where
  "grip_inv s \<longleftrightarrow> (\<forall>t i h. (grips (hd_closed s) \<circ> hd_pc s) t = Some (i, h) \<longrightarrow> hd_table s h = Some i)"

definition use_inv :: "handles \<Rightarrow> bool" where
  "use_inv s \<longleftrightarrow> (\<forall>(u, i, x)\<in>set (hd_uses s). x = Some i \<or> (u \<in> {UseKill, UseStats} \<and> i \<in> hd_closed s))"

lemmas pc_maps = fun_upd_comp fun_upd_idem

lemma table_step: "handle_step t s s' \<Longrightarrow> table_inv s \<Longrightarrow> table_inv s'"
  unfolding table_inv_def
  by (erule handle_stepE) (simp_all add: handle_ops owned_take owned_drop)

lemma group_lock_step:
  "handle_step t s s' \<Longrightarrow> owned (hd_gmu s) (holds_group \<circ> hd_pc s) \<Longrightarrow> owned (hd_gmu s') (holds_group \<circ> hd_pc s')"
  by (erule handle_stepE) (simp_all add: handle_ops pc_maps owned_take owned_drop)

lemma job_lock_step:
  "handle_step t s s' \<Longrightarrow> owned (hd_jmu s) (holds_job \<circ> hd_pc s) \<Longrightarrow> owned (hd_jmu s') (holds_job \<circ> hd_pc s')"
  by (erule handle_stepE) (simp_all add: handle_ops pc_maps owned_take owned_drop)

lemma lock_step:
  assumes "handle_step t s s'" "lock_inv s"
  shows "lock_inv s'"
proof -
  note l = assms(2) [unfolded lock_inv_def]
  have "\<forall>i\<in>hd_closed s'. hd_gmu s' i = None"
    using assms(1) l by cases (auto simp: handle_ops)
  moreover have "\<forall>i. hd_jmu s' i \<noteq> None \<longrightarrow> handle_of (hd_job s') i \<noteq> None"
    using assms(1) l by cases (simp_all add: handle_ops)
  ultimately show ?thesis unfolding lock_inv_def
    using l group_lock_step [OF assms(1)] job_lock_step [OF assms(1)] by blast
qed

lemma release_step:
  assumes "handle_step t s s'" "closer_inv s" "release_inv s"
  shows "release_inv s'"
  using assms(1)
proof cases
  case (close_releases i j)
  then have "(closes \<circ> hd_pc s) t = Some i" by simp
  with assms(2) have "i \<in> hd_closed s" "i \<notin> set (hd_released s)" unfolding closer_inv_def by blast+
  with assms(3) close_releases show ?thesis
    by (auto simp: release_inv_def handle_ops)
qed (use assms(3) in \<open>auto simp: release_inv_def handle_ops\<close>)

lemma sole_step:
  assumes "handle_step t s s'" "closer_inv s"
  shows "sole (closes \<circ> hd_pc s')"
  using assms(1)
proof cases
  case (close_flags i)
  with assms(2) have "sole (closes \<circ> hd_pc s)" "(closes \<circ> hd_pc s) u \<noteq> Some i" for u
    unfolding closer_inv_def by blast+
  with close_flags show ?thesis by (simp add: handle_ops pc_maps sole_take)
qed (use assms(2) in \<open>simp_all add: closer_inv_def handle_ops pc_maps sole_drop\<close>)

lemma closer_step:
  assumes "handle_step t s s'" "closer_inv s" "release_inv s"
  shows "closer_inv s'"
proof -
  have "\<forall>u i. (closes \<circ> hd_pc s') u = Some i \<longrightarrow> i \<in> hd_closed s' \<and> i \<notin> set (hd_released s')"
    using assms(1)
  proof cases
    case (close_flags i)
    with assms(2,3) show ?thesis by (auto simp: closer_inv_def release_inv_def handle_ops pc_maps)
  next
    case (close_releases i j)
    then have "(closes \<circ> hd_pc s) t = Some i" by simp
    with assms(2) have "(closes \<circ> hd_pc s) u \<noteq> Some i" if "u \<noteq> t" for u
      using that unfolding closer_inv_def sole_def by blast
    with assms(2) close_releases show ?thesis by (auto simp: closer_inv_def handle_ops pc_maps)
  qed (use assms(2) in \<open>simp_all add: closer_inv_def handle_ops pc_maps\<close>)
  with sole_step [OF assms(1,2)] show ?thesis by (simp add: closer_inv_def)
qed

lemma grips_mono: "grips (insert i C) pc = Some x \<Longrightarrow> grips C pc = Some x"
  by (cases pc) (auto split: if_splits)

lemma grips_locked: "i \<in> C \<Longrightarrow> grips C pc = Some (i, h) \<Longrightarrow> closes pc = Some i \<or> holds_group pc = Some i"
  by (cases pc) (auto split: if_splits)

lemma grip_step:
  assumes "handle_step t s s'" "table_inv s" "lock_inv s" "closer_inv s" "grip_inv s"
  shows "grip_inv s'"
proof -
  have T: "hd_table s (wj_handle j) = Some i" if "hd_job s i = Some j" "job_open j" for i j
    using assms(2) that unfolding table_inv_def by (auto simp: owned_def)
  note G = assms(5) [unfolded grip_inv_def]
  show ?thesis using assms(1)
  proof cases
    case (close_flags i)
    with G show ?thesis by (auto simp: grip_inv_def handle_ops dest: grips_mono)
  next
    case (close_releases i j)
    then have "(closes \<circ> hd_pc s) t = Some i" by simp
    with assms(4) have c: "i \<in> hd_closed s" "\<And>u. u \<noteq> t \<Longrightarrow> (closes \<circ> hd_pc s) u \<noteq> Some i"
      unfolding closer_inv_def sole_def by blast+
    from c(1) assms(3) have g: "(holds_group \<circ> hd_pc s) u \<noteq> Some i" for u
      unfolding lock_inv_def owned_def by (metis option.distinct(1))
    have n: "grips (hd_closed s) (hd_pc s u) \<noteq> Some (i, h)" if "u \<noteq> t" for u h
      using grips_locked [OF c(1), of "hd_pc s u" h] c(2) [OF that] g [of u] by auto
    have "hd_table s h = Some k \<and> k \<noteq> i" if "u \<noteq> t" "grips (hd_closed s) (hd_pc s u) = Some (k, h)" for u k h
      using G that n by auto
    with close_releases T show ?thesis by (fastforce simp: grip_inv_def handle_ops)
  next
    case (create i h)
    with G show ?thesis by (auto simp: grip_inv_def)
  next
    case (start_reads i j)
    with G T show ?thesis by (simp add: grip_inv_def handle_ops)
  next
    case (close_reads i j)
    with G T show ?thesis by (simp add: grip_inv_def handle_ops)
  next
    case (kill_reads i j)
    with G T show ?thesis by (simp add: grip_inv_def handle_ops)
  next
    case (stats_reads i j)
    with G T show ?thesis by (simp add: grip_inv_def handle_ops)
  next
    case (stats_uses i h)
    have "hd_table s h = Some i" if "i \<notin> hd_closed s"
      using G that stats_uses(2) by (metis comp_apply grips.simps(4))
    with stats_uses G show ?thesis by (simp add: grip_inv_def handle_ops)
  qed (use G in \<open>simp_all add: grip_inv_def handle_ops\<close>)
qed

lemma use_handle_inv:
  assumes "use_inv s" "hd_table s h = Some i \<or> u \<in> {UseKill, UseStats} \<and> i \<in> hd_closed s"
  shows "\<forall>(u, i, x)\<in>set (hd_uses s @ [(u, i, hd_table s h)]). x = Some i \<or> (u \<in> {UseKill, UseStats} \<and> i \<in> hd_closed s)"
  using assms by (auto simp: use_inv_def)

lemma use_step:
  assumes "handle_step t s s'" "table_inv s" "lock_inv s" "grip_inv s" "use_inv s"
  shows "use_inv s'"
proof -
  have g: "hd_table s h = Some i" if "grips (hd_closed s) (hd_pc s t) = Some (i, h)" for i h
    using assms(4) that by (simp add: grip_inv_def)
  note U = use_handle_inv [OF assms(5)]
  show ?thesis using assms(1)
  proof cases
    case (adopt_uses i j)
    then have "(holds_job \<circ> hd_pc s) t = Some i" by simp
    with assms(3) have "hd_jmu s i \<noteq> None" "\<forall>i. hd_jmu s i \<noteq> None \<longrightarrow> handle_of (hd_job s) i \<noteq> None"
      unfolding lock_inv_def using owned_get by fastforce+
    with adopt_uses(3) have "handle_of (hd_job s) i = Some (wj_handle j)" by (auto split: if_splits)
    with assms(2) have "hd_table s (wj_handle j) = Some i" unfolding table_inv_def by (rule owned_get)
    with assms(5) adopt_uses(1) show ?thesis by (simp add: use_inv_def handle_ops)
  qed (use g U assms(5) in \<open>auto simp: use_inv_def handle_ops split: if_splits\<close>)
qed

section \<open>Reachable states\<close>

definition handles_inv :: "handles \<Rightarrow> bool" where
  "handles_inv s \<longleftrightarrow> table_inv s \<and> lock_inv s \<and> release_inv s \<and> closer_inv s \<and> grip_inv s \<and> use_inv s"

lemma handles_inv0: "handles_inv handles0"
  by (simp add: handles_inv_def handles0_def table_inv_def lock_inv_def release_inv_def closer_inv_def
      grip_inv_def use_inv_def owned_def sole_def)

lemma handles_inv_reach: "handles_reach s \<Longrightarrow> handles_inv s"
  unfolding handles_reach_def
proof (induction rule: rtranclp_induct)
  case (step s s')
  then obtain t where "handle_step t s s'" unfolding handles_step_def by blast
  with step.IH show ?case
    unfolding handles_inv_def using table_step lock_step release_step closer_step grip_step use_step by blast
qed (rule handles_inv0)

lemma handles_reach_step: "handles_reach s \<Longrightarrow> handle_step t s s' \<Longrightarrow> handles_reach s'"
  unfolding handles_reach_def handles_step_def by (rule rtranclp.rtrancl_into_rtrancl) auto

lemma handles_reach_eq: "handles_reach s \<Longrightarrow> handle_step t s s' \<Longrightarrow> s' = s'' \<Longrightarrow> handles_reach s''"
  using handles_reach_step by blast

text \<open>
  A kill that has copied the handle of group 0 is overtaken by the close of that group; the kernel gives the
  handle to the job of group 1.
\<close>

definition overtaken :: handles where
  "overtaken = handles0\<lparr>hd_job := [0 \<mapsto> \<lparr>wj_handle = InvalidHandle\<rparr>], hd_closed := {0},
     hd_pc := (\<lambda>_. Free)(1 := Killing 0 8), hd_uses := [(UseClose, 0, Some 0)], hd_released := [0]\<rparr>"

lemma overtaken_reach: "handles_reach overtaken"
proof -
  let ?j = "\<lparr>wj_handle = 8\<rparr>"
  have 0: "handles_reach handles0" by (simp add: handles_reach_def)
  let ?s1 = "handles0\<lparr>hd_job := [0 \<mapsto> ?j], hd_table := [8 \<mapsto> 0]\<rparr>"
  have 1: "handles_reach ?s1"
    by (rule handles_reach_step [OF 0]) (use handle_step.create [of handles0 0 8] in \<open>simp add: handles0_def InvalidHandle_def\<close>)
  let ?s2 = "?s1\<lparr>hd_pc := (\<lambda>_. Free)(1 := Killing 0 8)\<rparr>"
  have 2: "handles_reach ?s2"
    by (rule handles_reach_step [OF 1])
      (use handle_step.kill_reads [of ?s1 1 0 ?j] in \<open>simp add: handles0_def go_to_def InvalidHandle_def\<close>)
  let ?s3 = "?s2\<lparr>hd_closed := {0}, hd_pc := (\<lambda>_. Free)(1 := Killing 0 8, 0 := Closing 0)\<rparr>"
  have 3: "handles_reach ?s3"
    by (rule handles_reach_step [OF 2]) (use handle_step.close_flags [of ?s2 0 0] in \<open>simp add: handles0_def go_to_def\<close>)
  let ?s4 = "?s3\<lparr>hd_pc := (\<lambda>_. Free)(1 := Killing 0 8, 0 := ClosingKill 0 8)\<rparr>"
  have 4: "handles_reach ?s4"
    by (rule handles_reach_step [OF 3])
      (use handle_step.close_reads [of ?s3 0 0 ?j] in \<open>simp add: handles0_def go_to_def InvalidHandle_def\<close>)
  let ?s5 = "?s4\<lparr>hd_uses := [(UseClose, 0, Some 0)], hd_pc := (\<lambda>_. Free)(1 := Killing 0 8, 0 := Releasing 0)\<rparr>"
  have 5: "handles_reach ?s5"
    by (rule handles_reach_step [OF 4])
      (use handle_step.close_kills [of ?s4 0 0 8] in \<open>simp add: handles0_def go_to_def use_handle_def\<close>)
  show ?thesis
    by (rule handles_reach_eq [OF 5 handle_step.close_releases [of _ 0 0 ?j]])
      (simp_all add: handles0_def go_to_def close_job_def overtaken_def InvalidHandle_def fun_eq_iff)
qed

definition misfired :: handles where
  "misfired = overtaken
     \<lparr>hd_table := [8 \<mapsto> 1], hd_job := [0 \<mapsto> \<lparr>wj_handle = InvalidHandle\<rparr>, 1 \<mapsto> \<lparr>wj_handle = 8\<rparr>],
      hd_pc := (\<lambda>_. Free), hd_uses := [(UseClose, 0, Some 0), (UseKill, 0, Some 1)]\<rparr>"

lemma misfired_reach: "handles_reach misfired"
proof -
  let ?s = "overtaken\<lparr>hd_table := [8 \<mapsto> 1], hd_job := [0 \<mapsto> \<lparr>wj_handle = InvalidHandle\<rparr>, 1 \<mapsto> \<lparr>wj_handle = 8\<rparr>]\<rparr>"
  have "handles_reach ?s"
    by (rule handles_reach_step [OF overtaken_reach])
      (use handle_step.create [of overtaken 1 8] in \<open>simp add: overtaken_def handles0_def InvalidHandle_def\<close>)
  then show ?thesis
    by (rule handles_reach_eq [OF _ handle_step.kill_uses [of _ 1 0 8]])
      (simp_all add: misfired_def overtaken_def handles0_def go_to_def use_handle_def fun_eq_iff)
qed

section \<open>Properties\<close>

text \<open>
  Claim C36. However the threads of a program interleave, a start and an adoption put a process into the
  Job Object of their own group, the kill of \<^verbatim>\<open>Close\<close> terminates the job of the group that is closed, every
  use of a job handle reaches the own job while the group has not been closed, and no handle is closed
  twice.
\<close>

theorem job_handles_reach_own_job:
  assumes "handles_reach s" "(u, i, x) \<in> set (hd_uses s)"
  shows "(u \<in> {UseAssign, UseAdopt, UseClose} \<or> i \<notin> hd_closed s \<longrightarrow> x = Some i) \<and> distinct (hd_released s)"
  using handles_inv_reach [OF assms(1)] assms(2)
  by (auto simp: handles_inv_def use_inv_def release_inv_def)

theorem job_handles_reach_own_job_witness:
  "(UseClose, 0, Some 0) \<in> set (hd_uses misfired) \<and> distinct (hd_released misfired)"
  using job_handles_reach_own_job [OF misfired_reach, of UseClose 0 "Some 0"] by (simp add: misfired_def)

text \<open>
  \<^verbatim>\<open>Kill\<close> does not have this: it uses its copy of the handle after it has released the lock, so a
  kill through one group that is overtaken by the close of that group can terminate the job of another
  group, which nobody has closed or killed.
\<close>

theorem overtaken_kill_hits_other_group:
  "\<exists>s. handles_reach s \<and> (UseKill, 0, Some 1) \<in> set (hd_uses s) \<and> 1 \<notin> hd_closed s
    \<and> 1 \<notin> (fst \<circ> snd) ` set (hd_uses s)"
  by (rule exI [of _ misfired]) (simp add: misfired_reach, simp add: misfired_def overtaken_def)

end
