(* ===== verification/Probe.thy ===== *)
theory Probe
  imports Errors
begin

text \<open>
  Readiness probes (\<^verbatim>\<open>probe.go\<close>).  Everything a probe asks of its surroundings, the line channel, the
  timer, the context, the clock and the check itself, is a function of the world.  The wait for a line
  has no bound on the number of lines it may skip, so it is a partial function whose \<open>None\<close> is a wait
  that never ends; the polling probes take the number of rounds they may make.
\<close>

section \<open>Waiting for a line\<close>

text \<open>A receive that does not block, and the choice of the blocking select.\<close>

datatype recv = RLine bytes | RClosed | REmpty

datatype lineEvent = GotLine bytes | LinesClosed | TimerFired | CtxDone goerr

record 'w lineapi =
  la_buffered :: "'w \<Rightarrow> nat"
  la_recv :: "'w \<Rightarrow> recv \<times> 'w"
  la_select :: "'w \<Rightarrow> lineEvent \<times> 'w"

definition nonNegative :: "duration \<Rightarrow> duration" where
  "nonNegative d = (if d < 0 then 0 else d)"

text \<open>The scan of the lines buffered at entry: an answer, or \<open>None\<close> when none of them decides.\<close>

fun scan_buffered ::
    "'w lineapi \<Rightarrow> (bytes \<Rightarrow> bool) \<Rightarrow> goerr \<Rightarrow> nat \<Rightarrow> 'w \<Rightarrow> (goerr + bytes) option \<times> 'w" where
  "scan_buffered A match notReady 0 w = (None, w)"
| "scan_buffered A match notReady (Suc n) w =
    (case la_recv A w of
       (RClosed, w1) \<Rightarrow> (Some (Inl notReady), w1)
     | (RLine t, w1) \<Rightarrow> if match t then (Some (Inr t), w1) else scan_buffered A match notReady n w1
     | (REmpty, w1) \<Rightarrow> (None, w1))"

partial_function (option) await_line ::
    "'w lineapi \<Rightarrow> (bytes \<Rightarrow> bool) \<Rightarrow> goerr \<Rightarrow> 'w \<Rightarrow> ((goerr + bytes) \<times> 'w) option" where
  "await_line A match notReady w =
    (case la_select A w of
       (GotLine t, w1) \<Rightarrow> if match t then Some (Inr t, w1) else await_line A match notReady w1
     | (LinesClosed, w1) \<Rightarrow> Some (Inl notReady, w1)
     | (TimerFired, w1) \<Rightarrow> Some (Inl notReady, w1)
     | (CtxDone e, w1) \<Rightarrow> Some (Inl e, w1))"

definition WaitForLine ::
    "'w lineapi \<Rightarrow> bytes \<Rightarrow> bool \<Rightarrow> (bytes \<Rightarrow> bool) \<Rightarrow> duration \<Rightarrow> 'w \<Rightarrow> ((goerr + bytes) \<times> 'w) option" where
  "WaitForLine A program streaming match within w =
    (if \<not> streaming then Some (Inl (Sentinel ErrStreamNotEnabled), w)
     else (let notReady = NotReadyError program ''line'' within None
           in case scan_buffered A match notReady (la_buffered A w) w of
                (Some ans, w1) \<Rightarrow> Some (ans, w1)
              | (None, w1) \<Rightarrow> await_line A match notReady w1))"

section \<open>Polling\<close>

record 'w pollapi =
  po_check :: "'w \<Rightarrow> (bool \<times> goerr option) \<times> 'w"
  po_exited :: "'w \<Rightarrow> bool \<times> 'w"
  po_now :: "'w \<Rightarrow> int \<times> 'w"
  po_wait :: "duration \<Rightarrow> 'w \<Rightarrow> goerr option \<times> 'w"

definition readinessPoll :: duration where
  "readinessPoll = 50000000"

text \<open>
  The loop of \<^verbatim>\<open>pollUntil\<close>, for at most \<open>fuel\<close> rounds.  \<open>po_wait\<close> is the select of a timer and the
  context: \<open>None\<close> when the timer fired, the context's error otherwise.
\<close>

fun poll_loop ::
    "nat \<Rightarrow> 'w pollapi \<Rightarrow> bytes \<Rightarrow> bytes \<Rightarrow> duration \<Rightarrow> int \<Rightarrow> 'w \<Rightarrow> (goerr option \<times> 'w) option" where
  "poll_loop 0 A program probe within deadline w = None"
| "poll_loop (Suc fuel) A program probe within deadline w =
    (case po_check A w of ((ready, lastErr), w1) \<Rightarrow>
       if ready then Some (None, w1)
       else case po_exited A w1 of (ex, w2) \<Rightarrow>
         if ex then Some (Some (NotReadyError program probe within lastErr), w2)
         else case po_now A w2 of (now, w3) \<Rightarrow>
           (let remaining = deadline - now
            in if remaining \<le> 0 then Some (Some (NotReadyError program probe within lastErr), w3)
               else (let sleep = (if remaining < readinessPoll then remaining else readinessPoll)
                     in case po_wait A sleep w3 of
                          (None, w4) \<Rightarrow> poll_loop fuel A program probe within deadline w4
                        | (Some e, w4) \<Rightarrow> Some (Some e, w4))))"

definition pollUntil ::
    "nat \<Rightarrow> 'w pollapi \<Rightarrow> bytes \<Rightarrow> bytes \<Rightarrow> duration \<Rightarrow> 'w \<Rightarrow> (goerr option \<times> 'w) option" where
  "pollUntil fuel A program probe within w =
    (case po_now A w of (now, w1) \<Rightarrow>
       poll_loop fuel A program probe within (now + nonNegative within) w1)"

definition WaitForPort ::
    "nat \<Rightarrow> 'w pollapi \<Rightarrow> ('w \<Rightarrow> goerr option \<times> 'w) \<Rightarrow> bytes \<Rightarrow> duration \<Rightarrow> 'w \<Rightarrow> (goerr option \<times> 'w) option" where
  "WaitForPort fuel A dial program within w =
    pollUntil fuel (A\<lparr>po_check := \<lambda>w. case dial w of (err, w1) \<Rightarrow> ((err = None, err), w1)\<rparr>)
      program ''port'' within w"

definition WaitFor ::
    "nat \<Rightarrow> 'w pollapi \<Rightarrow> ('w \<Rightarrow> bool \<times> 'w) \<Rightarrow> bytes \<Rightarrow> duration \<Rightarrow> 'w \<Rightarrow> (goerr option \<times> 'w) option" where
  "WaitFor fuel A check program within w =
    pollUntil fuel (A\<lparr>po_check := \<lambda>w. case check w of (b, w1) \<Rightarrow> ((b, None), w1)\<rparr>)
      program ''predicate'' within w"

section \<open>Lines\<close>

text \<open>Selects that deliver these lines, one after the other.\<close>

inductive delivers :: "'w lineapi \<Rightarrow> 'w \<Rightarrow> bytes list \<Rightarrow> 'w \<Rightarrow> bool" for A where
  none: "delivers A w [] w"
| more: "la_select A w = (GotLine t, w1) \<Longrightarrow> delivers A w1 ts w2 \<Longrightarrow> delivers A w (t # ts) w2"

fun line_answer :: "(bytes \<Rightarrow> bool) \<Rightarrow> goerr \<Rightarrow> lineEvent \<Rightarrow> (goerr + bytes) option" where
  "line_answer match notReady (GotLine t) = (if match t then Some (Inr t) else None)"
| "line_answer match notReady (CtxDone e) = Some (Inl e)"
| "line_answer match notReady _ = Some (Inl notReady)"

lemma await_line_sound:
  "await_line A match nr w = Some y \<Longrightarrow>
    \<exists>ts w1 ev. delivers A w ts w1 \<and> list_all (\<lambda>t. \<not> match t) ts
      \<and> la_select A w1 = (ev, snd y) \<and> line_answer match nr ev = Some (fst y)"
proof (induction A match nr w y rule: await_line.raw_induct [rotated, consumes 1, case_names step])
  case (step f A match nr w y)
  obtain ev w1 where ev: "la_select A w = (ev, w1)" by fastforce
  show ?case
  proof (cases "\<exists>t. ev = GotLine t \<and> \<not> match t")
    case True
    then obtain t where t: "ev = GotLine t" "\<not> match t" by blast
    with step(2) ev have "f A match nr w1 = Some y" by simp
    from step(1) [OF this] obtain ts w2 ev' where "delivers A w1 ts w2" "list_all (\<lambda>t. \<not> match t) ts"
      "la_select A w2 = (ev', snd y)" "line_answer match nr ev' = Some (fst y)" by blast
    with ev t show ?thesis by (intro exI [of _ "t # ts"]) (auto intro: more)
  next
    case False
    with step(2) ev have "w1 = snd y" "line_answer match nr ev = Some (fst y)"
      by (auto split: lineEvent.splits if_splits)
    with ev show ?thesis by (intro exI [of _ "[]"]) (auto intro: none)
  qed
qed

lemma await_line_complete:
  assumes "delivers A w ts w1" "list_all (\<lambda>t. \<not> match t) ts"
    "la_select A w1 = (ev, w')" "line_answer match nr ev = Some ans"
  shows "await_line A match nr w = Some (ans, w')"
  using assms
proof (induction rule: delivers.induct)
  case (none w)
  then show ?case by (cases ev) (auto simp: await_line.simps [of A match nr w] split: if_splits)
next
  case (more w t w1 ts w2)
  then show ?case by (simp add: await_line.simps [of A match nr w])
qed

section \<open>Rounds\<close>

text \<open>
  What a probe relies on of the clock: a reading is the time, time does not run backwards, and a timer
  that fires has taken its time.  \<open>slow\<close> bounds the time of one check, and \<open>delay\<close> how long a reading of
  the clock or of the exit may take and how late a timer may fire.
\<close>

definition clocked :: "'w pollapi \<Rightarrow> ('w \<Rightarrow> int) \<Rightarrow> int \<Rightarrow> int \<Rightarrow> bool" where
  "clocked A clock slow delay \<longleftrightarrow>
    (\<forall>w. fst (po_now A w) = clock w
       \<and> clock w \<le> clock (snd (po_now A w)) \<and> clock (snd (po_now A w)) \<le> clock w + delay
       \<and> clock w \<le> clock (snd (po_check A w)) \<and> clock (snd (po_check A w)) \<le> clock w + slow
       \<and> clock w \<le> clock (snd (po_exited A w)) \<and> clock (snd (po_exited A w)) \<le> clock w + delay)
    \<and> (\<forall>d w. fst (po_wait A d w) = None \<longrightarrow>
        clock w + d \<le> clock (snd (po_wait A d w)) \<and> clock (snd (po_wait A d w)) \<le> clock w + d + delay)"

lemma clocked_now:
  "clocked A clock slow delay \<Longrightarrow> po_now A w = (now, w') \<Longrightarrow>
    now = clock w \<and> clock w \<le> clock w' \<and> clock w' \<le> clock w + delay"
  unfolding clocked_def by (metis fst_conv snd_conv)

lemma clocked_check:
  "clocked A clock slow delay \<Longrightarrow> po_check A w = (r, w') \<Longrightarrow>
    clock w \<le> clock w' \<and> clock w' \<le> clock w + slow"
  unfolding clocked_def by (metis snd_conv)

lemma clocked_exited:
  "clocked A clock slow delay \<Longrightarrow> po_exited A w = (ex, w') \<Longrightarrow>
    clock w \<le> clock w' \<and> clock w' \<le> clock w + delay"
  unfolding clocked_def by (metis snd_conv)

lemma clocked_wait:
  "clocked A clock slow delay \<Longrightarrow> po_wait A d w = (None, w') \<Longrightarrow>
    clock w + d \<le> clock w' \<and> clock w' \<le> clock w + d + delay"
  unfolding clocked_def by (metis fst_conv snd_conv)

lemma poll_loop_rounds:
  assumes "clocked A clock slow delay" "deadline - clock w \<le> readinessPoll * int k"
  shows "\<exists>r. poll_loop (Suc k) A program probe within deadline w = Some r"
  using assms(2)
proof (induction k arbitrary: w)
  case (0 w)
  obtain ready err w1 where c: "po_check A w = ((ready, err), w1)" by (metis surj_pair)
  obtain ex w2 where e: "po_exited A w1 = (ex, w2)" by fastforce
  obtain now w3 where n: "po_now A w2 = (now, w3)" by fastforce
  have "clock w \<le> clock w1" "clock w1 \<le> clock w2" "now = clock w2"
    using clocked_check [OF assms(1) c] clocked_exited [OF assms(1) e] clocked_now [OF assms(1) n] by auto
  with 0 have "deadline - now \<le> 0" by simp
  with c e n show ?case by simp
next
  case (Suc k w)
  obtain ready err w1 where c: "po_check A w = ((ready, err), w1)" by (metis surj_pair)
  obtain ex w2 where e: "po_exited A w1 = (ex, w2)" by fastforce
  obtain now w3 where n: "po_now A w2 = (now, w3)" by fastforce
  let ?rem = "deadline - now"
  let ?sleep = "if ?rem < readinessPoll then ?rem else readinessPoll"
  obtain we w4 where s: "po_wait A ?sleep w3 = (we, w4)" by fastforce
  have cl: "clock w \<le> clock w1" "clock w1 \<le> clock w2" "now = clock w2" "clock w2 \<le> clock w3"
    using clocked_check [OF assms(1) c] clocked_exited [OF assms(1) e] clocked_now [OF assms(1) n] by auto
  show ?case
  proof (cases "ready \<or> ex \<or> ?rem \<le> 0 \<or> we \<noteq> None")
    case True
    with c e n s show ?thesis
      by (subst poll_loop.simps) (auto simp: Let_def simp del: poll_loop.simps split: option.split)
  next
    case False
    with s clocked_wait [OF assms(1), of ?sleep w3 w4] have "clock w3 + ?sleep \<le> clock w4" by simp
    with cl Suc.prems have "deadline - clock w4 \<le> readinessPoll * int k"
      by (auto simp: readinessPoll_def split: if_splits)
    from Suc.IH [OF this] False c e n s show ?thesis
      by (subst poll_loop.simps) (simp add: Let_def del: poll_loop.simps)
  qed
qed

text \<open>
  The answer of a probe whose context is not cancelled: nil comes right after a check that passed, and
  not ready after one that failed, with that check's error, when the process has exited or the clock
  has reached the deadline.
\<close>

definition poll_result ::
    "'w pollapi \<Rightarrow> bytes \<Rightarrow> bytes \<Rightarrow> duration \<Rightarrow> int \<Rightarrow> goerr option \<Rightarrow> 'w \<Rightarrow> bool" where
  "poll_result A program probe within deadline r w' \<longleftrightarrow>
    (\<exists>w1 err. po_check A w1 = ((True, err), w') \<and> r = None)
    \<or> (\<exists>w1 w2 w3 ex err. po_check A w1 = ((False, err), w2) \<and> po_exited A w2 = (ex, w3)
         \<and> r = Some (NotReadyError program probe within err)
         \<and> (if ex then w' = w3 else \<exists>now. po_now A w3 = (now, w') \<and> deadline \<le> now))"

lemma poll_result_exited:
  assumes "po_check A w1 = ((False, err), w2)" "po_exited A w2 = (True, w3)"
  shows "poll_result A program probe within deadline (Some (NotReadyError program probe within err)) w3"
  unfolding poll_result_def using assms
  by (intro disjI2 exI [of _ w1] exI [of _ w2] exI [of _ w3] exI [of _ True] exI [of _ err]) simp

lemma poll_result_deadline:
  assumes "po_check A w1 = ((False, err), w2)" "po_exited A w2 = (False, w3)" "po_now A w3 = (now, w4)"
    "deadline \<le> now"
  shows "poll_result A program probe within deadline (Some (NotReadyError program probe within err)) w4"
  unfolding poll_result_def using assms
  by (intro disjI2 exI [of _ w1] exI [of _ w2] exI [of _ w3] exI [of _ False] exI [of _ err]) simp

lemma poll_loop_result:
  assumes "clocked A clock slow delay" "\<And>d w. fst (po_wait A d w) = None"
    "clock w \<le> deadline + 2 * delay"
    "poll_loop fuel A program probe within deadline w = Some (r, w')"
  shows "poll_result A program probe within deadline r w' \<and> clock w' \<le> deadline + slow + 4 * delay"
  using assms(3,4)
proof (induction fuel arbitrary: w)
  case (Suc fuel w)
  obtain ready err w1 where c: "po_check A w = ((ready, err), w1)" by (metis surj_pair)
  obtain ex w2 where e: "po_exited A w1 = (ex, w2)" by fastforce
  obtain now w3 where n: "po_now A w2 = (now, w3)" by fastforce
  let ?rem = "deadline - now"
  let ?sleep = "if ?rem < readinessPoll then ?rem else readinessPoll"
  obtain w4 where s: "po_wait A ?sleep w3 = (None, w4)" using assms(2) by (metis prod.collapse)
  have delay: "0 \<le> delay" using clocked_exited [OF assms(1) e] by simp
  have cl: "clock w1 \<le> clock w + slow" "clock w2 \<le> clock w1 + delay" "now = clock w2"
    "clock w3 \<le> clock w2 + delay" "clock w4 \<le> clock w3 + ?sleep + delay"
    using clocked_check [OF assms(1) c] clocked_exited [OF assms(1) e] clocked_now [OF assms(1) n]
      clocked_wait [OF assms(1) s] by auto
  consider "ready" | "\<not> ready" "ex" | "\<not> ready" "\<not> ex" "?rem \<le> 0" | "\<not> ready" "\<not> ex" "0 < ?rem"
    by linarith
  then show ?case
  proof cases
    case 1
    with Suc.prems c cl delay show ?thesis by (auto simp: poll_result_def)
  next
    case 2
    with Suc.prems(2) c e have "r = Some (NotReadyError program probe within err)" "w' = w2" by auto
    with 2 c e have "poll_result A program probe within deadline r w'"
      using poll_result_exited [of A w err w1 w2] by simp
    with \<open>w' = w2\<close> Suc.prems(1) cl delay show ?thesis by simp
  next
    case 3
    with Suc.prems(2) c e n have "r = Some (NotReadyError program probe within err)" "w' = w3" by auto
    moreover from 3 have "deadline \<le> now" by simp
    ultimately have "poll_result A program probe within deadline r w'"
      using 3 c e n poll_result_deadline [of A w err w1 w2 now w3 deadline] by simp
    with \<open>w' = w3\<close> Suc.prems(1) cl delay show ?thesis by simp
  next
    case 4
    then have "clock w4 \<le> deadline + 2 * delay" using cl by (auto split: if_splits)
    moreover have "poll_loop fuel A program probe within deadline w4 = Some (r, w')"
      using Suc.prems(2) 4 c e n s by (simp add: Let_def)
    ultimately show ?thesis by (rule Suc.IH)
  qed
qed simp

text \<open>A context cancelled while the process runs and time is left ends the wait with its error.\<close>

lemma poll_loop_cancelled:
  assumes "clocked A clock slow delay" "fst (po_check A w) = (False, err)"
    "\<not> fst (po_exited A (snd (po_check A w)))"
    "clock (snd (po_exited A (snd (po_check A w)))) < deadline" "\<And>d w. fst (po_wait A d w) = Some e"
    "poll_loop fuel A program probe within deadline w = Some (r, w')"
  shows "r = Some e"
proof -
  obtain w1 where c: "po_check A w = ((False, err), w1)" using assms(2) by (metis prod.collapse)
  obtain w2 where x: "po_exited A w1 = (False, w2)" using assms(3) c by (metis prod.collapse snd_conv)
  obtain now w3 where n: "po_now A w2 = (now, w3)" by fastforce
  from clocked_now [OF assms(1) n] assms(4) c x have "0 < deadline - now" by simp
  moreover obtain f where "fuel = Suc f" using assms(6) by (cases fuel) auto
  ultimately show ?thesis using assms(6) c x n
    by (simp add: Let_def split: prod.splits option.splits) (metis assms(5) fst_conv option.distinct(1) option.inject)+
qed

section \<open>Properties\<close>

text \<open>
  A wait for a line answers by the first event that decides: it has skipped exactly the lines
  that do not match, and answers the line that matches, not ready when the output ended or the time is
  up, or the context's error; conversely, when such an event comes the wait returns.  Lines after the
  deciding event are left for the reader.
\<close>

theorem line_wait_answers_first_decision:
  "await_line A match nr w = Some (ans, w') \<longleftrightarrow>
    (\<exists>ts w1 ev. delivers A w ts w1 \<and> list_all (\<lambda>t. \<not> match t) ts
      \<and> la_select A w1 = (ev, w') \<and> line_answer match nr ev = Some ans)"
  using await_line_sound [of A match nr w "(ans, w')"] await_line_complete [of A w _ _ match _ w' nr ans]
  by auto

text \<open>
  Claim C31. A polling probe answers in time, on any clock that runs and whatever its rounds are: it
  returns, at most two rounds after one per 50 ms of its deadline.  When its context is not cancelled
  it is back no later than the deadline and the time of one check (and of the readings and the timer of
  that round); it answers nil only right after a check that passed, and otherwise not ready with the
  error of a failed check, after which the process had exited or the deadline had been reached.  When
  the context is cancelled, the first check fails, the process runs and time is left, it answers the
  context's bare error.
\<close>

theorem poll_returns_in_time:
  assumes "clocked A clock slow delay" "nat (nonNegative within div readinessPoll) + 2 \<le> fuel"
  shows "\<exists>r w'. pollUntil fuel A program probe within w = Some (r, w')
    \<and> ((\<forall>d w. fst (po_wait A d w) = None) \<longrightarrow>
        poll_result A program probe within (clock w + nonNegative within) r w'
        \<and> clock w' \<le> clock w + nonNegative within + slow + 4 * delay)
    \<and> (\<forall>e w1 w2 w3 err. (\<forall>d w. fst (po_wait A d w) = Some e) \<and> w1 = snd (po_now A w)
          \<and> po_check A w1 = ((False, err), w2) \<and> po_exited A w2 = (False, w3)
          \<and> clock w3 < clock w + nonNegative within \<longrightarrow> r = Some e)"
proof -
  obtain now w1 where n: "po_now A w = (now, w1)" by fastforce
  from clocked_now [OF assms(1) n] have now: "now = clock w" "now \<le> clock w1" "clock w1 \<le> now + delay" by auto
  obtain k where k: "fuel = Suc k" "nat (nonNegative within div readinessPoll) + 1 \<le> k"
    using assms(2) by (cases fuel) auto
  let ?dl = "clock w + nonNegative within"
  have w: "0 \<le> nonNegative within" by (simp add: nonNegative_def)
  then have "nonNegative within \<le> readinessPoll * int k"
    using k(2) by (simp add: readinessPoll_def)
  with now have "?dl - clock w1 \<le> readinessPoll * int k" by simp
  from poll_loop_rounds [OF assms(1) this, where program = program and probe = probe and within = within] obtain r w' where
    r: "poll_loop fuel A program probe within ?dl w1 = Some (r, w')" by (auto simp: k(1) simp del: poll_loop.simps)
  then have "pollUntil fuel A program probe within w = Some (r, w')" by (simp add: pollUntil_def n now(1))
  moreover have "clock w1 \<le> ?dl + 2 * delay" using now w by linarith
  then have "(\<forall>d w. fst (po_wait A d w) = None) \<longrightarrow>
      poll_result A program probe within ?dl r w' \<and> clock w' \<le> ?dl + slow + 4 * delay"
    using poll_loop_result [OF assms(1) _ _ r] by blast
  moreover have "\<forall>e w1' w2 w3 err. (\<forall>d w. fst (po_wait A d w) = Some e) \<and> w1' = snd (po_now A w)
      \<and> po_check A w1' = ((False, err), w2) \<and> po_exited A w2 = (False, w3) \<and> clock w3 < ?dl \<longrightarrow> r = Some e"
    using poll_loop_cancelled [OF assms(1) _ _ _ _ r] n by auto
  ultimately show ?thesis by (intro exI [of _ r] exI [of _ w'] conjI)
qed

text \<open>A service that is ready after 120 ms, on a clock the timers drive.\<close>

definition demo_poll :: "int pollapi" where
  "demo_poll = \<lparr>po_check = (\<lambda>w. ((120000000 \<le> w, Some (Plain ''refused'')), w)),
     po_exited = (\<lambda>w. (False, w)), po_now = (\<lambda>w. (w, w)), po_wait = (\<lambda>d w. (None, w + d))\<rparr>"

lemma demo_poll_clocked: "clocked demo_poll (\<lambda>w. w) 0 0"
  by (simp add: clocked_def demo_poll_def)

theorem poll_returns_in_time_witness:
  "(\<exists>r w'. pollUntil 4 demo_poll ''svc'' ''port'' 100000000 0 = Some (r, w')
      \<and> poll_result demo_poll ''svc'' ''port'' 100000000 100000000 r w' \<and> w' \<le> 100000000)
   \<and> pollUntil 5 demo_poll ''svc'' ''port'' 150000000 0 = Some (None, 150000000)"
proof
  have "nat (nonNegative 100000000 div readinessPoll) + 2 \<le> 4" by (simp add: nonNegative_def readinessPoll_def)
  moreover have "\<forall>d w. fst (po_wait demo_poll d w) = None" by (simp add: demo_poll_def)
  ultimately show "\<exists>r w'. pollUntil 4 demo_poll ''svc'' ''port'' 100000000 0 = Some (r, w')
      \<and> poll_result demo_poll ''svc'' ''port'' 100000000 100000000 r w' \<and> w' \<le> 100000000"
    using poll_returns_in_time [OF demo_poll_clocked, of 100000000 4 "''svc''" "''port''" 0]
    by (auto simp: nonNegative_def)
  show "pollUntil 5 demo_poll ''svc'' ''port'' 150000000 0 = Some (None, 150000000)"
    by (simp add: pollUntil_def demo_poll_def nonNegative_def readinessPoll_def Let_def eval_nat_numeral)
qed

text \<open>
  A probe without time does not look at its context: with a deadline of zero or less it makes
  one check and answers nil or not ready, also when the context had ended before the call.
\<close>

theorem poll_without_time_ignores_context:
  assumes "clocked A clock slow delay" "within \<le> 0"
  shows "pollUntil (Suc fuel) A program probe within w =
    (case po_check A (snd (po_now A w)) of ((ready, err), w1) \<Rightarrow>
       if ready then Some (None, w1)
       else case po_exited A w1 of (ex, w2) \<Rightarrow>
         Some (Some (NotReadyError program probe within err), if ex then w2 else snd (po_now A w2)))"
proof -
  obtain now w0 where n: "po_now A w = (now, w0)" by fastforce
  obtain ready err w1 where c: "po_check A w0 = ((ready, err), w1)" by (metis surj_pair)
  obtain ex w2 where e: "po_exited A w1 = (ex, w2)" by fastforce
  obtain now' w3 where n': "po_now A w2 = (now', w3)" by fastforce
  have "now \<le> clock w0" "clock w0 \<le> clock w1" "clock w1 \<le> clock w2" "now' = clock w2"
    using clocked_now [OF assms(1) n] clocked_check [OF assms(1) c] clocked_exited [OF assms(1) e]
      clocked_now [OF assms(1) n'] by auto
  then show ?thesis using assms(2) n c e n' by (simp add: pollUntil_def nonNegative_def)
qed

theorem poll_without_time_ignores_context_witness:
  "pollUntil (Suc 0) demo_poll ''svc'' ''port'' 0 7 = Some (Some (NotReadyError ''svc'' ''port'' 0 (Some (Plain ''refused''))), 7)"
  using poll_without_time_ignores_context [OF demo_poll_clocked, of 0 0 "''svc''" "''port''" 7]
  by (simp add: demo_poll_def)

end
