(* ===== verification/Stats.thy ===== *)
theory Stats
  imports Group Proc Probe
begin

text \<open>
  Resource statistics (\<^verbatim>\<open>stats.go\<close>): the snapshot of a group and its sampling, the metrics of one process,
  and the profile of a run.  The choices of the selects, the ticks and the readings are arguments.
\<close>

section \<open>Group snapshots\<close>

record groupStats =
  gst_activeProcesses :: int
  gst_cpuTime :: int64
  gst_hasCPU :: bool
  gst_peakMemory :: uint64
  gst_hasMem :: bool

definition groupStats_CPUTime :: "groupStats \<Rightarrow> int64 \<times> bool" where
  "groupStats_CPUTime s = (gst_cpuTime s, gst_hasCPU s)"

definition groupStats_PeakMemoryBytes :: "groupStats \<Rightarrow> uint64 \<times> bool" where
  "groupStats_PeakMemoryBytes s = (gst_peakMemory s, gst_hasMem s)"

definition group_Stats :: "'w gplatform \<Rightarrow> ('w mach, goerr + groupStats) state" where
  "group_Stats G = do {
     st \<leftarrow> os_call (gp_stats G) (\<lambda>_. []);
     State_Monad.return (case st of
         Inl err \<Rightarrow> Inl (Wrapped ''processkit: reading group stats: '' err)
       | Inr s \<Rightarrow> Inr \<lparr>gst_activeProcesses = int (ss_ActiveProcesses s), gst_cpuTime = ss_CPUTime s,
           gst_hasCPU = ss_HasCPU s, gst_peakMemory = ss_PeakMemoryBytes s, gst_hasMem = ss_HasMem s\<rparr>)
   }"

definition millisecond :: duration where
  "millisecond = 1000000"

definition clamp_interval :: "duration \<Rightarrow> duration" where
  "clamp_interval i = (if i < millisecond then millisecond else i)"

text \<open>
  The sampler of \<^verbatim>\<open>SampleStats\<close> over the rounds it makes: a reading, whether its send was taken (or the
  context ended), and whether the ticker fired (or the context ended).  The answer is what was sent
  and whether the channel has been closed.
\<close>

type_synonym sampleRound = "(goerr + groupStats) \<times> bool \<times> bool"

fun SampleStats :: "sampleRound list \<Rightarrow> groupStats list \<times> bool" where
  "SampleStats [] = ([], False)"
| "SampleStats ((st, taken, ticked) # rs) =
    (case st of
       Inl err \<Rightarrow> ([], True)
     | Inr s \<Rightarrow>
         if \<not> taken then ([], True)
         else if \<not> ticked then ([s], True)
         else (case SampleStats rs of (sent, cl) \<Rightarrow> (s # sent, cl)))"

section \<open>One process\<close>

text \<open>Given whether the process has exited, and its metrics.\<close>

definition running_CPUTime :: "bool \<Rightarrow> procMetrics \<Rightarrow> int64 \<times> bool" where
  "running_CPUTime ex m = (if ex then (0, False) else (case pm_cpu m of Some c \<Rightarrow> (c, True) | None \<Rightarrow> (0, False)))"

definition running_PeakMemoryBytes :: "bool \<Rightarrow> procMetrics \<Rightarrow> uint64 \<times> bool" where
  "running_PeakMemoryBytes ex m =
    (if ex then (0, False) else (case pm_mem m of Some k \<Rightarrow> (k, True) | None \<Rightarrow> (0, False)))"

definition running_Elapsed :: "'w platform \<Rightarrow> running \<Rightarrow> ('w mach, duration) state" where
  "running_Elapsed P rp = do { now \<leftarrow> time_now P; State_Monad.return (now - rp_startTime rp) }"

section \<open>Profiles\<close>

record runProfile =
  pf_exitCode :: int
  pf_hasExitCode :: bool
  pf_duration :: duration
  pf_cpuTime :: int64
  pf_hasCPU :: bool
  pf_peakMemory :: uint64
  pf_hasMem :: bool
  pf_samples :: nat

definition profile_ExitCode :: "runProfile \<Rightarrow> int \<times> bool" where
  "profile_ExitCode p = (pf_exitCode p, pf_hasExitCode p)"

definition AvgCPU :: "runProfile \<Rightarrow> f64 \<times> bool" where
  "AvgCPU p =
    (if \<not> pf_hasCPU p \<or> pf_duration p \<le> 0 then (Fin 0, False)
     else (f_div (duration_Seconds (sint (pf_cpuTime p))) (duration_Seconds (pf_duration p)), True))"

text \<open>
  A tick of the sampler: whether the process was seen exited before the reading, the reading, and
  whether it was seen exited after it.  The sampler's variables are the fields of a profile.
\<close>

type_synonym tick = "bool \<times> procMetrics \<times> bool"

definition profile0 :: runProfile where
  "profile0 = \<lparr>pf_exitCode = 0, pf_hasExitCode = False, pf_duration = 0, pf_cpuTime = 0,
     pf_hasCPU = False, pf_peakMemory = 0, pf_hasMem = False, pf_samples = 0\<rparr>"

fun sample_tick :: "tick \<Rightarrow> runProfile \<Rightarrow> runProfile" where
  "sample_tick (ex1, m, ex2) p =
    (let p1 = p\<lparr>pf_samples := pf_samples p + 1\<rparr>
     in if ex1 then p1
        else if ex2 then p1
        else (let p2 = (case pm_cpu m of Some c \<Rightarrow> p1\<lparr>pf_cpuTime := c, pf_hasCPU := True\<rparr> | None \<Rightarrow> p1)
              in case pm_mem m of
                   Some k \<Rightarrow> if pf_peakMemory p2 < k then p2\<lparr>pf_peakMemory := k, pf_hasMem := True\<rparr> else p2
                 | None \<Rightarrow> p2))"

text \<open>
  \<^verbatim>\<open>Profile\<close>, given the ticks before the sampler stopped, the answer of the wait (the reaped process, or
  \<open>None\<close> when the context ended first, with its error) and the duration.
\<close>

definition Profile :: "tick list \<Rightarrow> reaped option \<Rightarrow> goerr \<Rightarrow> duration \<Rightarrow> runProfile \<times> goerr option" where
  "Profile ticks dn ctxe dur =
    (case running_Wait dn ctxe of (out, werr) \<Rightarrow>
      (let prof = (fold sample_tick ticks profile0)\<lparr>pf_duration := dur\<rparr>
       in (case outcome_Code out of
             Some code \<Rightarrow> prof\<lparr>pf_exitCode := code, pf_hasExitCode := True\<rparr> | None \<Rightarrow> prof,
           werr)))"

section \<open>Samples\<close>

text \<open>The readings that count: those taken of a process seen alive before and after.\<close>

fun readings :: "tick list \<Rightarrow> procMetrics list" where
  "readings [] = []"
| "readings ((ex1, m, ex2) # ts) = (if ex1 \<or> ex2 then readings ts else m # readings ts)"

definition cpu_readings :: "tick list \<Rightarrow> int64 list" where
  "cpu_readings ts = List.map_filter pm_cpu (readings ts)"

definition mem_readings :: "tick list \<Rightarrow> uint64 list" where
  "mem_readings ts = List.map_filter pm_mem (readings ts)"

lemmas reading_defs = cpu_readings_def mem_readings_def List.map_filter_simps

lemma sample_tick_skip: "ex1 \<or> ex2 \<Longrightarrow> sample_tick (ex1, m, ex2) p = p\<lparr>pf_samples := pf_samples p + 1\<rparr>"
  by (auto simp: Let_def)

lemma sample_tick_read:
  "sample_tick (False, m, False) p = p\<lparr>pf_samples := pf_samples p + 1,
     pf_cpuTime := (case pm_cpu m of Some c \<Rightarrow> c | None \<Rightarrow> pf_cpuTime p),
     pf_hasCPU := (pf_hasCPU p \<or> pm_cpu m \<noteq> None),
     pf_peakMemory := (case pm_mem m of Some k \<Rightarrow> max (pf_peakMemory p) k | None \<Rightarrow> pf_peakMemory p),
     pf_hasMem := (pf_hasMem p \<or> (\<exists>k. pm_mem m = Some k \<and> pf_peakMemory p < k))\<rparr>"
  by (cases p) (auto simp: Let_def max_def split: option.splits)

lemma above_max: "(p < x \<or> (\<exists>k \<in> S. max p x < k)) \<longleftrightarrow> p < x \<or> (\<exists>k \<in> S. p < (k :: 'a :: linorder))"
  by (auto simp: max_def)

lemma fold_sample_tick:
  "pf_samples (fold sample_tick ts p) = pf_samples p + length ts
   \<and> pf_cpuTime (fold sample_tick ts p) = last (pf_cpuTime p # cpu_readings ts)
   \<and> pf_hasCPU (fold sample_tick ts p) = (pf_hasCPU p \<or> cpu_readings ts \<noteq> [])
   \<and> pf_peakMemory (fold sample_tick ts p) = fold max (mem_readings ts) (pf_peakMemory p)
   \<and> pf_hasMem (fold sample_tick ts p) = (pf_hasMem p \<or> (\<exists>k \<in> set (mem_readings ts). pf_peakMemory p < k))
   \<and> pf_exitCode (fold sample_tick ts p) = pf_exitCode p
   \<and> pf_hasExitCode (fold sample_tick ts p) = pf_hasExitCode p"
proof (induction ts arbitrary: p)
  case Nil
  then show ?case by (simp add: reading_defs)
next
  case (Cons t ts)
  obtain ex1 m ex2 where t: "t = (ex1, m, ex2)" by (cases t)
  show ?case
  proof (cases "ex1 \<or> ex2")
    case True
    with Cons.IH [of "p\<lparr>pf_samples := pf_samples p + 1\<rparr>"] show ?thesis
      by (simp add: t sample_tick_skip reading_defs del: sample_tick.simps)
  next
    case False
    then have "t = (False, m, False)" by (simp add: t)
    moreover define q where "q = sample_tick t p"
    ultimately have q: "pf_samples q = pf_samples p + 1"
      "pf_cpuTime q = (case pm_cpu m of Some c \<Rightarrow> c | None \<Rightarrow> pf_cpuTime p)"
      "pf_hasCPU q \<longleftrightarrow> pf_hasCPU p \<or> pm_cpu m \<noteq> None"
      "pf_peakMemory q = (case pm_mem m of Some k \<Rightarrow> max (pf_peakMemory p) k | None \<Rightarrow> pf_peakMemory p)"
      "pf_hasMem q \<longleftrightarrow> pf_hasMem p \<or> (\<exists>k. pm_mem m = Some k \<and> pf_peakMemory p < k)"
      "pf_exitCode q = pf_exitCode p" "pf_hasExitCode q = pf_hasExitCode p"
      by (simp_all add: sample_tick_read del: sample_tick.simps)
    have r: "readings (t # ts) = m # readings ts" using False by (simp add: t)
    have f: "fold sample_tick (t # ts) p = fold sample_tick ts q" by (simp add: q_def)
    show ?thesis
      unfolding f using Cons.IH [of q] q above_max [of "pf_peakMemory p"]
      by (cases "pm_cpu m"; cases "pm_mem m") (simp_all add: cpu_readings_def mem_readings_def r
          List.map_filter_simps max.commute)
  qed
qed

section \<open>Properties\<close>

text \<open>
  A profile summarises its samples: it counts every tick, reports the CPU time of the last
  reading and the largest memory reading, uses only readings taken of a process seen alive before and
  after, and says a figure is available exactly when a reading gave it (for memory, one above zero).
\<close>

theorem profile_summarises_samples:
  "case Profile ticks dn ctxe dur of (prof, werr) \<Rightarrow>
     pf_samples prof = length ticks \<and> pf_duration prof = dur
     \<and> pf_cpuTime prof = last (0 # cpu_readings ticks) \<and> (pf_hasCPU prof \<longleftrightarrow> cpu_readings ticks \<noteq> [])
     \<and> pf_peakMemory prof = Max (set (0 # mem_readings ticks))
     \<and> (pf_hasMem prof \<longleftrightarrow> (\<exists>k \<in> set (mem_readings ticks). 0 < k))"
  using fold_sample_tick [of ticks profile0] Max.set_eq_fold [of 0 "mem_readings ticks"]
  by (auto simp: Profile_def Let_def profile0_def split: prod.splits option.splits)

text \<open>
  A profile whose context ends first reports the context's error together with exit code 0,
  said to be known, although the process has not exited; so does one whose reap failed.
\<close>

theorem unfinished_profile_claims_exit_code:
  "(case Profile ticks None ctxe dur of (prof, werr) \<Rightarrow>
     werr = Some ctxe \<and> profile_ExitCode prof = (0, True))
   \<and> (case Profile ticks (Some \<lparr>re_outcome = outcome_zero, re_waitErr = Some e\<rparr>) ctxe dur of (prof, werr) \<Rightarrow>
     werr = Some e \<and> profile_ExitCode prof = (0, True))"
  by (simp add: Profile_def running_Wait_def profile_ExitCode_def outcome_zero_def outcome_Code_def Let_def)

end
