(* ===== verification/Batch.thy ===== *)
theory Batch
  imports Command
begin

text \<open>
  \<^verbatim>\<open>OutputAll\<close> of \<^verbatim>\<open>batch.go\<close>: one goroutine per command behind a semaphore, as a step relation.  What a
  command may answer is a relation, instantiated by the answers \<^verbatim>\<open>Cmd.Output\<close> can give on any machine
  state, since the other commands change the world meanwhile.
\<close>

section \<open>States\<close>

record batchOutput =
  bo_Result :: "result option"
  bo_Err :: "goerr option"

definition batch_output :: "goerr + result \<Rightarrow> batchOutput" where
  "batch_output a = (case a of Inl e \<Rightarrow> \<lparr>bo_Result = None, bo_Err = Some e\<rparr>
     | Inr r \<Rightarrow> \<lparr>bo_Result = Some r, bo_Err = None\<rparr>)"

text \<open>
  A goroutine waits for a token, runs its command, has stored the answer, or has given the token back.
  \<open>bs_asked\<close> is a ghost: the commands run so far.
\<close>

datatype bpc = Queued | Running | Stored | Finished

record batch =
  bs_sem :: nat
  bs_pc :: "nat \<Rightarrow> bpc"
  bs_out :: "nat \<Rightarrow> batchOutput option"
  bs_asked :: "nat list"

definition batch_init :: batch where
  "batch_init = \<lparr>bs_sem = 0, bs_pc = (\<lambda>_. Queued), bs_out = (\<lambda>_. None), bs_asked = []\<rparr>"

definition clamp_concurrency :: "int \<Rightarrow> nat" where
  "clamp_concurrency c = nat (if c < 1 then 1 else c)"

text \<open>The steps of the goroutines of \<open>n\<close> commands with \<open>cap\<close> tokens; \<open>may i a\<close>: command \<open>i\<close> may answer \<open>a\<close>.\<close>

inductive batch_step :: "(nat \<Rightarrow> goerr + result \<Rightarrow> bool) \<Rightarrow> nat \<Rightarrow> nat \<Rightarrow> batch \<Rightarrow> batch \<Rightarrow> bool"
  for may n cap where
  acquire: "i < n \<Longrightarrow> bs_pc s i = Queued \<Longrightarrow> bs_sem s < cap \<Longrightarrow>
    batch_step may n cap s (s\<lparr>bs_sem := bs_sem s + 1, bs_pc := (bs_pc s)(i := Running),
      bs_asked := bs_asked s @ [i]\<rparr>)"
| store: "i < n \<Longrightarrow> bs_pc s i = Running \<Longrightarrow> may i a \<Longrightarrow>
    batch_step may n cap s (s\<lparr>bs_out := (bs_out s)(i \<mapsto> batch_output a), bs_pc := (bs_pc s)(i := Stored)\<rparr>)"
| release: "i < n \<Longrightarrow> bs_pc s i = Stored \<Longrightarrow>
    batch_step may n cap s (s\<lparr>bs_sem := bs_sem s - 1, bs_pc := (bs_pc s)(i := Finished)\<rparr>)"

inductive_cases batch_stepE: "batch_step may n cap s s'"

definition output_may :: "'w platform \<Rightarrow> 'w cmd list \<Rightarrow> ctx \<Rightarrow> nat \<Rightarrow> goerr + result \<Rightarrow> bool" where
  "output_may P cs ctx i a \<longleftrightarrow> (\<exists>m m'. run_state (cmd_Output P (cs ! i) ctx) m = (a, m'))"

text \<open>\<^verbatim>\<open>OutputAll\<close>: the states it can be in, and its return once every goroutine has finished.\<close>

definition OutputAll :: "'w platform \<Rightarrow> ctx \<Rightarrow> 'w cmd list \<Rightarrow> int \<Rightarrow> batch \<Rightarrow> batch \<Rightarrow> bool" where
  "OutputAll P ctx cs concurrency = batch_step (output_may P cs ctx) (length cs) (clamp_concurrency concurrency)"

definition batch_done :: "nat \<Rightarrow> batch \<Rightarrow> bool" where
  "batch_done n s \<longleftrightarrow> list_all (\<lambda>i. bs_pc s i = Finished) [0..<n]"

section \<open>The invariant\<close>

fun holds_token :: "bpc \<Rightarrow> bool" where
  "holds_token Running = True"
| "holds_token Stored = True"
| "holds_token _ = False"

definition holders :: "nat \<Rightarrow> batch \<Rightarrow> nat set" where
  "holders n s = {i. i < n \<and> holds_token (bs_pc s i)}"

lemma finite_holders [simp]: "finite (holders n s)"
  by (simp add: holders_def)

definition batch_inv :: "(nat \<Rightarrow> goerr + result \<Rightarrow> bool) \<Rightarrow> nat \<Rightarrow> nat \<Rightarrow> batch \<Rightarrow> bool" where
  "batch_inv may n cap s \<longleftrightarrow>
    bs_sem s = card (holders n s) \<and> bs_sem s \<le> cap
    \<and> distinct (bs_asked s) \<and> set (bs_asked s) = {i. i < n \<and> bs_pc s i \<noteq> Queued}
    \<and> (\<forall>i. bs_out s i = None \<longleftrightarrow> bs_pc s i = Queued \<or> bs_pc s i = Running)
    \<and> (\<forall>i b. bs_out s i = Some b \<longrightarrow> i < n \<and> (\<exists>a. may i a \<and> b = batch_output a))"

lemma batch_inv_init: "batch_inv may n cap batch_init"
  by (simp add: batch_inv_def batch_init_def holders_def)

lemma batch_inv_step:
  assumes "batch_step may n cap s s'" "batch_inv may n cap s"
  shows "batch_inv may n cap s'"
  using assms(1)
proof cases
  case (acquire i)
  then have "holders n s' = insert i (holders n s)" "i \<notin> holders n s"
    by (auto simp: holders_def)
  with acquire assms(2) show ?thesis by (auto simp: batch_inv_def)
next
  case (store i a)
  then have "holders n s' = holders n s" by (auto simp: holders_def)
  with store assms(2) show ?thesis by (auto simp: batch_inv_def)
next
  case (release i)
  then have "holders n s' = holders n s - {i}" "i \<in> holders n s" by (auto simp: holders_def)
  with release assms(2) show ?thesis by (auto simp: batch_inv_def)
qed

lemma batch_inv_reach: "(batch_step may n cap)\<^sup>*\<^sup>* batch_init s \<Longrightarrow> batch_inv may n cap s"
  by (induction rule: rtranclp_induct) (auto intro: batch_inv_init batch_inv_step)

section \<open>Progress\<close>

fun remaining :: "bpc \<Rightarrow> nat" where
  "remaining Queued = 3"
| "remaining Running = 2"
| "remaining Stored = 1"
| "remaining Finished = 0"

definition work :: "nat \<Rightarrow> batch \<Rightarrow> nat" where
  "work n s = (\<Sum>i<n. remaining (bs_pc s i))"

lemma work_update:
  assumes "i < n" "bs_pc s' = (bs_pc s)(i := c)" "remaining (bs_pc s i) = remaining c + 1"
  shows "work n s' + 1 = work n s"
proof -
  have "(\<Sum>j\<in>{..<n} - {i}. remaining (bs_pc s' j)) = (\<Sum>j\<in>{..<n} - {i}. remaining (bs_pc s j))"
    by (rule sum.cong) (auto simp: assms(2))
  then show ?thesis
    using assms sum.remove [of "{..<n}" i "\<lambda>j. remaining (bs_pc s j)"]
      sum.remove [of "{..<n}" i "\<lambda>j. remaining (bs_pc s' j)"]
    by (simp add: work_def)
qed

lemma work_step:
  assumes "batch_step may n cap s s'"
  shows "work n s' + 1 = work n s"
  using assms
proof cases
  case (acquire i)
  then show ?thesis by (intro work_update [of i n s' s Running]) auto
next
  case (store i a)
  then show ?thesis by (intro work_update [of i n s' s Stored]) auto
next
  case (release i)
  then show ?thesis by (intro work_update [of i n s' s Finished]) auto
qed

lemma work_zero: "work n s = 0 \<longleftrightarrow> batch_done n s"
proof -
  have "remaining c = 0 \<longleftrightarrow> c = Finished" for c by (cases c) auto
  then show ?thesis by (auto simp: work_def batch_done_def list_all_iff)
qed

lemma batch_progress:
  assumes "batch_inv may n cap s" "\<not> batch_done n s" "0 < cap" "\<And>i. i < n \<Longrightarrow> \<exists>a. may i a"
  shows "\<exists>s'. batch_step may n cap s s'"
proof (cases "holders n s = {}")
  case True
  with assms(2) obtain i where i: "i < n" "bs_pc s i \<noteq> Finished" by (auto simp: batch_done_def list_all_iff)
  with True have "bs_pc s i = Queued" by (cases "bs_pc s i") (auto simp: holders_def)
  moreover have "bs_sem s = 0" using True assms(1) by (simp add: batch_inv_def)
  ultimately show ?thesis using i(1) assms(3) acquire [of i n s cap may] by auto
next
  case False
  then obtain i where i: "i < n" "holds_token (bs_pc s i)" by (auto simp: holders_def)
  show ?thesis
  proof (cases "bs_pc s i")
    case Running
    with i(1) assms(4) [OF i(1)] show ?thesis by (blast intro: store)
  next
    case Stored
    with i(1) show ?thesis by (blast intro: release)
  qed (use i in auto)
qed

lemma steps_work: "(batch_step may n cap ^^ k) s s' \<Longrightarrow> work n s' + k = work n s"
proof (induction k arbitrary: s')
  case (Suc k)
  then obtain t where "(batch_step may n cap ^^ k) s t" "batch_step may n cap t s'" by auto
  with Suc.IH [of t] work_step [of may n cap t s'] show ?case by simp
qed simp

lemma batch_completes:
  assumes "batch_inv may n cap s" "0 < cap" "\<And>i. i < n \<Longrightarrow> \<exists>a. may i a"
  shows "\<exists>s'. (batch_step may n cap)\<^sup>*\<^sup>* s s' \<and> batch_done n s'"
  using assms(1)
proof (induction "work n s" arbitrary: s)
  case 0
  then show ?case using work_zero by (metis rtranclp.rtrancl_refl)
next
  case (Suc k)
  then have "\<not> batch_done n s" using work_zero by (metis nat.simps(3))
  then obtain t where t: "batch_step may n cap s t"
    using batch_progress [OF Suc.prems _ assms(2,3)] by blast
  from work_step [OF t] Suc.hyps(2) have "k = work n t" by simp
  from Suc.hyps(1) [OF this batch_inv_step [OF t Suc.prems]] t show ?case
    by (meson converse_rtranclp_into_rtranclp)
qed

lemma clamp_pos [simp]: "0 < clamp_concurrency c"
  by (simp add: clamp_concurrency_def)

section \<open>Properties\<close>

text \<open>
  Claim C24. A batch never runs more commands at once than its concurrency, taken as 1 when it is less,
  and never asks a command twice, in every interleaving of its goroutines; and an output is there
  exactly for the commands that have answered, with one of the answers the command's Output can give.
\<close>

theorem batch_is_bounded:
  assumes "(OutputAll P ctx cs concurrency)\<^sup>*\<^sup>* batch_init s"
  shows "card {i. i < length cs \<and> bs_pc s i = Running} \<le> max 1 (nat concurrency)
    \<and> distinct (bs_asked s) \<and> set (bs_asked s) = {i. i < length cs \<and> bs_pc s i \<noteq> Queued}
    \<and> (\<forall>i b. bs_out s i = Some b \<longrightarrow> i < length cs
        \<and> (\<exists>a m m'. run_state (cmd_Output P (cs ! i) ctx) m = (a, m') \<and> b = batch_output a))"
proof -
  from batch_inv_reach [OF assms [unfolded OutputAll_def]]
  have i: "batch_inv (output_may P cs ctx) (length cs) (clamp_concurrency concurrency) s" .
  have "card {i. i < length cs \<and> bs_pc s i = Running} \<le> card (holders (length cs) s)"
    by (rule card_mono) (auto simp: holders_def)
  also have "\<dots> \<le> clamp_concurrency concurrency" using i by (simp add: batch_inv_def)
  also have "\<dots> \<le> max 1 (nat concurrency)" by (simp add: clamp_concurrency_def)
  finally show ?thesis using i by (auto simp: batch_inv_def output_may_def)
qed

text \<open>A batch of two commands on a platform where every call succeeds.\<close>

definition demo_batch :: "int \<Rightarrow> batch \<Rightarrow> batch \<Rightarrow> bool" where
  "demo_batch = OutputAll (quiet_platform \<lparr>ps_signaled = False, ps_signal = 0, ps_exitCode = 0\<rparr> None) 0
     [mk_Command ''git'' [], mk_Command ''go'' []]"

theorem batch_is_bounded_witness:
  "\<exists>s. demo_batch 0 batch_init s \<and> bs_asked s = [1]
     \<and> card {i. i < (2 :: nat) \<and> bs_pc s i = Running} \<le> 1"
proof -
  let ?s = "batch_init\<lparr>bs_sem := bs_sem batch_init + 1, bs_pc := (bs_pc batch_init)(1 := Running),
    bs_asked := bs_asked batch_init @ [1]\<rparr>"
  have st: "demo_batch 0 batch_init ?s"
    unfolding demo_batch_def OutputAll_def by (rule acquire) (simp_all add: batch_init_def)
  have "(demo_batch 0)\<^sup>*\<^sup>* batch_init ?s" by (rule r_into_rtranclp) (rule st)
  from batch_is_bounded [OF this [unfolded demo_batch_def]] st show ?thesis
    by (intro exI [of _ ?s]) (simp add: batch_init_def numeral_2_eq_2)
qed

text \<open>
  Claim C25. A batch returns, whatever the scheduler does: no run of its goroutines is longer than three
  steps a command, a run that can go no further has finished every command, from every state a finish
  is within reach, and then every command has been asked once and has its own output.
\<close>

theorem batch_always_returns:
  assumes "(OutputAll P ctx cs concurrency ^^ k) batch_init s"
  shows "k \<le> 3 * length cs
    \<and> ((\<nexists>s'. OutputAll P ctx cs concurrency s s') \<longrightarrow> batch_done (length cs) s)
    \<and> (\<exists>s'. (OutputAll P ctx cs concurrency)\<^sup>*\<^sup>* s s' \<and> batch_done (length cs) s')
    \<and> (batch_done (length cs) s \<longrightarrow> k = 3 * length cs
        \<and> distinct (bs_asked s) \<and> set (bs_asked s) = {0..<length cs}
        \<and> (\<forall>i < length cs. bs_out s i \<noteq> None))"
proof -
  let ?n = "length cs" and ?may = "output_may P cs ctx" and ?cap = "clamp_concurrency concurrency"
  from assms have st: "(batch_step ?may ?n ?cap ^^ k) batch_init s" by (simp add: OutputAll_def)
  then have "(batch_step ?may ?n ?cap)\<^sup>*\<^sup>* batch_init s" by (rule relpowp_imp_rtranclp)
  then have i: "batch_inv ?may ?n ?cap s" by (rule batch_inv_reach)
  have m: "\<exists>a. ?may i a" for i unfolding output_may_def by (metis surj_pair)
  have w: "work ?n s + k = 3 * ?n" using steps_work [OF st] by (simp add: work_def batch_init_def)
  have "batch_done ?n s \<longrightarrow> k = 3 * ?n \<and> distinct (bs_asked s) \<and> set (bs_asked s) = {0..<?n}
      \<and> (\<forall>i < ?n. bs_out s i \<noteq> None)"
    using w i work_zero [of ?n s] by (auto simp: batch_inv_def batch_done_def list_all_iff)
  then show ?thesis
    using w batch_progress [OF i _ clamp_pos m] batch_completes [OF i clamp_pos m]
    unfolding OutputAll_def by auto
qed

theorem batch_always_returns_witness:
  "\<exists>s. (demo_batch 1)\<^sup>*\<^sup>* batch_init s \<and> batch_done 2 s"
proof -
  have "(demo_batch 1 ^^ 0) batch_init batch_init" by simp
  from batch_always_returns [OF this [unfolded demo_batch_def]] show ?thesis
    by (simp add: demo_batch_def numeral_2_eq_2)
qed

end
