(* ===== verification/Doubles.thy ===== *)
theory Doubles
  imports Runner
begin

text \<open>
  The test doubles of \<^verbatim>\<open>processkittest/doubles.go\<close>: canned replies, the scripted runner with its
  rules and reply sequences, and the recording runner.  \<open>sequenced\<close> is the contract of everything
  that plays recorded items in order and then repeats the last one; the scripted runner provides it
  here and the cassette player in \<open>Cassette\<close>.
\<close>

section \<open>Playing a sequence\<close>

text \<open>
  The next item of a sequence and the cursor after it: an exhausted sequence repeats its last item.
\<close>

definition play :: "nat \<Rightarrow> 'a list \<Rightarrow> 'a \<times> nat" where
  "play next xs =
    (if length xs \<le> next then (xs ! (length xs - 1), next) else (xs ! next, next + 1))"

fun run_all :: "('i \<Rightarrow> ('s, 'b) state) \<Rightarrow> 'i list \<Rightarrow> 's \<Rightarrow> 'b list \<times> 's" where
  "run_all f [] s = ([], s)"
| "run_all f (i # is) s =
    (case run_state (f i) s of (b, s') \<Rightarrow> case run_all f is s' of (bs, s'') \<Rightarrow> (b # bs, s''))"

lemma fst_run_all_Cons [simp]:
  "fst (run_all f (i # is) s) = fst (run_state (f i) s) # fst (run_all f is (snd (run_state (f i) s)))"
  by (simp split: prod.splits)

lemma snd_run_all_Cons [simp]:
  "snd (run_all f (i # is) s) = snd (run_all f is (snd (run_state (f i) s)))"
  by (simp split: prod.splits)

declare run_all.simps(2) [simp del]

lemma run_all_length: "length (fst (run_all f is s)) = length is"
  by (induction "is" arbitrary: s) auto

locale sequenced =
  fixes serve :: "'i \<Rightarrow> ('s, 'a option) state"
    and good :: "'s \<Rightarrow> bool"
    and key :: "'i \<Rightarrow> 'k option"
    and items :: "'k \<Rightarrow> 'a list"
    and cursor :: "'s \<Rightarrow> 'k \<Rightarrow> nat"
    and default :: "'a option"
  assumes hit: "good s \<Longrightarrow> key i = Some k \<Longrightarrow>
      \<exists>s'. run_state (serve i) s = (Some (fst (play (cursor s k) (items k))), s') \<and> good s'
        \<and> cursor s' = (cursor s)(k := snd (play (cursor s k) (items k)))"
    and miss: "good s \<Longrightarrow> key i = None \<Longrightarrow> run_state (serve i) s = (default, s)"
begin

text \<open>The answer to the \<open>j\<close>-th request, from the requests alone.\<close>

abbreviation expected :: "'s \<Rightarrow> 'i list \<Rightarrow> nat \<Rightarrow> 'a option" where
  "expected s is j \<equiv>
    (case key (is ! j) of
       None \<Rightarrow> default
     | Some k \<Rightarrow> Some (items k ! min (cursor s k + length (filter (\<lambda>i. key i = Some k) (take j is)))
         (length (items k) - 1)))"

lemma served:
  assumes "good s" "j < length is"
  shows "fst (run_all serve is s) ! j = expected s is j"
  using assms
proof (induction "is" arbitrary: s j)
  case Nil
  then show ?case by simp
next
  case (Cons i "is")
  show ?case
  proof (cases "key i")
    case None
    with miss [OF Cons.prems(1)] have r: "run_state (serve i) s = (default, s)" by simp
    show ?thesis
    proof (cases j)
      case 0
      with r None show ?thesis by simp
    next
      case (Suc j')
      with Cons have "fst (run_all serve is s) ! j' = expected s is j'" by simp
      with r None Suc show ?thesis by (simp split: option.splits)
    qed
  next
    case (Some k)
    with hit [OF Cons.prems(1)] obtain s' where
      s': "run_state (serve i) s = (Some (fst (play (cursor s k) (items k))), s')" "good s'"
        "cursor s' = (cursor s)(k := snd (play (cursor s k) (items k)))" by blast
    show ?thesis
    proof (cases j)
      case 0
      with s'(1) Some show ?thesis by (cases "items k") (auto simp: play_def min_def)
    next
      case (Suc j')
      with Cons s'(2) have "fst (run_all serve is s') ! j' = expected s' is j'" by simp
      with s'(1,3) Suc Some show ?thesis
        by (auto simp: play_def split: option.splits)
    qed
  qed
qed

text \<open>The requests of one key are given its items one after the other, whatever is asked in between.\<close>

lemma served_key:
  assumes "good s"
  shows "map snd (filter (\<lambda>(i, a). key i = Some k) (zip is (fst (run_all serve is s))))
    = map (\<lambda>n. Some (items k ! min (cursor s k + n) (length (items k) - 1)))
        [0..<length (filter (\<lambda>i. key i = Some k) is)]"
  using assms
proof (induction "is" arbitrary: s)
  case (Cons i "is")
  show ?case
  proof (cases "key i")
    case None
    with miss [OF Cons.prems] Cons show ?thesis by simp
  next
    case (Some k')
    with hit [OF Cons.prems] obtain s' where
      s': "run_state (serve i) s = (Some (fst (play (cursor s k') (items k'))), s')" "good s'"
        "cursor s' = (cursor s)(k' := snd (play (cursor s k') (items k')))" by blast
    show ?thesis
    proof (cases "k' = k")
      case False
      with Some s' Cons.IH [OF s'(2)] show ?thesis by simp
    next
      case True
      have "fst (play (cursor s k) (items k)) = items k ! min (cursor s k) (length (items k) - 1)"
        by (cases "items k") (auto simp: play_def min_def)
      moreover have "min (snd (play (cursor s k) (items k)) + n) (length (items k) - 1)
          = min (cursor s k + Suc n) (length (items k) - 1)" for n
        by (auto simp: play_def)
      ultimately show ?thesis using True Some s' Cons.IH [OF s'(2)]
        by (simp add: upt_conv_Cons map_Suc_upt [symmetric] del: upt_Suc)
    qed
  qed
qed simp

end

section \<open>Replies\<close>

record reply =
  rp_outcome :: outcome
  rp_stdout :: bytes
  rp_stderr :: bytes
  rp_err :: "goerr option"
  rp_pending :: bool

text \<open>The zero \<^verbatim>\<open>Reply\<close>; the zero outcome is \<open>exited 0\<close>.\<close>

definition reply0 :: reply where
  "reply0 = \<lparr>rp_outcome = exited 0, rp_stdout = [], rp_stderr = [], rp_err = None, rp_pending = False\<rparr>"

definition reply_OK :: "bytes \<Rightarrow> reply" where
  "reply_OK stdout = reply0\<lparr>rp_outcome := mk_Exited 0, rp_stdout := stdout\<rparr>"

definition reply_Fail :: "int \<Rightarrow> bytes \<Rightarrow> reply" where
  "reply_Fail code stderr = reply0\<lparr>rp_outcome := mk_Exited code, rp_stderr := stderr\<rparr>"

definition reply_TimedOut :: reply where
  "reply_TimedOut = reply0\<lparr>rp_outcome := mk_TimedOut\<rparr>"

definition reply_Signalled :: "int \<Rightarrow> reply" where
  "reply_Signalled sig = reply0\<lparr>rp_outcome := mk_Signalled sig\<rparr>"

definition reply_Err :: "goerr \<Rightarrow> reply" where
  "reply_Err err = reply0\<lparr>rp_err := Some err\<rparr>"

definition reply_Pending :: reply where
  "reply_Pending = reply0\<lparr>rp_pending := True\<rparr>"

definition reply_WithStdout :: "bytes \<Rightarrow> reply \<Rightarrow> reply" where
  "reply_WithStdout s r = r\<lparr>rp_stdout := s\<rparr>"

definition reply_WithStderr :: "bytes \<Rightarrow> reply \<Rightarrow> reply" where
  "reply_WithStderr s r = r\<lparr>rp_stderr := s\<rparr>"

text \<open>
  \<^verbatim>\<open>resolve\<close>, given the error the context ends with.  A pending reply to a context that never ends
  does not return: \<open>None\<close>.
\<close>

definition reply_resolve :: "goerr option \<Rightarrow> invocation \<Rightarrow> reply \<Rightarrow> (goerr + result) option" where
  "reply_resolve ended iv r =
    (if rp_pending r then map_option (\<lambda>cause. Inl (CancelError (inv_Program iv) (Some cause))) ended
     else case rp_err r of
         Some err \<Rightarrow> Some (Inl err)
       | None \<Rightarrow> Some (Inr (newResult iv (rp_outcome r) (rp_stdout r) (rp_stderr r))))"

section \<open>The scripted runner\<close>

record rule =
  ru_prefix :: "bytes list"
  ru_predicate :: "(invocation \<Rightarrow> bool) option"
  ru_replies :: "reply list"
  ru_cursor :: nat

record scripted =
  sr_rules :: "rule list"
  sr_fallback :: "reply option"

definition NewScriptedRunner :: scripted where
  "NewScriptedRunner = \<lparr>sr_rules = [], sr_fallback = None\<rparr>"

definition add_rule :: "bytes list \<Rightarrow> (invocation \<Rightarrow> bool) option \<Rightarrow> reply list \<Rightarrow> scripted \<Rightarrow> scripted" where
  "add_rule pre pred rs s = s\<lparr>sr_rules := sr_rules s
     @ [\<lparr>ru_prefix = pre, ru_predicate = pred, ru_replies = rs, ru_cursor = 0\<rparr>]\<rparr>"

definition scripted_On :: "bytes list \<Rightarrow> reply \<Rightarrow> scripted \<Rightarrow> scripted" where
  "scripted_On pre r s = add_rule pre None [r] s"

text \<open>\<^verbatim>\<open>OnSequence\<close> panics (\<open>None\<close>) when it is given no reply.\<close>

definition scripted_OnSequence :: "bytes list \<Rightarrow> reply list \<Rightarrow> scripted \<Rightarrow> scripted option" where
  "scripted_OnSequence pre rs s = (if rs = [] then None else Some (add_rule pre None rs s))"

definition scripted_When :: "(invocation \<Rightarrow> bool) \<Rightarrow> reply \<Rightarrow> scripted \<Rightarrow> scripted" where
  "scripted_When pred r s = add_rule [] (Some pred) [r] s"

definition scripted_Fallback :: "reply \<Rightarrow> scripted \<Rightarrow> scripted" where
  "scripted_Fallback r s = s\<lparr>sr_fallback := Some r\<rparr>"

definition rule_matches :: "rule \<Rightarrow> invocation \<Rightarrow> bool" where
  "rule_matches ru iv =
    (case ru_predicate ru of
       Some p \<Rightarrow> p iv
     | None \<Rightarrow>
         (let full = inv_Program iv # inv_Args iv
          in if length full < length (ru_prefix ru) then False
             else list_all (\<lambda>i. full ! i = ru_prefix ru ! i) [0..<length (ru_prefix ru)]))"

fun match_rules :: "invocation \<Rightarrow> rule list \<Rightarrow> reply option \<times> rule list" where
  "match_rules iv [] = (None, [])"
| "match_rules iv (ru # rus) =
    (if \<not> rule_matches ru iv
     then (case match_rules iv rus of (r, rus') \<Rightarrow> (r, ru # rus'))
     else (case play (ru_cursor ru) (ru_replies ru) of
             (r, next) \<Rightarrow> (Some r, ru\<lparr>ru_cursor := next\<rparr> # rus)))"

definition scripted_match :: "invocation \<Rightarrow> (scripted, reply option) state" where
  "scripted_match iv = State (\<lambda>s.
    case match_rules iv (sr_rules s) of
      (Some r, rus) \<Rightarrow> (Some r, s\<lparr>sr_rules := rus\<rparr>)
    | (None, rus) \<Rightarrow> (sr_fallback s, s))"

definition scripted_Output ::
    "(ctx \<Rightarrow> goerr option) \<Rightarrow> ctx \<Rightarrow> invocation \<Rightarrow> (scripted, (goerr + result) option) state" where
  "scripted_Output ended ctx iv = do {
     m \<leftarrow> scripted_match iv;
     State_Monad.return (case m of
         None \<Rightarrow> Some (Inl (NotFoundError (inv_Program iv) []))
       | Some r \<Rightarrow> reply_resolve (ended ctx) iv r)
   }"

section \<open>The recording runner\<close>

text \<open>
  The invocation is recorded before the inner runner is asked.  The copy the code makes of the
  slices (\<^verbatim>\<open>cloneInvocation\<close>) is the identity on values.
\<close>

record 's recording =
  rc_inner :: 's
  rc_calls :: "invocation list"

definition recording_Output ::
    "(ctx \<Rightarrow> invocation \<Rightarrow> ('s, goerr + result) state)
     \<Rightarrow> ctx \<Rightarrow> invocation \<Rightarrow> ('s recording, goerr + result) state" where
  "recording_Output inner ctx iv = State (\<lambda>s.
    let s1 = s\<lparr>rc_calls := rc_calls s @ [iv]\<rparr>
    in case run_state (inner ctx iv) (rc_inner s1) of (r, i') \<Rightarrow> (r, s1\<lparr>rc_inner := i'\<rparr>))"

definition NewRecordingRunner :: "'s \<Rightarrow> 's recording" where
  "NewRecordingRunner inner = \<lparr>rc_inner = inner, rc_calls = []\<rparr>"

definition Replying :: "reply \<Rightarrow> scripted recording" where
  "Replying r = NewRecordingRunner (scripted_Fallback r NewScriptedRunner)"

definition recording_Calls :: "'s recording \<Rightarrow> invocation list" where
  "recording_Calls s = rc_calls s"

text \<open>\<^verbatim>\<open>OnlyCall\<close> panics (\<open>None\<close>) unless exactly one call was recorded.\<close>

definition OnlyCall :: "'s recording \<Rightarrow> invocation option" where
  "OnlyCall s = (if length (rc_calls s) \<noteq> 1 then None else Some (rc_calls s ! 0))"

section \<open>Rules and their sequences\<close>

lemma prefix_nth: "prefix p f \<longleftrightarrow> length p \<le> length f \<and> (\<forall>i < length p. f ! i = p ! i)"
proof
  assume "length p \<le> length f \<and> (\<forall>i < length p. f ! i = p ! i)"
  then have "take (length p) f = p" by (intro nth_equalityI) auto
  then show "prefix p f" by (metis take_is_prefix)
qed (auto simp: prefix_def nth_append)

lemma rule_matches_prefix:
  "ru_predicate ru = None \<Longrightarrow>
    rule_matches ru iv \<longleftrightarrow> prefix (ru_prefix ru) (inv_Program iv # inv_Args iv)"
  by (simp add: rule_matches_def Let_def list_all_iff prefix_nth not_less) auto

fun first_rule :: "rule list \<Rightarrow> invocation \<Rightarrow> nat option" where
  "first_rule [] iv = None"
| "first_rule (ru # rus) iv =
    (if rule_matches ru iv then Some 0 else map_option Suc (first_rule rus iv))"

definition cursors :: "rule list \<Rightarrow> nat \<Rightarrow> nat" where
  "cursors rus k = (if k < length rus then ru_cursor (rus ! k) else 0)"

definition erase :: "rule \<Rightarrow> rule" where
  "erase ru = ru\<lparr>ru_cursor := 0\<rparr>"

lemma erase_simps [simp]:
  "ru_replies (erase ru) = ru_replies ru"
  "erase (ru\<lparr>ru_cursor := n\<rparr>) = erase ru"
  by (simp_all add: erase_def)

lemma rule_matches_erase [simp]: "rule_matches (erase ru) iv = rule_matches ru iv"
  by (cases "ru_predicate ru") (simp_all add: rule_matches_def erase_def)

lemma first_rule_erase: "map erase rus = map erase rus' \<Longrightarrow> first_rule rus iv = first_rule rus' iv"
proof (induction rus arbitrary: rus')
  case (Cons ru rus)
  then obtain ru' rs where r: "rus' = ru' # rs" "erase ru' = erase ru" "map erase rus = map erase rs" by auto
  then have "rule_matches ru' iv = rule_matches ru iv" by (metis rule_matches_erase)
  with r Cons.IH [OF r(3)] show ?case by simp
qed simp

lemma first_rule_length: "first_rule rus iv = Some k \<Longrightarrow> k < length rus"
  by (induction rus arbitrary: k) (auto split: if_splits)

lemma match_rules_miss: "first_rule rus iv = None \<Longrightarrow> match_rules iv rus = (None, rus)"
  by (induction rus) (auto split: if_splits)

lemma match_rules_hit:
  "first_rule rus iv = Some k \<Longrightarrow>
    match_rules iv rus = (Some (fst (play (ru_cursor (rus ! k)) (ru_replies (rus ! k)))),
      rus[k := (rus ! k)\<lparr>ru_cursor := snd (play (ru_cursor (rus ! k)) (ru_replies (rus ! k)))\<rparr>])"
  by (induction rus arbitrary: k) (auto split: if_splits prod.splits)

text \<open>A well-formed script has a reply in every rule; the builders keep that.\<close>

definition scripted_wf :: "scripted \<Rightarrow> bool" where
  "scripted_wf s \<longleftrightarrow> list_all (\<lambda>ru. ru_replies ru \<noteq> []) (sr_rules s)"

definition same_script :: "scripted \<Rightarrow> scripted \<Rightarrow> bool" where
  "same_script s0 s \<longleftrightarrow> map erase (sr_rules s) = map erase (sr_rules s0) \<and> sr_fallback s = sr_fallback s0"

lemma same_script_replies:
  "same_script s0 s \<Longrightarrow> k < length (sr_rules s0) \<Longrightarrow> ru_replies (sr_rules s ! k) = ru_replies (sr_rules s0 ! k)"
  unfolding same_script_def by (metis erase_simps(1) length_map nth_map)

lemma same_script_length: "same_script s0 s \<Longrightarrow> length (sr_rules s) = length (sr_rules s0)"
  unfolding same_script_def by (metis length_map)

interpretation scripted: sequenced scripted_match "same_script s0" "first_rule (sr_rules s0)"
  "\<lambda>k. ru_replies (sr_rules s0 ! k)" "\<lambda>s. cursors (sr_rules s)" "sr_fallback s0" for s0
proof unfold_locales
  fix s iv k
  assume s: "same_script s0 s" and k: "first_rule (sr_rules s0) iv = Some k"
  then have f: "first_rule (sr_rules s) iv = Some k"
    using first_rule_erase unfolding same_script_def by metis
  let ?r = "sr_rules s ! k"
  let ?s' = "s\<lparr>sr_rules := (sr_rules s)[k := ?r\<lparr>ru_cursor := snd (play (ru_cursor ?r) (ru_replies ?r))\<rparr>]\<rparr>"
  have kl: "k < length (sr_rules s)" "k < length (sr_rules s0)"
    using first_rule_length f k by blast+
  have "run_state (scripted_match iv) s = (Some (fst (play (ru_cursor ?r) (ru_replies ?r))), ?s')"
    by (simp add: scripted_match_def match_rules_hit [OF f])
  moreover have "same_script s0 ?s'"
    using s kl by (auto simp: same_script_def map_update) (metis list_update_id nth_map)
  moreover have "cursors (sr_rules ?s') = (cursors (sr_rules s))
      (k := snd (play (cursors (sr_rules s) k) (ru_replies (sr_rules s0 ! k))))"
    using kl same_script_replies [OF s kl(2)] by (auto simp: cursors_def fun_eq_iff nth_list_update)
  moreover have "ru_cursor ?r = cursors (sr_rules s) k" "ru_replies ?r = ru_replies (sr_rules s0 ! k)"
    using kl same_script_replies [OF s kl(2)] by (simp_all add: cursors_def)
  ultimately show "\<exists>s'. run_state (scripted_match iv) s
      = (Some (fst (play (cursors (sr_rules s) k) (ru_replies (sr_rules s0 ! k)))), s')
      \<and> same_script s0 s' \<and> cursors (sr_rules s') = (cursors (sr_rules s))
        (k := snd (play (cursors (sr_rules s) k) (ru_replies (sr_rules s0 ! k))))"
    by (intro exI [of _ ?s']) simp
next
  fix s iv
  assume s: "same_script s0 s" and k: "first_rule (sr_rules s0) iv = None"
  then have "first_rule (sr_rules s) iv = None"
    using first_rule_erase unfolding same_script_def by metis
  with s show "run_state (scripted_match iv) s = (sr_fallback s0, s)"
    by (simp add: scripted_match_def match_rules_miss same_script_def)
qed

lemma same_script_refl [simp]: "same_script s s"
  by (simp add: same_script_def)

lemma match_rules_wf:
  "list_all (\<lambda>ru. ru_replies ru \<noteq> []) rus \<Longrightarrow>
    list_all (\<lambda>ru. ru_replies ru \<noteq> []) (snd (match_rules iv rus))"
  by (induction rus) (auto split: prod.splits)

lemmas scripted_defs = scripted_wf_def NewScriptedRunner_def add_rule_def scripted_On_def
  scripted_OnSequence_def scripted_When_def scripted_Fallback_def

lemmas reply_defs = reply0_def reply_OK_def reply_Fail_def reply_TimedOut_def reply_Signalled_def
  reply_Err_def reply_Pending_def reply_WithStdout_def reply_WithStderr_def

section \<open>The doubles are runners\<close>

text \<open>When every context ends, a scripted call returns.\<close>

definition scripted_run ::
    "(ctx \<Rightarrow> goerr) \<Rightarrow> ctx \<Rightarrow> invocation \<Rightarrow> (scripted, goerr + result) state" where
  "scripted_run ended ctx iv = State (\<lambda>s.
    case run_state (scripted_Output (\<lambda>c. Some (ended c)) ctx iv) s of (r, s') \<Rightarrow> (the r, s'))"

lemma reply_resolve_answers:
  "reply_resolve e iv r = Some (Inr res) \<Longrightarrow>
    r_program res = inv_Program iv \<and> r_args res = inv_Args iv \<and> r_okCodes res = inv_OkCodes iv"
  by (auto simp: reply_resolve_def newResult_def split: if_splits option.splits)

lemma reply_resolve_returns: "\<exists>a. reply_resolve (Some e) iv r = Some a"
  by (auto simp: reply_resolve_def split: option.splits)

lemma run_scripted_Output:
  "run_state (scripted_Output ended ctx iv) s =
    (case run_state (scripted_match iv) s of (m, s') \<Rightarrow>
      (case m of None \<Rightarrow> Some (Inl (NotFoundError (inv_Program iv) [])) | Some r \<Rightarrow> reply_resolve (ended ctx) iv r, s'))"
  by (simp add: scripted_Output_def split: prod.splits)

lemma scripted_Output_all:
  "fst (run_all (\<lambda>(c, iv). scripted_Output ended c iv) calls s) =
    map2 (\<lambda>(c, iv) m. case m of None \<Rightarrow> Some (Inl (NotFoundError (inv_Program iv) []))
      | Some r \<Rightarrow> reply_resolve (ended c) iv r) calls (fst (run_all scripted_match (map snd calls) s))"
  by (induction calls arbitrary: s) (auto simp: run_scripted_Output split: prod.splits)

interpretation scripted_runner: process_runner "scripted_run ended" for ended
proof unfold_locales
  fix c iv s r s'
  assume run: "run_state (scripted_run ended c iv) s = (Inr r, s')"
  obtain m s1 where "run_state (scripted_match iv) s = (m, s1)" by fastforce
  with run obtain rp where rp: "m = Some rp" "Inr r = the (reply_resolve (Some (ended c)) iv rp)"
    by (cases m) (auto simp: scripted_run_def run_scripted_Output)
  with reply_resolve_returns [of "ended c" iv rp] have "reply_resolve (Some (ended c)) iv rp = Some (Inr r)"
    by auto
  then show "r_program r = inv_Program iv \<and> r_args r = inv_Args iv \<and> r_okCodes r = inv_OkCodes iv"
    by (rule reply_resolve_answers)
qed

context process_runner begin

lemma recording_answers: "process_runner (recording_Output run_output)"
  by unfold_locales (auto simp: recording_Output_def Let_def split: prod.splits dest: answers)

end

interpretation recording_job_runner: process_runner "recording_Output (JobRunner_Output P l)" for P l
  by (rule job_runner.recording_answers)

section \<open>Properties\<close>

text \<open>The rule a script means for an invocation: its predicate, or its prefix of the command line.\<close>

definition rule_selects :: "rule \<Rightarrow> invocation \<Rightarrow> bool" where
  "rule_selects ru iv \<longleftrightarrow> (case ru_predicate ru of
     Some p \<Rightarrow> p iv | None \<Rightarrow> prefix (ru_prefix ru) (inv_Program iv # inv_Args iv))"

lemma rule_matches_selects: "rule_matches ru iv = rule_selects ru iv"
  by (cases "ru_predicate ru") (simp_all add: rule_selects_def rule_matches_prefix, simp add: rule_matches_def)

text \<open>
  The reply a script gives and the rules after it: that of the first rule meant, at a position inside
  its replies, the cursor's or the last one.
\<close>

definition plays_reply :: "invocation \<Rightarrow> rule list \<Rightarrow> reply \<Rightarrow> rule list \<Rightarrow> bool" where
  "plays_reply iv rus r rus' \<longleftrightarrow>
    (\<exists>pre ru post n. rus = pre @ ru # post \<and> list_all (\<lambda>u. \<not> rule_selects u iv) pre \<and> rule_selects ru iv
      \<and> n < length (ru_replies ru) \<and> r = ru_replies ru ! n
      \<and> (if ru_cursor ru < length (ru_replies ru) then n = ru_cursor ru \<and> rus' = pre @ ru\<lparr>ru_cursor := n + 1\<rparr> # post
         else Suc n = length (ru_replies ru) \<and> rus' = rus))"

lemma plays_reply_later:
  assumes "plays_reply iv rus r rus'" "\<not> rule_selects u iv"
  shows "plays_reply iv (u # rus) r (u # rus')"
proof -
  from assms(1) obtain pre ru post n where r: "rus = pre @ ru # post" "list_all (\<lambda>u. \<not> rule_selects u iv) pre"
    "rule_selects ru iv" "n < length (ru_replies ru)" "r = ru_replies ru ! n"
    "if ru_cursor ru < length (ru_replies ru) then n = ru_cursor ru \<and> rus' = pre @ ru\<lparr>ru_cursor := n + 1\<rparr> # post
     else Suc n = length (ru_replies ru) \<and> rus' = rus"
    unfolding plays_reply_def by blast
  with assms(2) show ?thesis unfolding plays_reply_def
    by (intro exI [of _ "u # pre"] exI [of _ ru] exI [of _ post] exI [of _ n]) (simp split: if_splits)
qed

lemma match_rules_plays:
  assumes "list_all (\<lambda>ru. ru_replies ru \<noteq> []) rus"
  shows "(list_all (\<lambda>u. \<not> rule_selects u iv) rus \<and> match_rules iv rus = (None, rus))
    \<or> (\<exists>r rus'. match_rules iv rus = (Some r, rus') \<and> plays_reply iv rus r rus')"
  using assms
proof (induction rus)
  case (Cons ru rus)
  show ?case
  proof (cases "rule_matches ru iv")
    case True
    have "plays_reply iv (ru # rus) (fst (play (ru_cursor ru) (ru_replies ru)))
        (ru\<lparr>ru_cursor := snd (play (ru_cursor ru) (ru_replies ru))\<rparr> # rus)"
      unfolding plays_reply_def using True Cons.prems
      by (intro exI [of _ "[]"] exI [of _ ru] exI [of _ rus]
          exI [of _ "if ru_cursor ru < length (ru_replies ru) then ru_cursor ru else length (ru_replies ru) - 1"])
        (auto simp: play_def rule_matches_selects)
    then show ?thesis using True by (cases "play (ru_cursor ru) (ru_replies ru)") simp
  next
    case False
    then have "\<not> rule_selects ru iv" by (simp add: rule_matches_selects)
    moreover have "plays_reply iv (ru # rus) r (ru # rus')" if "plays_reply iv rus r rus'" for r rus'
      using that \<open>\<not> rule_selects ru iv\<close> by (rule plays_reply_later)
    ultimately show ?thesis using Cons False by auto
  qed
qed simp

text \<open>
  Claim C40. The builders make scripts that can always be played, and a script plays in range: every
  rule the builders add has a reply and an empty sequence is refused; a call of a script so made is
  answered by the first rule it selects (its predicate, or its prefix of program and arguments), with
  the reply at that rule's cursor, which then advances, or with its last one once they are used up, and
  no other rule changes; a call no rule selects gets the fallback, or not found, and changes nothing;
  and the script can still be played afterwards.
\<close>

theorem scripts_stay_playable:
  assumes "scripted_wf s"
  shows "scripted_wf NewScriptedRunner \<and> scripted_wf (scripted_On pre r s) \<and> scripted_wf (scripted_When pred r s)
    \<and> scripted_wf (scripted_Fallback r s)
    \<and> (case scripted_OnSequence pre rs s of None \<Rightarrow> rs = [] | Some s' \<Rightarrow> rs \<noteq> [] \<and> scripted_wf s')
    \<and> (\<exists>a s'. run_state (scripted_Output ended ctx iv) s = (a, s')
        \<and> scripted_wf s' \<and> sr_fallback s' = sr_fallback s
        \<and> (if list_all (\<lambda>u. \<not> rule_selects u iv) (sr_rules s)
           then s' = s \<and> a = (case sr_fallback s of
               Some r \<Rightarrow> reply_resolve (ended ctx) iv r | None \<Rightarrow> Some (Inl (NotFoundError (inv_Program iv) [])))
           else \<exists>r. plays_reply iv (sr_rules s) r (sr_rules s') \<and> a = reply_resolve (ended ctx) iv r))"
proof -
  obtain a s' where r: "run_state (scripted_Output ended ctx iv) s = (a, s')" by fastforce
  have wf: "list_all (\<lambda>ru. ru_replies ru \<noteq> []) (sr_rules s)" using assms by (simp add: scripted_wf_def)
  have hit: "\<not> list_all (\<lambda>u. \<not> rule_selects u iv) rus" if "plays_reply iv rus r rus'" for rus r rus'
    using that by (auto simp: plays_reply_def)
  have "scripted_wf s'"
    using r wf match_rules_wf [OF wf, of iv]
    by (auto simp: run_scripted_Output scripted_match_def scripted_wf_def split: prod.splits option.splits)
  moreover have "sr_fallback s' = sr_fallback s
      \<and> (if list_all (\<lambda>u. \<not> rule_selects u iv) (sr_rules s)
         then s' = s \<and> a = (case sr_fallback s of
             Some r \<Rightarrow> reply_resolve (ended ctx) iv r | None \<Rightarrow> Some (Inl (NotFoundError (inv_Program iv) [])))
         else \<exists>r. plays_reply iv (sr_rules s) r (sr_rules s') \<and> a = reply_resolve (ended ctx) iv r)"
    using match_rules_plays [OF wf, of iv]
  proof (elim disjE exE conjE)
    assume "list_all (\<lambda>u. \<not> rule_selects u iv) (sr_rules s)" "match_rules iv (sr_rules s) = (None, sr_rules s)"
    with r show ?thesis by (auto simp: run_scripted_Output scripted_match_def split: option.split)
  next
    fix rp rus' assume m: "match_rules iv (sr_rules s) = (Some rp, rus')" and p: "plays_reply iv (sr_rules s) rp rus'"
    with r have "a = reply_resolve (ended ctx) iv rp" "s' = s\<lparr>sr_rules := rus'\<rparr>"
      by (auto simp: run_scripted_Output scripted_match_def)
    with p hit [OF p] show ?thesis by auto
  qed
  moreover have "scripted_wf NewScriptedRunner \<and> scripted_wf (scripted_On pre r s) \<and> scripted_wf (scripted_When pred r s)
      \<and> scripted_wf (scripted_Fallback r s)
      \<and> (case scripted_OnSequence pre rs s of None \<Rightarrow> rs = [] | Some s' \<Rightarrow> rs \<noteq> [] \<and> scripted_wf s')"
    using wf by (auto simp: scripted_defs)
  ultimately show ?thesis using r by blast
qed

theorem scripts_stay_playable_witness:
  "scripted_wf (scripted_On [''git''] (reply_OK ''clean'') NewScriptedRunner)
   \<and> (\<exists>a s'. run_state (scripted_Output (\<lambda>_. None) 0 inv0) NewScriptedRunner = (a, s')
      \<and> a = Some (Inl (NotFoundError (inv_Program inv0) [])))"
proof -
  have "scripted_wf NewScriptedRunner" "sr_rules NewScriptedRunner = []" "sr_fallback NewScriptedRunner = None"
    by (simp_all add: scripted_defs)
  with scripts_stay_playable [of NewScriptedRunner "[''git'']" "reply_OK ''clean''" "\<lambda>_. True" "[]" "\<lambda>_. None" 0 inv0]
  show ?thesis by auto
qed

text \<open>
  A scripted runner answers as its script reads: the \<open>j\<close>-th call is answered by the first
  rule that matches it, with the reply at the position given by the number of earlier calls of that
  rule, the last reply repeating for ever; a call no rule matches gets the fallback, or a not-found
  error; and calls of one rule never move another rule's sequence.
\<close>

theorem scripted_calls_follow_script:
  assumes "j < length calls" "list_all (\<lambda>ru. ru_cursor ru = 0) (sr_rules s)"
  shows "fst (run_all (\<lambda>(c, iv). scripted_Output ended c iv) calls s) ! j =
    (case calls ! j of (c, iv) \<Rightarrow>
      case first_rule (sr_rules s) iv of
        Some k \<Rightarrow> reply_resolve (ended c) iv (ru_replies (sr_rules s ! k)
          ! min (length (filter (\<lambda>(c, i). first_rule (sr_rules s) i = Some k) (take j calls)))
                (length (ru_replies (sr_rules s ! k)) - 1))
      | None \<Rightarrow> (case sr_fallback s of
            Some r \<Rightarrow> reply_resolve (ended c) iv r
          | None \<Rightarrow> Some (Inl (NotFoundError (inv_Program iv) []))))"
proof -
  obtain c iv where civ: "calls ! j = (c, iv)" by fastforce
  have "fst (run_all (\<lambda>(c, iv). scripted_Output ended c iv) calls s) ! j
      = (case fst (run_all scripted_match (map snd calls) s) ! j of
           None \<Rightarrow> Some (Inl (NotFoundError (inv_Program iv) [])) | Some r \<Rightarrow> reply_resolve (ended c) iv r)"
    using assms(1) civ by (simp add: scripted_Output_all run_all_length)
  moreover have "cursors (sr_rules s) k = 0" for k
    using assms(2) by (auto simp: cursors_def list_all_length)
  ultimately show ?thesis
    using scripted.served [of s s j "map snd calls"] assms(1) civ
    by (auto simp: take_map filter_map comp_def case_prod_beta' split: option.splits)
qed

theorem scripted_calls_follow_script_witness:
  "fst (run_all (\<lambda>(c, iv). scripted_Output (\<lambda>_. None) c iv) (replicate 3 (0, inv0))
      (add_rule [] None [reply_Fail 1 [], reply_OK ''up''] NewScriptedRunner)) ! 2
    = Some (Inr (newResult inv0 (mk_Exited 0) ''up'' []))"
  using scripted_calls_follow_script [of 2 "replicate 3 (0, inv0)"
      "add_rule [] None [reply_Fail 1 [], reply_OK ''up''] NewScriptedRunner" "\<lambda>_. None"]
  by (simp add: add_rule_def NewScriptedRunner_def rule_matches_def numeral_3_eq_3 numeral_2_eq_2
      reply_resolve_def reply_defs)

text \<open>
  A recording runner is transparent: it answers every call exactly as its inner runner would,
  leaves it in the same state, and has recorded the invocations in order.
\<close>

theorem recording_is_transparent:
  "run_all (\<lambda>(c, iv). recording_Output inner c iv) calls s =
    (case run_all (\<lambda>(c, iv). inner c iv) calls (rc_inner s) of (rs, i') \<Rightarrow>
      (rs, s\<lparr>rc_inner := i', rc_calls := rc_calls s @ map snd calls\<rparr>))"
proof (induction calls arbitrary: s)
  case Nil
  then show ?case by simp
next
  case (Cons civ calls)
  obtain c iv where civ: "civ = (c, iv)" by fastforce
  obtain r i1 where i1: "run_state (inner c iv) (rc_inner s) = (r, i1)" by fastforce
  then show ?case
    using Cons.IH by (simp add: civ run_all.simps(2) recording_Output_def Let_def split: prod.splits)
qed

end
