(* ===== verification/Cassette.thy ===== *)
theory Cassette
  imports Doubles "HOL-Library.Char_ord" "HOL-Library.List_Lexorder"
begin

text \<open>
  The record-and-replay runner of \<^verbatim>\<open>processkittest/cassette.go\<close>: what an entry keeps of an invocation
  and its result, the schema a cassette is saved in, the checks of a load, the slots a replay plays
  from, and the write of the file.  A file is the JSON value it denotes; the strings of a value are
  text, so encoding replaces every invalid byte of a string by the replacement character, as
  \<^verbatim>\<open>encoding/json\<close> does.
\<close>

section \<open>Entries\<close>

record entry =
  e_Program :: bytes
  e_Args :: "bytes list"
  e_Dir :: bytes
  e_EnvNames :: "bytes list"
  e_Stdout :: bytes
  e_Stderr :: bytes
  e_Code :: "int option"
  e_TimedOut :: bool
  e_Signal :: "int option"

definition entry0 :: entry where
  "entry0 = \<lparr>e_Program = [], e_Args = [], e_Dir = [], e_EnvNames = [], e_Stdout = [], e_Stderr = [],
     e_Code = None, e_TimedOut = False, e_Signal = None\<rparr>"

text \<open>The names of the variables set, without duplicates, in order of first occurrence.\<close>

fun scan_names :: "bytes list \<Rightarrow> bytes list \<Rightarrow> bytes list" where
  "scan_names seen [] = []"
| "scan_names seen (kv # kvs) =
    (if CHR ''='' \<notin> set kv then scan_names seen kvs
     else (let name = takeWhile (\<lambda>c. c \<noteq> CHR ''='') kv
           in if name \<in> set seen then scan_names seen kvs else name # scan_names (name # seen) kvs))"

definition envNames :: "bytes list option \<Rightarrow> bytes list" where
  "envNames env = (case env of None \<Rightarrow> [] | Some kvs \<Rightarrow> sort (scan_names [] kvs))"

definition entryOf :: "invocation \<Rightarrow> result \<Rightarrow> entry" where
  "entryOf iv res =
    (let e = \<lparr>e_Program = inv_Program iv, e_Args = inv_Args iv, e_Dir = inv_Dir iv,
              e_EnvNames = envNames (inv_Env iv), e_Stdout = r_stdout res, e_Stderr = r_stderr res,
              e_Code = None, e_TimedOut = False, e_Signal = None\<rparr>;
         oc = r_outcome res
     in if outcome_TimedOut oc then e\<lparr>e_TimedOut := True\<rparr>
        else case outcome_Code oc of
            Some c \<Rightarrow> e\<lparr>e_Code := Some c\<rparr>
          | None \<Rightarrow> (case outcome_Signal oc of Some s \<Rightarrow> e\<lparr>e_Signal := Some s\<rparr> | None \<Rightarrow> e))"

definition validateOutcome :: "entry \<Rightarrow> goerr option" where
  "validateOutcome e =
    (let n = (if e_Code e \<noteq> None then 1 else 0) + (if e_TimedOut e then 1 else 0)
             + (if e_Signal e \<noteq> None then 1 else (0 :: nat))
     in if n \<noteq> 1
        then Some (Plain (''entry must set exactly one of code / timed_out / signal (got '' @ itoa (int n) @ '')''))
        else None)"

definition entry_outcome :: "entry \<Rightarrow> goerr + outcome" where
  "entry_outcome e =
    (case validateOutcome e of
       Some err \<Rightarrow> Inl err
     | None \<Rightarrow> Inr (if e_TimedOut e then mk_TimedOut
          else case e_Code e of Some c \<Rightarrow> mk_Exited c | None \<Rightarrow> mk_Signalled (the (e_Signal e))))"

section \<open>The schema\<close>

datatype json =
    JNull
  | JBool bool
  | JNum int
  | JFraction
  | JStr bytes
  | JArr "json list"
  | JObj "(bytes \<times> json) list"

definition coerce :: "bytes \<Rightarrow> bytes" where
  "coerce s = encode_all (runes s)"

definition enc_string :: "bytes \<Rightarrow> json" where
  "enc_string s = JStr (coerce s)"

definition enc_int :: "int option \<Rightarrow> json" where
  "enc_int n = (case n of None \<Rightarrow> JNull | Some i \<Rightarrow> JNum i)"

text \<open>The fields of an entry, with their \<^verbatim>\<open>omitempty\<close> tags.\<close>

definition enc_entry :: "entry \<Rightarrow> json" where
  "enc_entry e = JObj (
     [(''program'', enc_string (e_Program e)), (''args'', JArr (map enc_string (e_Args e)))]
     @ (if e_Dir e = [] then [] else [(''dir'', enc_string (e_Dir e))])
     @ (if e_EnvNames e = [] then [] else [(''env_names'', JArr (map enc_string (e_EnvNames e)))])
     @ [(''stdout'', enc_string (e_Stdout e)), (''stderr'', enc_string (e_Stderr e)),
        (''code'', enc_int (e_Code e))]
     @ (if e_TimedOut e then [(''timed_out'', JBool True)] else [])
     @ (if e_Signal e = None then [] else [(''signal'', enc_int (e_Signal e))]))"

record cassette =
  ct_Version :: int
  ct_Entries :: "entry list"

text \<open>A nil slice of entries is encoded as null.\<close>

definition enc_cassette :: "cassette \<Rightarrow> json" where
  "enc_cassette c = JObj [(''version'', JNum (ct_Version c)),
     (''entries'', if ct_Entries c = [] then JNull else JArr (map enc_entry (ct_Entries c)))]"

text \<open>
  Decoding.  A key names a field when the two agree up to the case folding of \<^verbatim>\<open>encoding/json\<close>; unknown
  keys are skipped, null leaves a string, a number or a boolean as it is and clears a slice or a
  pointer, and a value of another type, or a number outside \<^verbatim>\<open>int\<close>, is an error (\<open>None\<close>).
\<close>

definition fold_rune :: "nat \<Rightarrow> nat" where
  "fold_rune r =
    (if 65 \<le> r \<and> r \<le> 90 then r + 32 else if r = 0x17F then 115 else if r = 0x212A then 107 else r)"

definition is_field :: "bytes \<Rightarrow> bytes \<Rightarrow> bool" where
  "is_field name key \<longleftrightarrow> map fold_rune (runes key) = map byte name"

definition int_range :: "int \<Rightarrow> bool" where
  "int_range n \<longleftrightarrow> - (2 ^ 63) \<le> n \<and> n < 2 ^ 63"

fun dec_string :: "bytes \<Rightarrow> json \<Rightarrow> bytes option" where
  "dec_string old (JStr s) = Some s"
| "dec_string old JNull = Some old"
| "dec_string old _ = None"

fun dec_bool :: "bool \<Rightarrow> json \<Rightarrow> bool option" where
  "dec_bool old (JBool b) = Some b"
| "dec_bool old JNull = Some old"
| "dec_bool old _ = None"

fun dec_int :: "int \<Rightarrow> json \<Rightarrow> int option" where
  "dec_int old (JNum n) = (if int_range n then Some n else None)"
| "dec_int old JNull = Some old"
| "dec_int old _ = None"

fun dec_int_ptr :: "json \<Rightarrow> int option option" where
  "dec_int_ptr JNull = Some None"
| "dec_int_ptr v = map_option Some (dec_int 0 v)"

fun dec_list :: "(json \<Rightarrow> 'a option) \<Rightarrow> json \<Rightarrow> 'a list option" where
  "dec_list f (JArr js) = those (map f js)"
| "dec_list f JNull = Some []"
| "dec_list f _ = None"

definition set_field :: "bytes \<Rightarrow> json \<Rightarrow> entry \<Rightarrow> entry option" where
  "set_field key v e =
    (if is_field ''program'' key then map_option (\<lambda>s. e\<lparr>e_Program := s\<rparr>) (dec_string (e_Program e) v)
     else if is_field ''args'' key then map_option (\<lambda>s. e\<lparr>e_Args := s\<rparr>) (dec_list (dec_string []) v)
     else if is_field ''dir'' key then map_option (\<lambda>s. e\<lparr>e_Dir := s\<rparr>) (dec_string (e_Dir e) v)
     else if is_field ''env_names'' key
     then map_option (\<lambda>s. e\<lparr>e_EnvNames := s\<rparr>) (dec_list (dec_string []) v)
     else if is_field ''stdout'' key then map_option (\<lambda>s. e\<lparr>e_Stdout := s\<rparr>) (dec_string (e_Stdout e) v)
     else if is_field ''stderr'' key then map_option (\<lambda>s. e\<lparr>e_Stderr := s\<rparr>) (dec_string (e_Stderr e) v)
     else if is_field ''code'' key then map_option (\<lambda>n. e\<lparr>e_Code := n\<rparr>) (dec_int_ptr v)
     else if is_field ''timed_out'' key then map_option (\<lambda>b. e\<lparr>e_TimedOut := b\<rparr>) (dec_bool (e_TimedOut e) v)
     else if is_field ''signal'' key then map_option (\<lambda>n. e\<lparr>e_Signal := n\<rparr>) (dec_int_ptr v)
     else Some e)"

fun set_fields :: "(bytes \<times> json) list \<Rightarrow> entry \<Rightarrow> entry option" where
  "set_fields [] e = Some e"
| "set_fields ((key, v) # fs) e = Option.bind (set_field key v e) (set_fields fs)"

fun dec_entry :: "json \<Rightarrow> entry option" where
  "dec_entry (JObj fs) = set_fields fs entry0"
| "dec_entry JNull = Some entry0"
| "dec_entry _ = None"

definition set_header :: "bytes \<Rightarrow> json \<Rightarrow> cassette \<Rightarrow> cassette option" where
  "set_header key v c =
    (if is_field ''version'' key then map_option (\<lambda>n. c\<lparr>ct_Version := n\<rparr>) (dec_int (ct_Version c) v)
     else if is_field ''entries'' key then map_option (\<lambda>es. c\<lparr>ct_Entries := es\<rparr>) (dec_list dec_entry v)
     else Some c)"

fun set_headers :: "(bytes \<times> json) list \<Rightarrow> cassette \<Rightarrow> cassette option" where
  "set_headers [] c = Some c"
| "set_headers ((key, v) # fs) c = Option.bind (set_header key v c) (set_headers fs)"

fun dec_cassette :: "json \<Rightarrow> cassette option" where
  "dec_cassette (JObj fs) = set_headers fs \<lparr>ct_Version = 0, ct_Entries = []\<rparr>"
| "dec_cassette JNull = Some \<lparr>ct_Version = 0, ct_Entries = []\<rparr>"
| "dec_cassette _ = None"

section \<open>Slots\<close>

definition keyOf :: "bytes \<Rightarrow> bytes list \<Rightarrow> bytes \<Rightarrow> json" where
  "keyOf program args dir = JArr [enc_string program, JArr (map enc_string args), enc_string dir]"

record replaySlot =
  sl_entries :: "entry list"
  sl_next :: nat

type_synonym slots = "json \<Rightarrow> replaySlot option"

definition slot_play :: "replaySlot \<Rightarrow> entry \<times> replaySlot" where
  "slot_play s = (case play (sl_next s) (sl_entries s) of (e, next) \<Rightarrow> (e, s\<lparr>sl_next := next\<rparr>))"

section \<open>Loading and saving\<close>

definition cassetteVersion :: int where
  "cassetteVersion = 1"

definition maxCassetteBytes :: nat where
  "maxCassetteBytes = 64 * 2 ^ 20"

text \<open>
  A file as a load sees it: the size \<^verbatim>\<open>os.Stat\<close> reports, when it succeeds, and what \<^verbatim>\<open>os.ReadFile\<close>
  returns: an error, or the length of the data and its value, when it is JSON.
\<close>

record file_view =
  fv_stat :: "nat option"
  fv_read :: "goerr + nat \<times> json option"

fun load_entries :: "err_fmt \<Rightarrow> bytes \<Rightarrow> nat \<Rightarrow> entry list \<Rightarrow> slots \<Rightarrow> goerr + slots" where
  "load_entries F path i [] sl = Inr sl"
| "load_entries F path i (e # es) sl =
    (case validateOutcome e of
       Some err \<Rightarrow> Inl (Wrapped (''processkittest: cassette '' @ quote_text F path @ '' entry ''
           @ itoa (int i) @ '': '') err)
     | None \<Rightarrow>
         (let k = keyOf (e_Program e) (e_Args e) (e_Dir e);
              s = (case sl k of None \<Rightarrow> \<lparr>sl_entries = [], sl_next = 0\<rparr> | Some s \<Rightarrow> s)
          in load_entries F path (i + 1) es (sl(k \<mapsto> s\<lparr>sl_entries := sl_entries s @ [e]\<rparr>))))"

text \<open>\<open>jerr\<close> is the error \<^verbatim>\<open>json.Unmarshal\<close> reports for what it cannot decode.\<close>

definition Replay :: "err_fmt \<Rightarrow> goerr \<Rightarrow> bytes \<Rightarrow> file_view \<Rightarrow> goerr + slots" where
  "Replay F jerr path f =
    (let name = ''processkittest: cassette '' @ quote_text F path;
         too_large = Plain (name @ '' is larger than '' @ itoa (int maxCassetteBytes) @ '' bytes'')
     in if (case fv_stat f of Some n \<Rightarrow> maxCassetteBytes < n | None \<Rightarrow> False) then Inl too_large
        else case fv_read f of
            Inl err \<Rightarrow> Inl err
          | Inr (n, v) \<Rightarrow>
              if maxCassetteBytes < n then Inl too_large
              else case Option.bind v dec_cassette of
                  None \<Rightarrow> Inl (Wrapped (name @ '' is not valid JSON: '') jerr)
                | Some c \<Rightarrow>
                    if ct_Version c \<noteq> cassetteVersion
                    then Inl (Plain (name @ '' version '' @ itoa (ct_Version c)
                           @ '' is not supported (this build reads version '' @ itoa cassetteVersion @ '')''))
                    else load_entries F path 0 (ct_Entries c) (\<lambda>_. None))"

section \<open>The runner\<close>

datatype mode = ModeRecord | ModeReplay

record 's recorder =
  rr_mode :: mode
  rr_path :: bytes
  rr_inner :: 's
  rr_rec :: "entry list"
  rr_slots :: slots

definition Record :: "bytes \<Rightarrow> 's \<Rightarrow> 's recorder" where
  "Record path inner = \<lparr>rr_mode = ModeRecord, rr_path = path, rr_inner = inner, rr_rec = [],
     rr_slots = (\<lambda>_. None)\<rparr>"

definition recordOne ::
    "(ctx \<Rightarrow> invocation \<Rightarrow> ('s, goerr + result) state)
     \<Rightarrow> ctx \<Rightarrow> invocation \<Rightarrow> ('s recorder, goerr + result) state" where
  "recordOne inner ctx iv = State (\<lambda>s.
    case run_state (inner ctx iv) (rr_inner s) of
      (Inl err, i') \<Rightarrow> (Inl err, s\<lparr>rr_inner := i'\<rparr>)
    | (Inr res, i') \<Rightarrow> (Inr res, s\<lparr>rr_inner := i', rr_rec := rr_rec s @ [entryOf iv res]\<rparr>))"

text \<open>The entry a replay serves, and the answer made of it.\<close>

definition serve_entry :: "invocation \<Rightarrow> (slots, entry option) state" where
  "serve_entry iv = State (\<lambda>sl.
    let k = keyOf (inv_Program iv) (inv_Args iv) (inv_Dir iv)
    in case sl k of
         None \<Rightarrow> (None, sl)
       | Some s \<Rightarrow> (case slot_play s of (e, s') \<Rightarrow> (Some e, sl(k \<mapsto> s'))))"

definition entry_answer :: "err_fmt \<Rightarrow> bytes \<Rightarrow> invocation \<Rightarrow> entry option \<Rightarrow> goerr + result" where
  "entry_answer F path iv served =
    (case served of
       None \<Rightarrow> Inl (CassetteMissError (inv_Program iv) (inv_Args iv) (inv_Dir iv))
     | Some e \<Rightarrow>
         (case entry_outcome e of
            Inl err \<Rightarrow> Inl (Wrapped (''processkittest: cassette '' @ quote_text F path @ '': '') err)
          | Inr oc \<Rightarrow> Inr (newResult iv oc (e_Stdout e) (e_Stderr e))))"

definition replay :: "err_fmt \<Rightarrow> invocation \<Rightarrow> ('s recorder, goerr + result) state" where
  "replay F iv = State (\<lambda>s.
    case run_state (serve_entry iv) (rr_slots s) of
      (served, sl) \<Rightarrow> (entry_answer F (rr_path s) iv served, s\<lparr>rr_slots := sl\<rparr>))"

definition recorder_Output ::
    "err_fmt \<Rightarrow> (ctx \<Rightarrow> invocation \<Rightarrow> ('s, goerr + result) state)
     \<Rightarrow> ctx \<Rightarrow> invocation \<Rightarrow> ('s recorder, goerr + result) state" where
  "recorder_Output F inner ctx iv = State (\<lambda>s.
    if inv_Stdin iv \<noteq> None
    then (Inl (Plain (''processkittest: a cassette cannot record or replay '' @ quote_text F (inv_Program iv)
            @ '' with stdin (its result is not keyed by the input)'')), s)
    else if rr_mode s = ModeReplay then run_state (replay F iv) s
    else run_state (recordOne inner ctx iv) s)"

text \<open>The value \<^verbatim>\<open>Save\<close> writes; in replay mode it writes nothing.\<close>

definition Save :: "'s recorder \<Rightarrow> json option" where
  "Save s =
    (if rr_mode s = ModeReplay then None
     else Some (enc_cassette \<lparr>ct_Version = cassetteVersion, ct_Entries = rr_rec s\<rparr>))"

section \<open>Writing the file\<close>

text \<open>
  \<^verbatim>\<open>writeFileSecure\<close> on Unix: the open truncates, creates with mode 0600 and does not follow a link;
  the mode of a file that existed is tightened while it is empty.  \<open>fs_write\<close> may write a part before
  it fails.  The ghost trace has a call with its success.
\<close>

datatype 'd fcall = FOpen bytes bool | FChmod nat bool | FWrite 'd bool | FClose bool

record ('w, 'd) fsapi =
  fs_open :: "bytes \<Rightarrow> 'w \<Rightarrow> goerr option \<times> 'w"
  fs_chmod :: "nat \<Rightarrow> 'w \<Rightarrow> goerr option \<times> 'w"
  fs_write :: "'d \<Rightarrow> 'w \<Rightarrow> goerr option \<times> 'w"
  fs_close :: "'w \<Rightarrow> goerr option \<times> 'w"

definition fs_do :: "('w \<Rightarrow> goerr option \<times> 'w) \<Rightarrow> (bool \<Rightarrow> 'd fcall) \<Rightarrow> ('w \<times> 'd fcall list, goerr option) state" where
  "fs_do f c = State (\<lambda>(w, tr). case f w of (e, w') \<Rightarrow> (e, (w', tr @ [c (e = None)])))"

definition writeFileSecure :: "('w, 'd) fsapi \<Rightarrow> bytes \<Rightarrow> 'd \<Rightarrow> ('w \<times> 'd fcall list, goerr option) state" where
  "writeFileSecure S path data = do {
     e1 \<leftarrow> fs_do (fs_open S path) (FOpen path);
     if e1 \<noteq> None then State_Monad.return e1
     else do {
       e2 \<leftarrow> fs_do (fs_chmod S 384) (FChmod 384);
       if e2 \<noteq> None then do { _ \<leftarrow> fs_do (fs_close S) FClose; State_Monad.return e2 }
       else do {
         e3 \<leftarrow> fs_do (fs_write S data) (FWrite data);
         if e3 \<noteq> None then do { _ \<leftarrow> fs_do (fs_close S) FClose; State_Monad.return e3 }
         else fs_do (fs_close S) FClose
       }
     }
   }"

section \<open>Encoding and decoding\<close>

lemma coerce_valid: "valid_utf8 s \<Longrightarrow> coerce s = s"
  by (simp add: coerce_def valid_utf8_def)

lemma runes_coerce [simp]: "runes (coerce s) = runes s"
  unfolding coerce_def by (rule runes_encode_all_only) (rule runes_valid)

lemma coerce_idem [simp]: "coerce (coerce s) = coerce s"
  by (simp add: coerce_def [of "coerce s"]) (simp add: coerce_def)

lemma coerce_Nil [simp]: "coerce [] = []"
  by (simp add: coerce_def encode_all_def runes.simps)

lemma runes_ascii: "list_all (\<lambda>c. byte c < (0x80 :: nat)) s \<Longrightarrow> runes s = map byte s"
  by (induction s) (simp_all add: runes.simps decode_ascii del: decode_rune.simps)

lemma coerce_ascii: "list_all (\<lambda>c. byte c < (0x80 :: nat)) s \<Longrightarrow> coerce s = s"
  by (induction s) (simp_all add: coerce_def runes_ascii encode_rune.simps)

lemma is_field_plain:
  assumes "list_all (\<lambda>c. byte c < (0x80 :: nat) \<and> \<not> (65 \<le> byte c \<and> byte c \<le> 90)) key"
  shows "is_field name key \<longleftrightarrow> name = key"
proof -
  have "map fold_rune (runes key) = map byte key"
    using assms by (subst runes_ascii) (auto simp: list_all_iff fold_rune_def)
  moreover have "map byte key = map byte name \<longleftrightarrow> name = key"
    by (metis list.inj_map_strong of_char_eq_iff)
  ultimately show ?thesis by (simp add: is_field_def)
qed

text \<open>The keys of the schema, as fields: each names itself only.\<close>

lemma field_names:
  "is_field name ''program'' \<longleftrightarrow> name = ''program''" "is_field name ''args'' \<longleftrightarrow> name = ''args''"
  "is_field name ''dir'' \<longleftrightarrow> name = ''dir''" "is_field name ''env_names'' \<longleftrightarrow> name = ''env_names''"
  "is_field name ''stdout'' \<longleftrightarrow> name = ''stdout''" "is_field name ''stderr'' \<longleftrightarrow> name = ''stderr''"
  "is_field name ''code'' \<longleftrightarrow> name = ''code''" "is_field name ''timed_out'' \<longleftrightarrow> name = ''timed_out''"
  "is_field name ''signal'' \<longleftrightarrow> name = ''signal''" "is_field name ''version'' \<longleftrightarrow> name = ''version''"
  "is_field name ''entries'' \<longleftrightarrow> name = ''entries''"
  by (rule is_field_plain; simp)+

definition coerce_entry :: "entry \<Rightarrow> entry" where
  "coerce_entry e = e\<lparr>e_Program := coerce (e_Program e), e_Args := map coerce (e_Args e),
     e_Dir := coerce (e_Dir e), e_EnvNames := map coerce (e_EnvNames e),
     e_Stdout := coerce (e_Stdout e), e_Stderr := coerce (e_Stderr e)\<rparr>"

definition entry_ints :: "entry \<Rightarrow> bool" where
  "entry_ints e \<longleftrightarrow> (\<forall>n. e_Code e = Some n \<or> e_Signal e = Some n \<longrightarrow> int_range n)"

lemma dec_enc_int: "(\<And>n. x = Some n \<Longrightarrow> int_range n) \<Longrightarrow> dec_int_ptr (enc_int x) = Some x"
  by (cases x) (auto simp: enc_int_def)

lemma those_map_Some: "(\<And>x. x \<in> set xs \<Longrightarrow> f x = Some (g x)) \<Longrightarrow> those (map f xs) = Some (map g xs)"
  by (induction xs) auto

lemma dec_enc_strings: "dec_list (dec_string []) (JArr (map enc_string ss)) = Some (map coerce ss)"
  by (simp add: comp_def enc_string_def those_map_Some [where g = coerce])

lemma dec_enc_entry:
  assumes "entry_ints e"
  shows "dec_entry (enc_entry e) = Some (coerce_entry e)"
proof -
  have c: "dec_int_ptr (enc_int (e_Code e)) = Some (e_Code e)" "dec_int_ptr (enc_int (e_Signal e)) = Some (e_Signal e)"
    using assms by (auto simp: entry_ints_def intro!: dec_enc_int)
  have k: "dec_string x (enc_string s) = Some (coerce s)" for x s by (simp add: enc_string_def)
  show ?thesis
    using c unfolding enc_entry_def dec_entry.simps
    by (cases e) (simp add: set_field_def field_names k dec_enc_strings coerce_entry_def entry0_def
        del: dec_list.simps dec_int_ptr.simps)
qed

definition coerce_cassette :: "cassette \<Rightarrow> cassette" where
  "coerce_cassette c = c\<lparr>ct_Entries := map coerce_entry (ct_Entries c)\<rparr>"

lemma dec_enc_cassette:
  assumes "list_all entry_ints (ct_Entries c)" "int_range (ct_Version c)"
  shows "dec_cassette (enc_cassette c) = Some (coerce_cassette c)"
proof -
  have "dec_list dec_entry (JArr (map enc_entry (ct_Entries c))) = Some (map coerce_entry (ct_Entries c))"
    using assms(1) by (auto simp: list_all_iff dec_enc_entry intro!: those_map_Some)
  with assms(2) show ?thesis
    by (cases c) (auto simp: enc_cassette_def set_header_def field_names coerce_cassette_def simp del: map_map)
qed

section \<open>Slots play recordings in order\<close>

definition entry_key :: "entry \<Rightarrow> json" where
  "entry_key e = keyOf (e_Program e) (e_Args e) (e_Dir e)"

definition inv_key :: "invocation \<Rightarrow> json" where
  "inv_key iv = keyOf (inv_Program iv) (inv_Args iv) (inv_Dir iv)"

lemma entry_key_coerce [simp]: "entry_key (coerce_entry e) = entry_key e"
  by (simp add: entry_key_def coerce_entry_def keyOf_def enc_string_def comp_def)

lemma entry_key_entryOf [simp]: "entry_key (entryOf iv r) = inv_key iv"
  by (simp add: entry_key_def entryOf_def inv_key_def Let_def split: option.split)

definition extend_slots :: "entry list \<Rightarrow> slots \<Rightarrow> slots" where
  "extend_slots es sl k =
    (let fs = filter (\<lambda>e. entry_key e = k) es
     in if fs = [] then sl k
        else Some (case sl k of None \<Rightarrow> \<lparr>sl_entries = fs, sl_next = 0\<rparr>
                   | Some s \<Rightarrow> s\<lparr>sl_entries := sl_entries s @ fs\<rparr>))"

lemma load_entries_ok:
  "list_all (\<lambda>e. validateOutcome e = None) es \<Longrightarrow> load_entries F path i es sl = Inr (extend_slots es sl)"
proof (induction es arbitrary: i sl)
  case Nil
  then show ?case by (simp add: extend_slots_def fun_eq_iff)
next
  case (Cons e es)
  then show ?case
    by (auto simp: extend_slots_def fun_eq_iff Let_def entry_key_def [symmetric] split: option.splits)
qed

definition same_slots :: "slots \<Rightarrow> slots \<Rightarrow> bool" where
  "same_slots sl0 sl \<longleftrightarrow> (\<forall>k. map_option sl_entries (sl k) = map_option sl_entries (sl0 k))"

definition slot_entries :: "slots \<Rightarrow> json \<Rightarrow> entry list" where
  "slot_entries sl k = (case sl k of None \<Rightarrow> [] | Some s \<Rightarrow> sl_entries s)"

definition slot_cursor :: "slots \<Rightarrow> json \<Rightarrow> nat" where
  "slot_cursor sl k = (case sl k of None \<Rightarrow> 0 | Some s \<Rightarrow> sl_next s)"

definition slot_key :: "slots \<Rightarrow> invocation \<Rightarrow> json option" where
  "slot_key sl iv = (if sl (inv_key iv) = None then None else Some (inv_key iv))"

interpretation cassette_player: sequenced serve_entry "same_slots sl0" "slot_key sl0" "slot_entries sl0"
  slot_cursor None for sl0
proof unfold_locales
  fix sl iv k
  assume g: "same_slots sl0 sl" and k: "slot_key sl0 iv = Some k"
  then obtain s0 s where s: "k = inv_key iv" "sl0 k = Some s0" "sl k = Some s" "sl_entries s = sl_entries s0"
    unfolding same_slots_def slot_key_def by (metis (no_types, lifting) map_option_eq_Some
      not_None_eq option.inject option.simps(3))
  let ?p = "play (sl_next s) (sl_entries s0)"
  let ?sl = "sl(k \<mapsto> s\<lparr>sl_next := snd ?p\<rparr>)"
  have "run_state (serve_entry iv) sl = (Some (fst ?p), ?sl)"
    using s by (simp add: serve_entry_def inv_key_def [symmetric] slot_play_def split: prod.split)
  moreover have "same_slots sl0 ?sl" using g s by (simp add: same_slots_def)
  moreover have "slot_cursor ?sl = (slot_cursor sl)(k := snd ?p)"
    by (simp add: slot_cursor_def fun_eq_iff)
  ultimately show "\<exists>s'. run_state (serve_entry iv) sl
      = (Some (fst (play (slot_cursor sl k) (slot_entries sl0 k))), s')
      \<and> same_slots sl0 s' \<and> slot_cursor s' = (slot_cursor sl)(k := snd (play (slot_cursor sl k) (slot_entries sl0 k)))"
    using s by (intro exI [of _ ?sl]) (simp add: slot_cursor_def slot_entries_def)
next
  fix sl iv
  assume "same_slots sl0 sl" and "slot_key sl0 iv = None"
  then have "sl (inv_key iv) = None"
    unfolding same_slots_def slot_key_def by (metis map_option_is_None option.distinct(1))
  then show "run_state (serve_entry iv) sl = (None, sl)"
    by (simp add: serve_entry_def inv_key_def [symmetric])
qed

lemma nth_filter_count:
  "j < length xs \<Longrightarrow> P (xs ! j) \<Longrightarrow>
    filter P xs ! length (filter P (take j xs)) = xs ! j
    \<and> length (filter P (take j xs)) < length (filter P xs)"
proof (induction xs arbitrary: j)
  case (Cons x xs)
  then show ?case by (cases j) auto
qed simp

lemma filter_map_length_eq:
  "map f xs = map g ys \<Longrightarrow> length (filter (\<lambda>x. f x = k) xs) = length (filter (\<lambda>y. g y = k) ys)"
  by (induction xs arbitrary: ys) auto

text \<open>A recording played back from its own requests gives every entry once, in order.\<close>

lemma serve_all_recorded:
  assumes "map inv_key ivs = map entry_key es"
  shows "fst (run_all serve_entry ivs (extend_slots es (\<lambda>_. None))) = map Some es"
proof (rule nth_equalityI)
  let ?sl = "extend_slots es (\<lambda>_. None)"
  have l: "length ivs = length es" using assms by (metis length_map)
  then show "length (fst (run_all serve_entry ivs ?sl)) = length (map Some es)"
    by (simp add: run_all_length)
  fix j assume "j < length (fst (run_all serve_entry ivs ?sl))"
  then have j: "j < length ivs" "j < length es" using l by (simp_all add: run_all_length)
  let ?k = "entry_key (es ! j)"
  have key: "inv_key (ivs ! i) = entry_key (es ! i)" if "i < length es" for i
    using assms l that by (metis nth_map)
  from nth_filter_count [of j es "\<lambda>e. entry_key e = ?k"] j(2) have f:
    "filter (\<lambda>e. entry_key e = ?k) es ! length (filter (\<lambda>e. entry_key e = ?k) (take j es)) = es ! j"
    "length (filter (\<lambda>e. entry_key e = ?k) (take j es)) < length (filter (\<lambda>e. entry_key e = ?k) es)" by simp_all
  then have ne: "filter (\<lambda>e. entry_key e = ?k) es \<noteq> []" by auto
  have sl: "?sl ?k = Some \<lparr>sl_entries = filter (\<lambda>e. entry_key e = ?k) es, sl_next = 0\<rparr>"
    using ne by (simp add: extend_slots_def Let_def)
  have sk: "slot_key ?sl iv = Some ?k \<longleftrightarrow> inv_key iv = ?k" for iv
    using sl by (auto simp: slot_key_def)
  have "map inv_key (take j ivs) = map entry_key (take j es)" using assms by (metis take_map)
  then have "length (filter (\<lambda>iv. inv_key iv = ?k) (take j ivs))
      = length (filter (\<lambda>e. entry_key e = ?k) (take j es))"
    by (rule filter_map_length_eq)
  then have cnt: "length (filter (\<lambda>iv. slot_key ?sl iv = Some ?k) (take j ivs))
      = length (filter (\<lambda>e. entry_key e = ?k) (take j es))" by (simp add: sk)
  have "same_slots ?sl ?sl" by (simp add: same_slots_def)
  from cassette_player.served [OF this j(1)]
  have "fst (run_all serve_entry ivs ?sl) ! j = Some (slot_entries ?sl ?k
      ! min (slot_cursor ?sl ?k + length (filter (\<lambda>iv. slot_key ?sl iv = Some ?k) (take j ivs)))
          (length (slot_entries ?sl ?k) - 1))"
    using sk [of "ivs ! j"] key [OF j(2)] by simp
  also have "\<dots> = Some (es ! j)"
    using f sl cnt by (simp add: slot_entries_def slot_cursor_def min_def)
  finally show "fst (run_all serve_entry ivs ?sl) ! j = map Some es ! j" using j by simp
qed

section \<open>Names of variables\<close>

lemma takeWhile_eq_name: "CHR ''='' \<in> set kv \<Longrightarrow>
    takeWhile (\<lambda>c. c \<noteq> CHR ''='') kv = name \<longleftrightarrow> (\<exists>value. name @ CHR ''='' # value = kv \<and> CHR ''='' \<notin> set name)"
proof
  assume a: "CHR ''='' \<in> set kv" and n: "takeWhile (\<lambda>c. c \<noteq> CHR ''='') kv = name"
  with split_at_first [OF a] takeWhile_not_in [of "CHR ''=''" kv]
  show "\<exists>value. name @ CHR ''='' # value = kv \<and> CHR ''='' \<notin> set name" by metis
next
  assume "\<exists>value. name @ CHR ''='' # value = kv \<and> CHR ''='' \<notin> set name"
  then show "takeWhile (\<lambda>c. c \<noteq> CHR ''='') kv = name" by (auto simp: takeWhile_append)
qed

lemma set_scan_names:
  "set (scan_names seen kvs) = {name. (\<exists>value. name @ CHR ''='' # value \<in> set kvs) \<and> CHR ''='' \<notin> set name} - set seen"
proof (induction kvs arbitrary: seen)
  case (Cons kv kvs)
  show ?case
  proof (cases "CHR ''='' \<in> set kv")
    case True
    let ?n = "takeWhile (\<lambda>c. c \<noteq> CHR ''='') kv"
    have "(\<exists>value. name @ CHR ''='' # value = kv) \<and> CHR ''='' \<notin> set name \<longleftrightarrow> name = ?n" for name
      using takeWhile_eq_name [OF True, of name] by auto
    then have "{name. (\<exists>value. name @ CHR ''='' # value \<in> set (kv # kvs)) \<and> CHR ''='' \<notin> set name}
        = insert ?n {name. (\<exists>value. name @ CHR ''='' # value \<in> set kvs) \<and> CHR ''='' \<notin> set name}"
      by auto
    then show ?thesis using True Cons by (auto simp: Let_def)
  next
    case False
    then have "name @ CHR ''='' # v \<noteq> kv" for name v by auto
    with False Cons show ?thesis by simp
  qed
qed simp

lemma distinct_scan_names: "distinct (scan_names seen kvs)"
  by (induction kvs arbitrary: seen) (auto simp: Let_def set_scan_names)

text \<open>
  Two invocations share a slot exactly when their programs, arguments and directories agree as text,
  so invocations that differ in invalid UTF-8 only are taken for one.
\<close>

lemma inv_key_eq_iff:
  "inv_key iv = inv_key iv' \<longleftrightarrow> coerce (inv_Program iv) = coerce (inv_Program iv')
     \<and> map coerce (inv_Args iv) = map coerce (inv_Args iv') \<and> coerce (inv_Dir iv) = coerce (inv_Dir iv')"
proof -
  have "map enc_string xs = map enc_string ys \<longleftrightarrow> map coerce xs = map coerce ys" for xs ys
    by (induction xs arbitrary: ys) (auto simp: enc_string_def Cons_eq_map_conv)
  then show ?thesis by (auto simp: inv_key_def keyOf_def enc_string_def)
qed

section \<open>Sessions\<close>

text \<open>The outcomes an entry can represent.\<close>

definition recordable :: "outcome \<Rightarrow> bool" where
  "recordable oc \<longleftrightarrow>
    oc = timedOut \<or> (case outcome_Code oc of Some n \<Rightarrow> oc = exited n \<and> int_range n
      | None \<Rightarrow> (case outcome_Signal oc of Some n \<Rightarrow> oc = signalled (Some n) \<and> int_range n | None \<Rightarrow> False))"

lemma recordable_cases:
  assumes "recordable oc"
  obtains "oc = timedOut" | n where "oc = exited n" "int_range n"
    | n where "oc = signalled (Some n)" "int_range n"
  using assms by (auto simp: recordable_def split: option.splits)

lemma entry_of_recordable:
  assumes "recordable (r_outcome r)"
  shows "entry_ints (entryOf iv r)" "validateOutcome (coerce_entry (entryOf iv r)) = None"
    "entry_outcome (coerce_entry (entryOf iv r)) = Inr (r_outcome r)"
  by (rule recordable_cases [OF assms];
      simp add: entryOf_def entry_ints_def validateOutcome_def entry_outcome_def coerce_entry_def Let_def
        outcome_TimedOut_def outcome_Code_def outcome_Signal_def timedOut_def exited_def signalled_def
        mk_Exited_def mk_TimedOut_def mk_Signalled_def)+

text \<open>The calls of a session that were answered by a result.\<close>

fun completed :: "(ctx \<times> invocation) list \<Rightarrow> (goerr + result) list \<Rightarrow> ((ctx \<times> invocation) \<times> result) list" where
  "completed (c # cs) (Inr r # as) = (c, r) # completed cs as"
| "completed (c # cs) (Inl e # as) = completed cs as"
| "completed _ _ = []"

lemma completed_results: "(c, r) \<in> set (completed cs as) \<Longrightarrow> Inr r \<in> set as"
  by (induction cs as rule: completed.induct) auto

lemma completed_calls:
  "list_all P cs \<Longrightarrow> list_all P (map fst (completed cs as))"
  by (induction cs as rule: completed.induct) auto

lemma entry_texts:
  "e_Stdout (coerce_entry (entryOf iv r)) = coerce (r_stdout r)"
  "e_Stderr (coerce_entry (entryOf iv r)) = coerce (r_stderr r)"
  by (simp_all add: coerce_entry_def entryOf_def Let_def split: option.split)

lemma record_session:
  assumes "rr_mode s = ModeRecord" "list_all (\<lambda>(c, iv). inv_Stdin iv = None) calls"
  shows "run_all (\<lambda>(c, iv). recorder_Output F inner c iv) calls s =
    (case run_all (\<lambda>(c, iv). inner c iv) calls (rr_inner s) of (as, i') \<Rightarrow>
      (as, s\<lparr>rr_inner := i', rr_rec := rr_rec s @ map (\<lambda>((c, iv), r). entryOf iv r) (completed calls as)\<rparr>))"
  using assms
proof (induction calls arbitrary: s)
  case Nil
  then show ?case by simp
next
  case (Cons civ calls)
  obtain c iv where civ: "civ = (c, iv)" by fastforce
  obtain a i1 where i1: "run_state (inner c iv) (rr_inner s) = (a, i1)" by fastforce
  then show ?case
    using Cons by (cases a)
      (simp_all add: civ run_all.simps(2) recorder_Output_def recordOne_def split: prod.splits)
qed

text \<open>What a recorder saved loads, with its texts made valid.\<close>

lemma saved_loads:
  assumes "rr_mode s = ModeRecord" "rr_rec s = map (\<lambda>(iv, r). entryOf iv r) prs"
    "\<And>iv r. (iv, r) \<in> set prs \<Longrightarrow> recordable (r_outcome r)" "n \<le> maxCassetteBytes"
  shows "Replay F jerr path \<lparr>fv_stat = Some n, fv_read = Inr (n, Save s)\<rparr>
    = Inr (extend_slots (map (\<lambda>(iv, r). coerce_entry (entryOf iv r)) prs) (\<lambda>_. None))"
proof -
  let ?es = "map (\<lambda>(iv, r). coerce_entry (entryOf iv r)) prs"
  have "dec_cassette (enc_cassette \<lparr>ct_Version = cassetteVersion, ct_Entries = rr_rec s\<rparr>)
      = Some \<lparr>ct_Version = cassetteVersion, ct_Entries = ?es\<rparr>"
    using assms(3) by (subst dec_enc_cassette)
      (auto simp: assms(2) list_all_iff entry_of_recordable cassetteVersion_def int_range_def
        coerce_cassette_def comp_def case_prod_beta')
  moreover have "list_all (\<lambda>e. validateOutcome e = None) ?es"
    using assms(3) by (auto simp: list_all_iff entry_of_recordable)
  ultimately show ?thesis
    using assms(1,4) by (simp add: Replay_def Save_def load_entries_ok cassetteVersion_def)
qed

definition replayer :: "bytes \<Rightarrow> 's \<Rightarrow> slots \<Rightarrow> 's recorder" where
  "replayer path i sl =
    \<lparr>rr_mode = ModeReplay, rr_path = path, rr_inner = i, rr_rec = [], rr_slots = sl\<rparr>"

lemma replay_session:
  assumes "rr_mode s = ModeReplay" "list_all (\<lambda>(c, iv). inv_Stdin iv = None) calls"
  shows "fst (run_all (\<lambda>(c, iv). recorder_Output F inner c iv) calls s) =
    map2 (\<lambda>(c, iv) e. entry_answer F (rr_path s) iv e) calls
      (fst (run_all serve_entry (map snd calls) (rr_slots s)))"
  using assms
proof (induction calls arbitrary: s)
  case Nil
  then show ?case by simp
next
  case (Cons civ calls)
  obtain c iv where civ: "civ = (c, iv)" by fastforce
  obtain e sl where e: "run_state (serve_entry iv) (rr_slots s) = (e, sl)" by fastforce
  have "fst (run_all (\<lambda>(c, iv). recorder_Output F inner c iv) calls (s\<lparr>rr_slots := sl\<rparr>)) =
    map2 (\<lambda>(c, iv) e. entry_answer F (rr_path s) iv e) calls (fst (run_all serve_entry (map snd calls) sl))"
    using Cons.IH [of "s\<lparr>rr_slots := sl\<rparr>"] Cons.prems by simp
  with e Cons.prems show ?case
    by (simp add: civ recorder_Output_def replay_def)
qed

section \<open>The recorder is a runner\<close>

context process_runner begin

lemma recorder_answers: "process_runner (recorder_Output F run_output)"
  by unfold_locales
    (auto simp: recorder_Output_def replay_def recordOne_def entry_answer_def newResult_def
      split: prod.splits if_splits option.splits sum.splits dest: answers)

end

interpretation recorded_job_runner: process_runner "recorder_Output F (JobRunner_Output P l)" for F P l
  by (rule job_runner.recorder_answers)

section \<open>Properties\<close>

text \<open>
  Claim C18. Recording is faithful and a replay reproduces the session: a recorder answers every call
  as its inner runner does; the file it saves loads, and asking the replay for the calls that were
  answered by a result, in the same order, gives for each of them, repeated requests included, a result
  with the recorded outcome and the recorded text of both outputs, invalid UTF-8 replaced.
\<close>

theorem replay_reproduces_session:
  assumes "list_all (\<lambda>(c, iv). inv_Stdin iv = None) calls"
    and "run_all (\<lambda>(c, iv). recorder_Output F inner c iv) calls (Record path i) = (answers, s)"
    and "\<forall>r. Inr r \<in> set answers \<longrightarrow> recordable (r_outcome r)"
    and "n \<le> maxCassetteBytes"
  shows "answers = fst (run_all (\<lambda>(c, iv). inner c iv) calls i)
    \<and> (\<exists>sl. Replay F jerr path \<lparr>fv_stat = Some n, fv_read = Inr (n, Save s)\<rparr> = Inr sl
      \<and> fst (run_all (\<lambda>(c, iv). recorder_Output F inner' c iv)
            (map fst (completed calls answers)) (replayer path j sl))
        = map (\<lambda>((c, iv), r). Inr (newResult iv (r_outcome r) (coerce (r_stdout r)) (coerce (r_stderr r))))
            (completed calls answers))"
proof -
  let ?ok = "completed calls answers"
  let ?es = "map (\<lambda>((c, iv), r). coerce_entry (entryOf iv r)) ?ok"
  let ?ivs = "map (snd \<circ> fst) ?ok"
  obtain as i' where inner: "run_all (\<lambda>(c, iv). inner c iv) calls i = (as, i')" by fastforce
  with record_session [of "Record path i" calls F inner] assms(1,2) have
    as: "answers = as" and s: "rr_mode s = ModeRecord" "rr_rec s = map (\<lambda>((c, iv), r). entryOf iv r) ?ok"
    by (auto simp: Record_def)
  have rec: "recordable (r_outcome r)" if "(c, r) \<in> set ?ok" for c r
    using that assms(3) completed_results by blast
  have rec': "recordable (r_outcome r)" if "(iv, r) \<in> set (map (\<lambda>((c, iv), r). (iv, r)) ?ok)" for iv r
    using that rec by auto
  have load: "Replay F jerr path \<lparr>fv_stat = Some n, fv_read = Inr (n, Save s)\<rparr>
      = Inr (extend_slots ?es (\<lambda>_. None))"
    using saved_loads [OF s(1), of "map (\<lambda>((c, iv), r). (iv, r)) ?ok", OF _ rec' assms(4)] s(2)
    by (simp add: comp_def case_prod_beta')
  have "list_all (\<lambda>(c, iv). inv_Stdin iv = None) (map fst ?ok)"
    using assms(1) by (rule completed_calls)
  moreover have "map inv_key ?ivs = map entry_key ?es" by (simp add: comp_def case_prod_beta')
  ultimately have "fst (run_all (\<lambda>(c, iv). recorder_Output F inner' c iv) (map fst ?ok)
        (replayer path j (extend_slots ?es (\<lambda>_. None))))
      = map2 (\<lambda>(c, iv) e. entry_answer F path iv e) (map fst ?ok) (map Some ?es)"
    using serve_all_recorded [of ?ivs ?es] by (simp add: replay_session replayer_def)
  also have "\<dots> = map (\<lambda>((c, iv), r). Inr (newResult iv (r_outcome r) (coerce (r_stdout r))
      (coerce (r_stderr r)))) ?ok"
    unfolding map_map map2_map_map
    by (rule map_cong [OF refl])
      (use rec in \<open>auto simp: entry_answer_def entry_of_recordable entry_texts case_prod_beta'\<close>)
  finally show ?thesis using load inner as by (intro conjI exI [of _ "extend_slots ?es (\<lambda>_. None)"]) auto
qed

text \<open>A session with one failing and one successful run of the same command.\<close>

definition demo_script :: scripted where
  "demo_script = add_rule [] None [reply_Fail 1 ''no'', reply_OK ''up''] NewScriptedRunner"

definition demo_runner :: "ctx \<Rightarrow> invocation \<Rightarrow> (scripted, goerr + result) state" where
  "demo_runner = scripted_run (\<lambda>_. Sentinel Context_Canceled)"

definition demo_answers :: "(goerr + result) list" where
  "demo_answers = [Inr (newResult inv0 (exited 1) [] ''no''), Inr (newResult inv0 (exited 0) ''up'' [])]"

lemma demo_session:
  "\<exists>s. run_all (\<lambda>(c, iv). recorder_Output F demo_runner c iv) [(0, inv0), (0, inv0)]
     (Record ''f'' demo_script) = (demo_answers, s)"
  by (simp add: run_all.simps(2) recorder_Output_def recordOne_def Record_def demo_runner_def demo_script_def
      scripted_run_def scripted_defs run_scripted_Output scripted_match_def rule_matches_def play_def
      reply_resolve_def reply_defs demo_answers_def mk_Exited_def inv0_def)

theorem replay_reproduces_session_witness:
  "\<forall>F jerr. \<exists>s sl. Replay F jerr ''f'' \<lparr>fv_stat = Some 400, fv_read = Inr (400, Save (s :: scripted recorder))\<rparr> = Inr sl
     \<and> fst (run_all (\<lambda>(c, iv). recorder_Output F demo_runner c iv) [(0, inv0), (0, inv0)]
         (replayer ''f'' demo_script sl)) = demo_answers"
proof (intro allI)
  fix F jerr
  obtain s where s: "run_all (\<lambda>(c, iv). recorder_Output F demo_runner c iv) [(0, inv0), (0, inv0)]
      (Record ''f'' demo_script) = (demo_answers, s)" using demo_session by blast
  have c: "completed [(0, inv0), (0, inv0)] demo_answers
      = [((0, inv0), newResult inv0 (exited 1) [] ''no''), ((0, inv0), newResult inv0 (exited 0) ''up'' [])]"
    by (simp add: demo_answers_def)
  have t: "coerce ''no'' = ''no''" "coerce ''up'' = ''up''"
    by (rule coerce_ascii; simp)+
  have rec: "\<forall>r. Inr r \<in> set demo_answers \<longrightarrow> recordable (r_outcome r)"
    by (auto simp: demo_answers_def newResult_def recordable_def int_range_def outcome_Code_def exited_def)
  have "normalizeNewlines ''no'' = ''no''" "normalizeNewlines [] = []"
    unfolding normalizeNewlines_eq_ref by (rule normalize_ref_no_CR; simp add: ws_chars)+
  then have m: "map (\<lambda>((c, iv), r). Inr (newResult iv (r_outcome r) (coerce (r_stdout r)) (coerce (r_stderr r))))
      (completed [(0, inv0), (0, inv0)] demo_answers) = demo_answers"
    unfolding c by (simp add: demo_answers_def newResult_def t)
  have f: "map fst (completed [(0, inv0), (0, inv0)] demo_answers) = [(0, inv0), (0, inv0)]"
    unfolding c by simp
  have n: "list_all (\<lambda>(c, iv). inv_Stdin iv = None) [(0 :: nat, inv0), (0, inv0)]" by (simp add: inv0_def)
  have b: "400 \<le> maxCassetteBytes" by (simp add: maxCassetteBytes_def)
  from conjunct2 [OF replay_reproduces_session [OF n s rec b]]
  show "\<exists>s sl. Replay F jerr ''f'' \<lparr>fv_stat = Some 400, fv_read = Inr (400, Save (s :: scripted recorder))\<rparr> = Inr sl
     \<and> fst (run_all (\<lambda>(c, iv). recorder_Output F demo_runner c iv) [(0, inv0), (0, inv0)]
         (replayer ''f'' demo_script sl)) = demo_answers"
    unfolding m f by (rule exI [of _ s])
qed

text \<open>
  The secret-bearing data of a cassette reaches the file only once its mode is 0600: every
  write comes after an open that followed no link and a successful chmod; an opened file is closed on
  every path, and nil is answered exactly when the data was written and the close succeeded.
\<close>

theorem cassette_written_owner_only:
  "case run_state (writeFileSecure S path data) (w, []) of (e, (w', tr)) \<Rightarrow>
     tr \<in> {[FOpen path False]}
        \<union> {[FOpen path True, FChmod 384 False, FClose b] |b. True}
        \<union> {[FOpen path True, FChmod 384 True, FWrite data b, FClose c] |b c. True}
     \<and> (e = None \<longleftrightarrow> tr = [FOpen path True, FChmod 384 True, FWrite data True, FClose True])"
  by (auto simp: writeFileSecure_def fs_do_def split: prod.splits)

text \<open>
  A cassette never holds the value of an environment variable: an entry keeps of the
  environment only the part of each override before its first equals sign, sorted and without
  duplicates, and nothing at all of an override that has no equals sign.
\<close>

theorem entries_redact_environment:
  "set (e_EnvNames (entryOf iv r)) = {name. \<exists>value kvs. inv_Env iv = Some kvs
      \<and> name @ CHR ''='' # value \<in> set kvs \<and> CHR ''='' \<notin> set name}
   \<and> sorted (e_EnvNames (entryOf iv r)) \<and> distinct (e_EnvNames (entryOf iv r))
   \<and> entryOf (iv\<lparr>inv_Env := env\<rparr>) r = (entryOf iv r)\<lparr>e_EnvNames := envNames env\<rparr>"
proof -
  have e: "e_EnvNames (entryOf iv r) = envNames (inv_Env iv)"
    by (simp add: entryOf_def Let_def split: option.split)
  have "entryOf (iv\<lparr>inv_Env := env\<rparr>) r = (entryOf iv r)\<lparr>e_EnvNames := envNames env\<rparr>"
    by (simp add: entryOf_def Let_def split: option.split)
  then show ?thesis
    unfolding e using set_scan_names [of "[]"] distinct_scan_names [of "[]"]
    by (cases "inv_Env iv") (auto simp: envNames_def)
qed

end
