(* ===== verification/LockedCalls.thy ===== *)
theory LockedCalls
  imports Cassette
begin

text \<open>
  The runners of \<^verbatim>\<open>processkittest\<close> under concurrent callers.  \<^verbatim>\<open>ScriptedRunner.Output\<close> and \<^verbatim>\<open>replay\<close> pick a reply
  under their mutex and make the answer of it outside; \<^verbatim>\<open>recordOne\<close> appends an entry under its mutex;
  \<^verbatim>\<open>RecordingRunner.Output\<close> appends the invocation under a mutex of its own and then calls the inner runner.  One
  step relation over the critical section \<open>serve\<close> covers them all: whatever the interleaving, the answers are those of a
  sequence of calls one after the other, in an order that respects the real time of the calls.
\<close>

section \<open>States\<close>

text \<open>
  Where a call is: its input, then what the critical section gave, then the answer returned.  A critical
  section is two steps, so that nothing but the mutex keeps two of them apart: it reads the shared value
  (\<open>RecordRead\<close>, \<open>Serving\<close>) and then writes what it made of it.
\<close>

datatype ('i, 's, 'b, 'a) place =
    NotCalled
  | Recording 'i
  | RecordHolding 'i
  | RecordRead 'i "'i list"
  | RecordDone 'i
  | Waiting 'i
  | Holding 'i
  | Serving 'i 'b 's
  | Served 'i 'b
  | Resolving 'i 'b
  | Returned 'i 'b 'a

text \<open>
  The shared object with its mutex, and the invocations of a \<^verbatim>\<open>RecordingRunner\<close> around it with its own.
  Ghosts: the calls served, in the order of their critical sections, with what they were given; the calls
  recorded; the calls made through the recorder; for every call those that had returned when it was made.
\<close>

record ('i, 's, 'b, 'a) calls =
  lc_object :: 's
  lc_mu :: "nat option"
  lc_recorded :: "'i list"
  lc_rmu :: "nat option"
  lc_place :: "nat \<Rightarrow> ('i, 's, 'b, 'a) place"
  lc_log :: "(nat \<times> 'i \<times> 'b) list"
  lc_asked :: "(nat \<times> 'i) list"
  lc_via :: "nat set"
  lc_before :: "nat \<Rightarrow> nat set"

definition calls0 :: "'s \<Rightarrow> ('i, 's, 'b, 'a) calls" where
  "calls0 x = \<lparr>lc_object = x, lc_mu = None, lc_recorded = [], lc_rmu = None, lc_place = (\<lambda>_. NotCalled),
     lc_log = [], lc_asked = [], lc_via = {}, lc_before = (\<lambda>_. {})\<rparr>"

fun returned :: "('i, 's, 'b, 'a) place \<Rightarrow> bool" where
  "returned (Returned i b a) = True"
| "returned _ = False"

definition at :: "nat \<Rightarrow> ('i, 's, 'b, 'a) place \<Rightarrow> ('i, 's, 'b, 'a) calls \<Rightarrow> ('i, 's, 'b, 'a) calls" where
  "at c p s = s\<lparr>lc_place := (lc_place s)(c := p)\<rparr>"

definition made :: "nat \<Rightarrow> ('i, 's, 'b, 'a) calls \<Rightarrow> ('i, 's, 'b, 'a) calls" where
  "made c s = s\<lparr>lc_before := (lc_before s)(c := {d. returned (lc_place s d)})\<rparr>"

lemmas call_ops = at_def made_def

lemma at_simps [simp]:
  "lc_place (at c p s) = (lc_place s)(c := p)" "lc_object (at c p s) = lc_object s" "lc_mu (at c p s) = lc_mu s"
  "lc_rmu (at c p s) = lc_rmu s" "lc_log (at c p s) = lc_log s" "lc_asked (at c p s) = lc_asked s"
  "lc_recorded (at c p s) = lc_recorded s"
  by (simp_all add: at_def)

lemma made_simps [simp]:
  "lc_place (made c s) = lc_place s" "lc_object (made c s) = lc_object s" "lc_mu (made c s) = lc_mu s"
  "lc_rmu (made c s) = lc_rmu s" "lc_log (made c s) = lc_log s" "lc_asked (made c s) = lc_asked s"
  "lc_recorded (made c s) = lc_recorded s"
  by (simp_all add: made_def)

section \<open>Steps\<close>

text \<open>
  The steps of call \<open>c\<close>, made on the object itself (\<^verbatim>\<open>ScriptedRunner.Output\<close>: \<open>lock\<close> to \<open>answer\<close>) or through the
  recorder (\<^verbatim>\<open>RecordingRunner.Output\<close>: first \<open>record_lock\<close> to \<open>record_unlock\<close>).  \<open>finish\<close> makes the answer; it has
  none yet while the call is parked.
\<close>

inductive call_step ::
    "('i \<Rightarrow> ('s, 'b) state) \<Rightarrow> ('i \<Rightarrow> 'b \<Rightarrow> 'a option) \<Rightarrow> nat
     \<Rightarrow> ('i, 's, 'b, 'a) calls \<Rightarrow> ('i, 's, 'b, 'a) calls \<Rightarrow> bool" for serve finish c where
  invoke: "lc_place s c = NotCalled \<Longrightarrow> call_step serve finish c s (at c (Waiting i) (made c s))"
| invoke_recorder: "lc_place s c = NotCalled \<Longrightarrow>
    call_step serve finish c s (at c (Recording i) (made c (s\<lparr>lc_via := insert c (lc_via s)\<rparr>)))"
| record_lock: "lc_place s c = Recording i \<Longrightarrow> lc_rmu s = None \<Longrightarrow>
    call_step serve finish c s (at c (RecordHolding i) (s\<lparr>lc_rmu := Some c\<rparr>))"
| record_read: "lc_place s c = RecordHolding i \<Longrightarrow> call_step serve finish c s (at c (RecordRead i (lc_recorded s)) s)"
| record_append: "lc_place s c = RecordRead i is \<Longrightarrow>
    call_step serve finish c s (at c (RecordDone i)
      (s\<lparr>lc_recorded := is @ [i], lc_asked := lc_asked s @ [(c, i)]\<rparr>))"
| record_unlock: "lc_place s c = RecordDone i \<Longrightarrow>
    call_step serve finish c s (at c (Waiting i) (s\<lparr>lc_rmu := None\<rparr>))"
| lock: "lc_place s c = Waiting i \<Longrightarrow> lc_mu s = None \<Longrightarrow>
    call_step serve finish c s (at c (Holding i) (s\<lparr>lc_mu := Some c\<rparr>))"
| critical: "lc_place s c = Holding i \<Longrightarrow> run_state (serve i) (lc_object s) = (b, x) \<Longrightarrow>
    call_step serve finish c s (at c (Serving i b x) s)"
| publish: "lc_place s c = Serving i b x \<Longrightarrow>
    call_step serve finish c s (at c (Served i b) (s\<lparr>lc_object := x, lc_log := lc_log s @ [(c, i, b)]\<rparr>))"
| unlock: "lc_place s c = Served i b \<Longrightarrow>
    call_step serve finish c s (at c (Resolving i b) (s\<lparr>lc_mu := None\<rparr>))"
| answer: "lc_place s c = Resolving i b \<Longrightarrow> finish i b = Some a \<Longrightarrow>
    call_step serve finish c s (at c (Returned i b a) s)"

inductive_cases call_stepE: "call_step serve finish c s s'"

definition calls_step ::
    "('i \<Rightarrow> ('s, 'b) state) \<Rightarrow> ('i \<Rightarrow> 'b \<Rightarrow> 'a option) \<Rightarrow> ('i, 's, 'b, 'a) calls \<Rightarrow> ('i, 's, 'b, 'a) calls \<Rightarrow> bool" where
  "calls_step serve finish s s' \<longleftrightarrow> (\<exists>c. call_step serve finish c s s')"

definition calls_reach ::
    "('i \<Rightarrow> ('s, 'b) state) \<Rightarrow> ('i \<Rightarrow> 'b \<Rightarrow> 'a option) \<Rightarrow> 's \<Rightarrow> ('i, 's, 'b, 'a) calls \<Rightarrow> bool" where
  "calls_reach serve finish x s \<longleftrightarrow> (calls_step serve finish)\<^sup>*\<^sup>* (calls0 x) s"

section \<open>The invariant\<close>

fun given :: "('i, 's, 'b, 'a) place \<Rightarrow> ('i \<times> 'b) option" where
  "given (Served i b) = Some (i, b)"
| "given (Resolving i b) = Some (i, b)"
| "given (Returned i b a) = Some (i, b)"
| "given _ = None"

fun entered :: "('i, 's, 'b, 'a) place \<Rightarrow> 'i option" where
  "entered (RecordDone i) = Some i"
| "entered (Waiting i) = Some i"
| "entered (Holding i) = Some i"
| "entered (Serving i b x) = Some i"
| "entered (Served i b) = Some i"
| "entered (Resolving i b) = Some i"
| "entered (Returned i b a) = Some i"
| "entered _ = None"

fun in_critical :: "('i, 's, 'b, 'a) place \<Rightarrow> bool" where
  "in_critical (Holding i) = True"
| "in_critical (Serving i b x) = True"
| "in_critical (Served i b) = True"
| "in_critical _ = False"

fun in_record :: "('i, 's, 'b, 'a) place \<Rightarrow> bool" where
  "in_record (RecordHolding i) = True"
| "in_record (RecordRead i is) = True"
| "in_record (RecordDone i) = True"
| "in_record _ = False"

text \<open>Every call stands after all those of \<open>before\<close>.\<close>

definition in_time :: "(nat \<Rightarrow> nat set) \<Rightarrow> nat list \<Rightarrow> bool" where
  "in_time B cs \<longleftrightarrow> list_all (\<lambda>k. B (cs ! k) \<subseteq> set (take k cs)) [0..<length cs]"

text \<open>A mutex and the calls between its lock and its unlock.\<close>

definition mutual :: "nat option \<Rightarrow> (nat \<Rightarrow> bool) \<Rightarrow> bool" where
  "mutual m P \<longleftrightarrow> (\<forall>c. m = Some c \<longleftrightarrow> P c)"

lemma mutual_take: "mutual None P \<Longrightarrow> mutual (Some c) (P(c := True))"
  by (auto simp: mutual_def)

lemma mutual_drop: "mutual m P \<Longrightarrow> P c \<Longrightarrow> mutual None (P(c := False))"
  by (auto simp: mutual_def) (metis option.inject)

definition mutex_inv :: "('i, 's, 'b, 'a) calls \<Rightarrow> bool" where
  "mutex_inv s \<longleftrightarrow> mutual (lc_mu s) (in_critical \<circ> lc_place s) \<and> mutual (lc_rmu s) (in_record \<circ> lc_place s)"

definition time_inv :: "('i, 's, 'b, 'a) calls \<Rightarrow> bool" where
  "time_inv s \<longleftrightarrow> (\<forall>c. \<forall>d\<in>lc_before s c. returned (lc_place s d))
     \<and> in_time (lc_before s) (map fst (lc_log s))"

text \<open>What a critical section has read is still what the shared value is.\<close>

definition read_inv :: "('i \<Rightarrow> ('s, 'b) state) \<Rightarrow> ('i, 's, 'b, 'a) calls \<Rightarrow> bool" where
  "read_inv serve s \<longleftrightarrow>
     (\<forall>c i b x. lc_place s c = Serving i b x \<longrightarrow> run_state (serve i) (lc_object s) = (b, x))
     \<and> (\<forall>c i is. lc_place s c = RecordRead i is \<longrightarrow> lc_recorded s = is)"

definition record_inv :: "('i, 's, 'b, 'a) calls \<Rightarrow> bool" where
  "record_inv s \<longleftrightarrow> lc_recorded s = map snd (lc_asked s) \<and> distinct (map fst (lc_asked s))
     \<and> (\<forall>c i. (c, i) \<in> set (lc_asked s) \<longleftrightarrow> c \<in> lc_via s \<and> entered (lc_place s c) = Some i)
     \<and> (\<forall>c. lc_place s c = NotCalled \<longrightarrow> c \<notin> lc_via s)
     \<and> (\<forall>c. in_record (lc_place s c) \<or> (\<exists>i. lc_place s c = Recording i) \<longrightarrow> c \<in> lc_via s)"

lemma run_all_snoc:
  "run_all f (is @ [i]) s =
    (case run_all f is s of (bs, s1) \<Rightarrow> case run_state (f i) s1 of (b, s2) \<Rightarrow> (bs @ [b], s2))"
  by (induction "is" arbitrary: s) (auto simp: run_all.simps(2) split: prod.splits)

lemma in_time_snoc: "in_time B (cs @ [c]) \<longleftrightarrow> in_time B cs \<and> B c \<subseteq> set cs"
  by (auto simp: in_time_def nth_append list_all_iff)

lemma in_time_cong: "(\<And>c. c \<in> set cs \<Longrightarrow> B c = B' c) \<Longrightarrow> in_time B cs = in_time B' cs"
  by (simp add: in_time_def list_all_iff)

lemma mutex_step: "call_step serve finish c s s' \<Longrightarrow> mutex_inv s \<Longrightarrow> mutex_inv s'"
  unfolding mutex_inv_def
  by (erule call_stepE)
    (simp_all add: call_ops fun_upd_comp fun_upd_idem mutual_take, (elim conjE, erule mutual_drop, simp)+)

text \<open>The log and the places give the same account of what was served.\<close>

definition accounts :: "(nat \<times> 'i \<times> 'b) list \<Rightarrow> (nat \<Rightarrow> ('i \<times> 'b) option) \<Rightarrow> bool" where
  "accounts l g \<longleftrightarrow> distinct (map fst l) \<and> (\<forall>c x. (c, x) \<in> set l \<longleftrightarrow> g c = Some x)"

lemma accounts_snoc: "accounts l g \<Longrightarrow> g c = None \<Longrightarrow> accounts (l @ [(c, x)]) (g(c \<mapsto> x))"
  by (auto simp: accounts_def)

lemma account_step:
  "call_step serve finish c s s' \<Longrightarrow> accounts (lc_log s) (given \<circ> lc_place s) \<Longrightarrow> accounts (lc_log s') (given \<circ> lc_place s')"
  by (erule call_stepE) (simp_all add: call_ops fun_upd_comp fun_upd_idem accounts_snoc)

lemma finish_step:
  "call_step serve finish c s s' \<Longrightarrow> \<forall>c i b a. lc_place s c = Returned i b a \<longrightarrow> finish i b = Some a
    \<Longrightarrow> \<forall>c i b a. lc_place s' c = Returned i b a \<longrightarrow> finish i b = Some a"
  by (erule call_stepE) (simp_all add: call_ops)

lemma mutual_unique: "mutual m P \<Longrightarrow> P c \<Longrightarrow> P d \<Longrightarrow> c = d"
  unfolding mutual_def by (metis option.inject)

lemma read_step:
  assumes "call_step serve finish c s s'" "mutex_inv s" "read_inv serve s"
  shows "read_inv serve s'"
proof -
  note m = conjunct1 [OF assms(2) [unfolded mutex_inv_def]] conjunct2 [OF assms(2) [unfolded mutex_inv_def]]
  show ?thesis using assms(1)
  proof cases
    case (record_append i "is")
    have "lc_place s d \<noteq> RecordRead i' is'" if "d \<noteq> c" for d i' is'
      using mutual_unique [OF m(2), of d c] that record_append(2) by force
    with assms(3) show ?thesis unfolding record_append(1) by (simp add: read_inv_def call_ops)
  next
    case (publish i b x)
    have "lc_place s d \<noteq> Serving i' b' x'" if "d \<noteq> c" for d i' b' x'
      using mutual_unique [OF m(1), of d c] that publish(2) by force
    with assms(3) show ?thesis unfolding publish(1) by (simp add: read_inv_def call_ops)
  qed (use assms(3) in \<open>auto simp: read_inv_def call_ops\<close>)
qed

lemma served_step:
  "call_step serve finish c s s' \<Longrightarrow> read_inv serve s
    \<Longrightarrow> run_all serve (map (fst \<circ> snd) (lc_log s)) x = (map (snd \<circ> snd) (lc_log s), lc_object s)
    \<Longrightarrow> run_all serve (map (fst \<circ> snd) (lc_log s')) x = (map (snd \<circ> snd) (lc_log s'), lc_object s')"
  by (erule call_stepE) (simp_all add: call_ops run_all_snoc read_inv_def)

lemma time_step:
  assumes "call_step serve finish c s s'" "accounts (lc_log s) (given \<circ> lc_place s)" "time_inv s"
  shows "time_inv s'"
proof -
  have n: "d \<notin> fst ` set (lc_log s)" if "given (lc_place s d) = None" for d
    using assms(2) that by (force simp: accounts_def)
  have r: "d \<in> fst ` set (lc_log s)" if "returned (lc_place s d)" for d
  proof -
    from that obtain y where "given (lc_place s d) = Some y" by (cases "lc_place s d") auto
    with assms(2) have "(d, y) \<in> set (lc_log s)" unfolding accounts_def by (metis comp_apply)
    then show ?thesis by force
  qed
  have b: "in_time ((lc_before s)(d := D)) (map fst (lc_log s)) = in_time (lc_before s) (map fst (lc_log s))"
    if "given (lc_place s d) = None" for d D
    using n [OF that] by (intro in_time_cong) auto
  note T = assms(3) [unfolded time_inv_def]
  have z: "c \<notin> lc_before s d" if "\<not> returned (lc_place s c)" for d using T that by blast
  show ?thesis using assms(1)
  proof cases
    case (invoke i)
    with T b [of c] z show ?thesis by (auto simp: time_inv_def call_ops)
  next
    case (invoke_recorder i)
    with T b [of c] z show ?thesis by (auto simp: time_inv_def call_ops)
  next
    case (publish i b x)
    have "lc_before s c \<subseteq> set (map fst (lc_log s))" using T r by fastforce
    with T z publish show ?thesis by (auto simp: time_inv_def call_ops in_time_snoc)
  qed (use T z in \<open>auto simp: time_inv_def call_ops\<close>)
qed

lemma record_step:
  assumes "call_step serve finish c s s'" "read_inv serve s" "record_inv s"
  shows "record_inv s'"
  using assms(1)
proof cases
  case (record_append i "is")
  with assms(3) have "c \<in> lc_via s" "c \<notin> fst ` set (lc_asked s)" by (force simp: record_inv_def)+
  moreover have "lc_recorded s = is" using record_append assms(2) by (auto simp: read_inv_def)
  ultimately show ?thesis using record_append assms(3) by (auto simp: record_inv_def call_ops)
qed (use assms(3) in \<open>auto simp: record_inv_def call_ops\<close>)

definition calls_inv ::
    "('i \<Rightarrow> ('s, 'b) state) \<Rightarrow> ('i \<Rightarrow> 'b \<Rightarrow> 'a option) \<Rightarrow> 's \<Rightarrow> ('i, 's, 'b, 'a) calls \<Rightarrow> bool" where
  "calls_inv serve finish x s \<longleftrightarrow>
     run_all serve (map (fst \<circ> snd) (lc_log s)) x = (map (snd \<circ> snd) (lc_log s), lc_object s)
     \<and> accounts (lc_log s) (given \<circ> lc_place s)
     \<and> (\<forall>c i b a. lc_place s c = Returned i b a \<longrightarrow> finish i b = Some a)
     \<and> mutex_inv s \<and> read_inv serve s \<and> time_inv s \<and> record_inv s"

lemma calls_inv0: "calls_inv serve finish x (calls0 x)"
  by (simp add: calls_inv_def calls0_def accounts_def mutex_inv_def mutual_def read_inv_def time_inv_def
      in_time_def record_inv_def)

lemma calls_inv_step:
  assumes "call_step serve finish c s s'" "calls_inv serve finish x s"
  shows "calls_inv serve finish x s'"
  using assms(2) unfolding calls_inv_def
  by (elim conjE) (intro conjI served_step [OF assms(1)] account_step [OF assms(1)] finish_step [OF assms(1)]
      mutex_step [OF assms(1)] read_step [OF assms(1)] time_step [OF assms(1)] record_step [OF assms(1)]; assumption)

lemma calls_inv_reach: "calls_reach serve finish x s \<Longrightarrow> calls_inv serve finish x s"
  unfolding calls_reach_def
  by (induction rule: rtranclp_induct) (auto simp: calls_step_def intro: calls_inv0 calls_inv_step)

section \<open>No call waits for another to return\<close>

text \<open>The steps in which no call returns.\<close>

definition calls_quiet ::
    "('i \<Rightarrow> ('s, 'b) state) \<Rightarrow> ('i, 's, 'b, 'a) calls \<Rightarrow> ('i, 's, 'b, 'a) calls \<Rightarrow> bool" where
  "calls_quiet serve = (calls_step serve (\<lambda>_ _. None))\<^sup>*\<^sup>*"

lemma quiet_refl [simp]: "calls_quiet serve s s"
  by (simp add: calls_quiet_def)

lemma quiet_trans: "calls_quiet serve s s1 \<Longrightarrow> calls_quiet serve s1 s2 \<Longrightarrow> calls_quiet serve s s2"
  unfolding calls_quiet_def by (rule rtranclp_trans)

lemma quiet_step: "calls_quiet serve s s1 \<Longrightarrow> call_step serve (\<lambda>_ _. None) c s1 s2 \<Longrightarrow> calls_quiet serve s s2"
  unfolding calls_quiet_def calls_step_def by (rule rtranclp.rtrancl_into_rtrancl) blast+

lemma quiet_mutex: "calls_quiet serve s s' \<Longrightarrow> mutex_inv s \<Longrightarrow> mutex_inv s'"
  unfolding calls_quiet_def by (induction rule: rtranclp_induct) (auto simp: calls_step_def intro: mutex_step)

lemma quiet_publish:
  assumes "lc_place s c = Serving i b x"
  shows "\<exists>s'. calls_quiet serve s s' \<and> lc_place s' = (lc_place s)(c := Served i b)"
  using quiet_step [OF quiet_refl publish [OF assms]]
  by (intro exI conjI, assumption) simp

lemma quiet_critical:
  assumes "lc_place s c = Holding i"
  shows "\<exists>s' b. calls_quiet serve s s' \<and> lc_place s' = (lc_place s)(c := Served i b)"
proof -
  obtain b x where b: "run_state (serve i) (lc_object s) = (b, x)" by fastforce
  let ?s1 = "at c (Serving i b x) s"
  from quiet_publish [of ?s1 c i b x serve] obtain s2 where
    "calls_quiet serve ?s1 s2" "lc_place s2 = (lc_place s)(c := Served i b)" by auto
  with quiet_step [OF quiet_refl critical [where serve = serve, OF assms b]] quiet_trans show ?thesis by blast
qed

lemma quiet_append:
  assumes "lc_place s c = RecordRead i is"
  shows "\<exists>s'. calls_quiet serve s s' \<and> lc_place s' = (lc_place s)(c := RecordDone i)"
  using quiet_step [OF quiet_refl record_append [OF assms]]
  by (intro exI conjI, assumption) simp

lemma quiet_record:
  assumes "lc_place s c = RecordHolding i"
  shows "\<exists>s'. calls_quiet serve s s' \<and> lc_place s' = (lc_place s)(c := RecordDone i)"
proof -
  let ?s1 = "at c (RecordRead i (lc_recorded s)) s"
  from quiet_append [of ?s1 c i "lc_recorded s" serve] obtain s2 where
    "calls_quiet serve ?s1 s2" "lc_place s2 = (lc_place s)(c := RecordDone i)" by auto
  with quiet_step [OF quiet_refl record_read [OF assms]] quiet_trans show ?thesis by blast
qed

lemma quiet_unlock:
  assumes "lc_place s c = Served i b"
  shows "\<exists>s'. calls_quiet serve s s' \<and> lc_mu s' = None \<and> lc_place s' = (lc_place s)(c := Resolving i b)"
  using quiet_step [OF quiet_refl unlock [OF assms]]
  by (intro exI conjI, assumption) (simp_all add: at_def)

lemma quiet_record_unlock:
  assumes "lc_place s c = RecordDone i"
  shows "\<exists>s'. calls_quiet serve s s' \<and> lc_rmu s' = None \<and> lc_place s' = (lc_place s)(c := Waiting i)"
  using quiet_step [OF quiet_refl record_unlock [OF assms]]
  by (intro exI conjI, assumption) (simp_all add: at_def)

text \<open>Whoever holds a mutex can give it back at once.\<close>

lemma free_mu:
  assumes "mutex_inv s"
  shows "\<exists>s'. calls_quiet serve s s' \<and> lc_mu s' = None
    \<and> (\<forall>c. \<not> in_critical (lc_place s c) \<longrightarrow> lc_place s' c = lc_place s c)"
proof (cases "lc_mu s")
  case None
  then show ?thesis by (intro exI [of _ s]) simp
next
  case (Some d)
  with assms have d: "in_critical (lc_place s d)" unfolding mutex_inv_def mutual_def by force
  have "\<exists>s' i b. calls_quiet serve s s' \<and> lc_place s' = (lc_place s)(d := Served i b)"
  proof (cases "lc_place s d")
    case (Holding i)
    with quiet_critical [OF this, of serve] show ?thesis by blast
  next
    case (Serving i b x)
    with quiet_publish [OF this, of serve] show ?thesis by blast
  next
    case (Served i b)
    then have "lc_place s = (lc_place s)(d := Served i b)" by auto
    then show ?thesis using quiet_refl by metis
  qed (use d in simp_all)
  then obtain s1 i b where s1: "calls_quiet serve s s1" "lc_place s1 = (lc_place s)(d := Served i b)" by blast
  with quiet_unlock [of s1 d i b serve] obtain s2 where
    "calls_quiet serve s1 s2" "lc_mu s2 = None" "lc_place s2 = (lc_place s1)(d := Resolving i b)" by auto
  with s1 d show ?thesis by (intro exI [of _ s2]) (auto intro: quiet_trans)
qed

lemma free_rmu:
  assumes "mutex_inv s"
  shows "\<exists>s'. calls_quiet serve s s' \<and> lc_rmu s' = None
    \<and> (\<forall>c. \<not> in_record (lc_place s c) \<longrightarrow> lc_place s' c = lc_place s c)"
proof (cases "lc_rmu s")
  case None
  then show ?thesis by (intro exI [of _ s]) simp
next
  case (Some d)
  with assms have d: "in_record (lc_place s d)" unfolding mutex_inv_def mutual_def by force
  have "\<exists>s' i. calls_quiet serve s s' \<and> lc_place s' = (lc_place s)(d := RecordDone i)"
  proof (cases "lc_place s d")
    case (RecordHolding i)
    with quiet_record [OF this, of serve] show ?thesis by blast
  next
    case (RecordRead i "is")
    with quiet_append [OF this, of serve] show ?thesis by blast
  next
    case (RecordDone i)
    then have "lc_place s = (lc_place s)(d := RecordDone i)" by auto
    then show ?thesis using quiet_refl by metis
  qed (use d in simp_all)
  then obtain s1 i where s1: "calls_quiet serve s s1" "lc_place s1 = (lc_place s)(d := RecordDone i)" by blast
  with quiet_record_unlock [of s1 d i serve] obtain s2 where
    "calls_quiet serve s1 s2" "lc_rmu s2 = None" "lc_place s2 = (lc_place s1)(d := Waiting i)" by auto
  with s1 d show ?thesis by (intro exI [of _ s2]) (auto intro: quiet_trans)
qed

lemma quiet_served:
  assumes "mutex_inv s" "lc_place s c = Waiting i"
  shows "\<exists>s' y. calls_quiet serve s s' \<and> given (lc_place s' c) = Some y"
proof -
  from free_mu [OF assms(1)] assms(2) obtain s1 where
    s1: "calls_quiet serve s s1" "lc_mu s1 = None" "lc_place s1 c = Waiting i" by force
  let ?s2 = "at c (Holding i) (s1\<lparr>lc_mu := Some c\<rparr>)"
  have "calls_quiet serve s ?s2" using quiet_step [OF s1(1) lock [OF s1(3,2)]] .
  moreover from quiet_critical [of ?s2 c i serve] obtain s3 b where
    "calls_quiet serve ?s2 s3" "lc_place s3 = (lc_place ?s2)(c := Served i b)" by (auto simp: at_def)
  ultimately show ?thesis by (intro exI [of _ s3] exI [of _ "(i, b)"]) (auto intro: quiet_trans)
qed

lemma quiet_recorded:
  assumes "mutex_inv s" "lc_place s c \<in> {Recording i, RecordHolding i, RecordRead i is, RecordDone i}"
  shows "\<exists>s'. calls_quiet serve s s' \<and> lc_place s' c = Waiting i"
proof -
  have last: "\<exists>s'. calls_quiet serve s s' \<and> lc_place s' c = Waiting i" if "lc_place s c = RecordDone i" for s
    using quiet_record_unlock [OF that, of serve] by auto
  have holding: "\<exists>s'. calls_quiet serve s s' \<and> lc_place s' c = Waiting i" if "lc_place s c = RecordHolding i" for s
    using quiet_record [OF that, of serve] last by (metis fun_upd_same quiet_trans)
  have reading: "\<exists>s'. calls_quiet serve s s' \<and> lc_place s' c = Waiting i" if "lc_place s c = RecordRead i is" for s
    using quiet_append [OF that, of serve] last by (metis fun_upd_same quiet_trans)
  have "\<exists>s'. calls_quiet serve s s' \<and> lc_place s' c = Waiting i" if w: "lc_place s c = Recording i"
  proof -
    from free_rmu [OF assms(1)] w obtain s1 where
      s1: "calls_quiet serve s s1" "lc_rmu s1 = None" "lc_place s1 c = Recording i" by force
    let ?s2 = "at c (RecordHolding i) (s1\<lparr>lc_rmu := Some c\<rparr>)"
    have "calls_quiet serve s ?s2" using quiet_step [OF s1(1) record_lock [OF s1(3,2)]] .
    moreover have "lc_place ?s2 c = RecordHolding i" by (simp add: at_def)
    ultimately show ?thesis using holding quiet_trans by blast
  qed
  with assms(2) last holding reading show ?thesis by blast
qed

section \<open>Runs\<close>

text \<open>A schedule says which call moves next; a call moves when its step is enabled.\<close>

datatype 'i move = Invoke 'i | InvokeRecorder 'i | Go

fun make_move ::
    "('i \<Rightarrow> ('s, 'b) state) \<Rightarrow> ('i \<Rightarrow> 'b \<Rightarrow> 'a option) \<Rightarrow> nat \<Rightarrow> 'i move
     \<Rightarrow> ('i, 's, 'b, 'a) calls \<Rightarrow> ('i, 's, 'b, 'a) calls option" where
  "make_move serve finish c (Invoke i) s =
    (case lc_place s c of NotCalled \<Rightarrow> Some (at c (Waiting i) (made c s)) | _ \<Rightarrow> None)"
| "make_move serve finish c (InvokeRecorder i) s =
    (case lc_place s c of
       NotCalled \<Rightarrow> Some (at c (Recording i) (made c (s\<lparr>lc_via := insert c (lc_via s)\<rparr>)))
     | _ \<Rightarrow> None)"
| "make_move serve finish c Go s =
    (case lc_place s c of
       NotCalled \<Rightarrow> None
     | Recording i \<Rightarrow> if lc_rmu s = None then Some (at c (RecordHolding i) (s\<lparr>lc_rmu := Some c\<rparr>)) else None
     | RecordHolding i \<Rightarrow> Some (at c (RecordRead i (lc_recorded s)) s)
     | RecordRead i is \<Rightarrow> Some (at c (RecordDone i)
         (s\<lparr>lc_recorded := is @ [i], lc_asked := lc_asked s @ [(c, i)]\<rparr>))
     | RecordDone i \<Rightarrow> Some (at c (Waiting i) (s\<lparr>lc_rmu := None\<rparr>))
     | Waiting i \<Rightarrow> if lc_mu s = None then Some (at c (Holding i) (s\<lparr>lc_mu := Some c\<rparr>)) else None
     | Holding i \<Rightarrow> (case run_state (serve i) (lc_object s) of
         (b, x) \<Rightarrow> Some (at c (Serving i b x) s))
     | Serving i b x \<Rightarrow> Some (at c (Served i b) (s\<lparr>lc_object := x, lc_log := lc_log s @ [(c, i, b)]\<rparr>))
     | Served i b \<Rightarrow> Some (at c (Resolving i b) (s\<lparr>lc_mu := None\<rparr>))
     | Resolving i b \<Rightarrow> map_option (\<lambda>a. at c (Returned i b a) s) (finish i b)
     | Returned i b a \<Rightarrow> None)"

lemma move_sound: "make_move serve finish c m s = Some s' \<Longrightarrow> call_step serve finish c s s'"
  by (cases m) (auto split: place.splits if_splits prod.splits intro: call_step.intros)

fun schedule ::
    "('i \<Rightarrow> ('s, 'b) state) \<Rightarrow> ('i \<Rightarrow> 'b \<Rightarrow> 'a option) \<Rightarrow> (nat \<times> 'i move) list
     \<Rightarrow> ('i, 's, 'b, 'a) calls \<Rightarrow> ('i, 's, 'b, 'a) calls option" where
  "schedule serve finish [] s = Some s"
| "schedule serve finish ((c, m) # ms) s = Option.bind (make_move serve finish c m s) (schedule serve finish ms)"

lemma schedule_sound:
  "schedule serve finish ms s = Some s' \<Longrightarrow> calls_reach serve finish x s \<Longrightarrow> calls_reach serve finish x s'"
proof (induction ms arbitrary: s)
  case (Cons cm ms)
  obtain c m where cm: "cm = (c, m)" by fastforce
  with Cons.prems(1) obtain s1 where s1: "make_move serve finish c m s = Some s1" "schedule serve finish ms s1 = Some s'"
    by (auto split: bind_splits)
  have "calls_step serve finish s s1" unfolding calls_step_def using move_sound [OF s1(1)] by blast
  with Cons.prems(2) have "calls_reach serve finish x s1"
    unfolding calls_reach_def by (rule rtranclp.rtrancl_into_rtrancl)
  then show ?case by (rule Cons.IH [OF s1(2)])
qed simp

lemma schedule_reach: "schedule serve finish ms (calls0 x) = Some s \<Longrightarrow> calls_reach serve finish x s"
  by (erule schedule_sound) (simp add: calls_reach_def)

text \<open>One call after the other is one of the runs.\<close>

lemma sequential_run:
  "\<exists>s. calls_reach serve finish x s \<and> map (fst \<circ> snd) (lc_log s) = is \<and> lc_mu s = None
     \<and> (\<forall>c. length is \<le> c \<longrightarrow> lc_place s c = NotCalled)"
proof (induction "is" rule: rev_induct)
  case Nil
  show ?case by (rule exI [of _ "calls0 x"]) (simp add: calls_reach_def calls0_def)
next
  case (snoc i "is")
  then obtain s where s: "calls_reach serve finish x s" "map (fst \<circ> snd) (lc_log s) = is" "lc_mu s = None"
    "\<forall>c. length is \<le> c \<longrightarrow> lc_place s c = NotCalled" by blast
  let ?c = "length is"
  obtain b y where b: "run_state (serve i) (lc_object s) = (b, y)" by fastforce
  let ?ms = "[(?c, Invoke i), (?c, Go), (?c, Go), (?c, Go), (?c, Go)]"
  from s b obtain s' where s': "schedule serve finish ?ms s = Some s'" "lc_log s' = lc_log s @ [(?c, i, b)]"
    "lc_mu s' = None" "lc_place s' = (lc_place s)(?c := Resolving i b)" by simp
  with s schedule_sound [OF s'(1) s(1)] show ?case
    by (intro exI [of _ s']) (simp add: comp_def)
qed

section \<open>The runners\<close>

text \<open>\<^verbatim>\<open>ScriptedRunner.Output\<close>: \<^verbatim>\<open>match\<close> under the lock, \<^verbatim>\<open>resolve\<close> outside; a pending reply is parked.\<close>

definition script_serve :: "ctx \<times> invocation \<Rightarrow> (scripted, reply option) state" where
  "script_serve i = scripted_match (snd i)"

definition script_finish ::
    "(ctx \<Rightarrow> goerr option) \<Rightarrow> ctx \<times> invocation \<Rightarrow> reply option \<Rightarrow> (goerr + result) option" where
  "script_finish ended i m =
    (case m of None \<Rightarrow> Some (Inl (NotFoundError (inv_Program (snd i)) []))
     | Some r \<Rightarrow> reply_resolve (ended (fst i)) (snd i) r)"

text \<open>\<^verbatim>\<open>replay\<close>: the slot is played under the lock.\<close>

definition cassette_finish ::
    "err_fmt \<Rightarrow> bytes \<Rightarrow> invocation \<Rightarrow> entry option \<Rightarrow> (goerr + result) option" where
  "cassette_finish F path iv e = Some (entry_answer F path iv e)"

text \<open>
  \<^verbatim>\<open>recordOne\<close> for an invocation the inner runner answered by a result, which is part of the input of the call:
  the entry is appended under the lock.  An invocation that was answered by an error, or has a stdin, does not
  come to the lock.
\<close>

definition append_entry :: "invocation \<times> result \<Rightarrow> (entry list, unit) state" where
  "append_entry i = State (\<lambda>es. ((), es @ [entryOf (fst i) (snd i)]))"

definition record_finish :: "invocation \<times> result \<Rightarrow> unit \<Rightarrow> (goerr + result) option" where
  "record_finish i u = Some (Inr (snd i))"

lemma script_serve_all:
  "run_all script_serve is s = run_all scripted_match (map snd is) s"
  by (induction "is" arbitrary: s) (simp_all add: run_all.simps(2) script_serve_def split: prod.splits)

lemma append_entry_all:
  "run_all append_entry is es = (map (\<lambda>_. ()) is, es @ map (\<lambda>(iv, r). entryOf iv r) is)"
  by (induction "is" arbitrary: es) (simp_all add: run_all.simps(2) append_entry_def case_prod_beta')

lemma zip_log: "zip (map f l) (map g l) = map (\<lambda>x. (f x, g x)) l"
  by (induction l) auto

lemma log_of: "calls_reach serve finish x s \<Longrightarrow>
    run_all serve (map (fst \<circ> snd) (lc_log s)) x = (map (snd \<circ> snd) (lc_log s), lc_object s)"
  by (drule calls_inv_reach) (simp add: calls_inv_def)

section \<open>Properties\<close>

text \<open>
  Two calls of a script that fails once, the first through the recorder; the second overtakes the first
  between its record and its reply.
\<close>

definition demo_moves :: "(nat \<times> (ctx \<times> invocation) move) list" where
  "demo_moves = [(0, InvokeRecorder (0, inv0)), (0, Go), (1, Invoke (0, inv0)), (0, Go), (0, Go), (0, Go), (1, Go), (1, Go),
     (1, Go), (1, Go), (0, Go), (1, Go), (0, Go), (0, Go), (0, Go), (0, Go)]"

definition demo_log :: "(nat \<times> (ctx \<times> invocation) \<times> reply option) list" where
  "demo_log = [(1, (0, inv0), Some (reply_Fail 1 ''no'')), (0, (0, inv0), Some (reply_OK ''up''))]"

definition demo_rule :: "nat \<Rightarrow> scripted" where
  "demo_rule n = \<lparr>sr_rules = [\<lparr>ru_prefix = [], ru_predicate = None,
     ru_replies = [reply_Fail 1 ''no'', reply_OK ''up''], ru_cursor = n\<rparr>], sr_fallback = None\<rparr>"

lemma demo_match:
  "demo_script = demo_rule 0"
  "run_state (scripted_match inv0) (demo_rule 0) = (Some (reply_Fail 1 ''no''), demo_rule (Suc 0))"
  "run_state (scripted_match inv0) (demo_rule (Suc 0)) = (Some (reply_OK ''up''), demo_rule (Suc (Suc 0)))"
  by (simp_all add: demo_rule_def demo_script_def add_rule_def NewScriptedRunner_def scripted_match_def
      rule_matches_def play_def)

lemma demo_schedule:
  "\<exists>s. schedule script_serve (script_finish (\<lambda>_. None)) demo_moves (calls0 demo_script) = Some s
     \<and> lc_log s = demo_log \<and> lc_asked s = [(0, (0, inv0))] \<and> lc_recorded s = [(0, inv0)]
     \<and> lc_place s 0 = Returned (0, inv0) (Some (reply_OK ''up'')) (Inr (newResult inv0 (mk_Exited 0) ''up'' []))"
  by (simp add: demo_moves_def calls0_def script_serve_def script_finish_def demo_match reply_resolve_def demo_log_def
      reply_defs)

lemma demo_reach:
  obtains s where "calls_reach script_serve (script_finish (\<lambda>_. None)) demo_script s" "lc_log s = demo_log"
    "lc_asked s = [(0, (0, inv0))]" "lc_recorded s = [(0, inv0)]"
    "lc_place s 0 = Returned (0, inv0) (Some (reply_OK ''up'')) (Inr (newResult inv0 (mk_Exited 0) ''up'' []))"
  using demo_schedule by (elim exE conjE) (drule schedule_reach, simp)

text \<open>
  Claim C19. Concurrent calls are answered as if they had been made one after the other: what the critical
  sections gave is what a sequential run over the same inputs gives, call by call; a call that returned
  before another was made comes first; every returned call was served once, and its answer is made of
  what it was given.
\<close>

theorem concurrent_calls_linearize:
  assumes "calls_reach serve finish x s"
  shows "run_all serve (map (fst \<circ> snd) (lc_log s)) x = (map (snd \<circ> snd) (lc_log s), lc_object s)
    \<and> distinct (map fst (lc_log s)) \<and> in_time (lc_before s) (map fst (lc_log s))
    \<and> (case lc_place s c of Returned i b a \<Rightarrow> (c, i, b) \<in> set (lc_log s) \<and> finish i b = Some a | _ \<Rightarrow> True)"
proof -
  have inv: "calls_inv serve finish x s" using assms by (rule calls_inv_reach)
  have "(c, i, b) \<in> set (lc_log s) \<and> finish i b = Some a" if "lc_place s c = Returned i b a" for i b a
    using inv that unfolding calls_inv_def accounts_def by auto
  with inv show ?thesis
    unfolding calls_inv_def accounts_def time_inv_def by (auto split: place.split)
qed

theorem concurrent_calls_linearize_witness:
  "run_all script_serve [(0, inv0), (0, inv0)] demo_script
    = ([Some (reply_Fail 1 ''no''), Some (reply_OK ''up'')],
       snd (run_all script_serve [(0, inv0), (0, inv0)] demo_script))"
proof -
  obtain s where s: "calls_reach script_serve (script_finish (\<lambda>_. None)) demo_script s" "lc_log s = demo_log"
    using demo_reach by blast
  from concurrent_calls_linearize [OF s(1)] show ?thesis unfolding s(2) by (simp add: demo_log_def)
qed

text \<open>
  Claim C22. No call is held up by another one that is parked on a pending reply or has not returned for any
  other reason: from every reachable state a call that has been made gets its reply, and through the recorder
  is recorded, by steps in which no call returns.
\<close>

theorem calls_never_block:
  assumes "calls_reach serve finish x s" "lc_place s c \<noteq> NotCalled"
  shows "\<exists>s' y. calls_quiet serve s s' \<and> given (lc_place s' c) = Some y"
proof -
  have m: "mutex_inv s" using calls_inv_reach [OF assms(1)] by (simp add: calls_inv_def)
  have w: ?thesis if "calls_quiet serve s s1" "lc_place s1 c = Waiting i" for s1 i
    using quiet_served [OF quiet_mutex [OF that(1) m] that(2)] that(1) quiet_trans by blast
  show ?thesis
  proof (cases "lc_place s c")
    case (Holding i)
    with quiet_critical [OF this, of serve] show ?thesis by fastforce
  next
    case (Serving i b x)
    with quiet_publish [OF this, of serve] show ?thesis by fastforce
  qed (use assms(2) w quiet_recorded [OF m] quiet_refl in \<open>fastforce+\<close>)
qed

theorem calls_never_block_witness:
  "\<exists>s s' y. lc_place s 0 = Waiting (0, inv0)
    \<and> calls_quiet script_serve s (s' :: (ctx \<times> invocation, scripted, reply option, goerr + result) calls)
    \<and> given (lc_place s' 0) = Some y"
proof -
  let ?s = "at 0 (Waiting (0, inv0)) (made 0 (calls0 demo_script)) :: (ctx \<times> invocation, scripted, reply option, goerr + result) calls"
  have "schedule script_serve (script_finish (\<lambda>_. None)) [(0, Invoke (0, inv0))] (calls0 demo_script) = Some ?s"
    by (simp add: calls0_def)
  from calls_never_block [OF schedule_reach [OF this], of 0] show ?thesis
    by - (rule exI [of _ ?s], simp)
qed

text \<open>
  A \<^verbatim>\<open>RecordingRunner\<close> under concurrent calls loses none and invents none: its list holds the input of
  every call made through it exactly once, from before the inner runner is asked.
\<close>

theorem recorder_records_every_call:
  assumes "calls_reach serve finish x s"
  shows "lc_recorded s = map snd (lc_asked s) \<and> distinct (map fst (lc_asked s))
    \<and> ((c, i) \<in> set (lc_asked s) \<longleftrightarrow> c \<in> lc_via s \<and> entered (lc_place s c) = Some i)"
  using calls_inv_reach [OF assms] by (simp add: calls_inv_def record_inv_def)

theorem recorder_records_every_call_witness:
  "\<exists>s :: (ctx \<times> invocation, scripted, reply option, goerr + result) calls.
    lc_recorded s = [(0, inv0)] \<and> lc_log s = demo_log \<and> 0 \<in> lc_via s"
proof -
  obtain s where s: "calls_reach script_serve (script_finish (\<lambda>_. None)) demo_script s" "lc_log s = demo_log"
    "lc_asked s = [(0, (0, inv0))]" "lc_recorded s = [(0, inv0)]" using demo_reach by blast
  from recorder_records_every_call [OF s(1), of 0 "(0, inv0)"] s(3) have "0 \<in> lc_via s" by simp
  with s(2,4) show ?thesis by blast
qed

text \<open>
  Claim C21. A script is played in order under concurrent calls: the calls that match a rule are given its
  replies one after the other, in the order of their critical sections, none skipped and none given twice
  before the last, which repeats.
\<close>

theorem concurrent_script_in_order:
  assumes "calls_reach script_serve (script_finish ended) s0 s" "list_all (\<lambda>ru. ru_cursor ru = 0) (sr_rules s0)"
  shows "map (snd \<circ> snd) (filter (\<lambda>(c, (x, iv), m). first_rule (sr_rules s0) iv = Some k) (lc_log s))
    = map (\<lambda>n. Some (ru_replies (sr_rules s0 ! k) ! min n (length (ru_replies (sr_rules s0 ! k)) - 1)))
        [0..<length (filter (\<lambda>(c, (x, iv), m). first_rule (sr_rules s0) iv = Some k) (lc_log s))]"
proof -
  have "fst (run_all scripted_match (map (snd \<circ> fst \<circ> snd) (lc_log s)) s0) = map (snd \<circ> snd) (lc_log s)"
    using log_of [OF assms(1)] by (simp add: script_serve_all comp_assoc)
  moreover have "cursors (sr_rules s0) k = 0"
    using assms(2) by (auto simp: cursors_def list_all_length)
  ultimately show ?thesis
    using scripted.served_key [of s0 s0 k "map (snd \<circ> fst \<circ> snd) (lc_log s)"]
    by (simp add: zip_log filter_map comp_def case_prod_beta')
qed

theorem concurrent_script_in_order_witness:
  "map (snd \<circ> snd) demo_log = [Some (reply_Fail 1 ''no''), Some (reply_OK ''up'')]"
proof -
  obtain s where s: "calls_reach script_serve (script_finish (\<lambda>_. None)) demo_script s" "lc_log s = demo_log"
    using demo_reach by blast
  have c: "list_all (\<lambda>ru. ru_cursor ru = 0) (sr_rules demo_script)"
    "sr_rules demo_script = [\<lparr>ru_prefix = [], ru_predicate = None,
       ru_replies = [reply_Fail 1 ''no'', reply_OK ''up''], ru_cursor = 0\<rparr>]"
    by (simp_all add: demo_script_def add_rule_def NewScriptedRunner_def)
  from concurrent_script_in_order [OF s(1) c(1), of 0] show ?thesis
    unfolding s(2) c(2) by (simp add: demo_log_def rule_matches_def numeral_2_eq_2 upt_rec)
qed

text \<open>
  Claim C20. What concurrent callers recorded, concurrent callers replay: the file saved after a concurrent
  recording loads, and in every concurrent replay of it the requests of one key are given the entries recorded
  under that key one after the other, in the order of the recording, the last repeating.
\<close>

theorem concurrent_recording_replays:
  assumes "calls_reach append_entry record_finish [] s" "rr_mode r = ModeRecord" "rr_rec r = lc_object s"
    and "list_all (\<lambda>(c, (iv, res), u). recordable (r_outcome res)) (lc_log s)" "n \<le> maxCassetteBytes"
    and "es = map (\<lambda>(c, (iv, res), u). coerce_entry (entryOf iv res))
        (filter (\<lambda>(c, (iv, res), u). inv_key iv = k) (lc_log s))" "es \<noteq> []"
  shows "\<exists>sl. Replay F jerr path \<lparr>fv_stat = Some n, fv_read = Inr (n, Save r)\<rparr> = Inr sl
    \<and> (\<forall>t. calls_reach serve_entry (cassette_finish F path) sl t \<longrightarrow>
        map (snd \<circ> snd) (filter (\<lambda>(c, iv, e). inv_key iv = k) (lc_log t))
        = map (\<lambda>j. Some (es ! min j (length es - 1))) [0..<length (filter (\<lambda>(c, iv, e). inv_key iv = k) (lc_log t))])"
proof -
  let ?prs = "map (fst \<circ> snd) (lc_log s)"
  have "rr_rec r = map (\<lambda>(iv, r). entryOf iv r) ?prs"
    using log_of [OF assms(1)] assms(3) by (simp add: append_entry_all)
  moreover have "recordable (r_outcome res)" if "(iv, res) \<in> set ?prs" for iv res
    using that assms(4) by (auto simp: list_all_iff)
  ultimately obtain sl where load: "Replay F jerr path \<lparr>fv_stat = Some n, fv_read = Inr (n, Save r)\<rparr> = Inr sl"
    and sl: "sl = extend_slots (map (\<lambda>(iv, r). coerce_entry (entryOf iv r)) ?prs) (\<lambda>_. None)"
    using saved_loads [OF assms(2) _ _ assms(5), of ?prs F jerr path] by simp
  have "filter (\<lambda>e. entry_key e = k) (map (\<lambda>(iv, r). coerce_entry (entryOf iv r)) ?prs) = es"
    unfolding assms(6) by (simp add: filter_map comp_def case_prod_beta')
  with assms(7) have k: "sl k = Some \<lparr>sl_entries = es, sl_next = 0\<rparr>"
    unfolding sl by (simp add: extend_slots_def)
  then have key: "slot_key sl iv = Some k \<longleftrightarrow> inv_key iv = k" for iv by (auto simp: slot_key_def)
  have "map (snd \<circ> snd) (filter (\<lambda>(c, iv, e). inv_key iv = k) (lc_log t))
      = map (\<lambda>j. Some (es ! min j (length es - 1))) [0..<length (filter (\<lambda>(c, iv, e). inv_key iv = k) (lc_log t))]"
    if "calls_reach serve_entry (cassette_finish F path) sl t" for t
  proof -
    have "fst (run_all serve_entry (map (fst \<circ> snd) (lc_log t)) sl) = map (snd \<circ> snd) (lc_log t)"
      using log_of [OF that] by simp
    moreover have "same_slots sl sl" by (simp add: same_slots_def)
    ultimately show ?thesis
      using cassette_player.served_key [of sl sl k "map (fst \<circ> snd) (lc_log t)"] k key
      by (simp add: zip_log filter_map comp_def case_prod_beta' slot_entries_def slot_cursor_def)
  qed
  with load show ?thesis by blast
qed

text \<open>Two recorded runs of one command, then two requests for it.\<close>

definition demo_results :: "(invocation \<times> result) list" where
  "demo_results = [(inv0, newResult inv0 (exited 1) [] ''no''), (inv0, newResult inv0 (exited 0) ''up'' [])]"

theorem concurrent_recording_replays_witness:
  "\<forall>F path. \<exists>s t sl. calls_reach append_entry record_finish [] s \<and> map (fst \<circ> snd) (lc_log s) = demo_results
    \<and> Replay F (Plain []) path \<lparr>fv_stat = Some 400,
        fv_read = Inr (400, Save ((Record ''f'' ())\<lparr>rr_rec := lc_object s\<rparr>))\<rparr> = Inr sl
    \<and> calls_reach serve_entry (cassette_finish F path) sl t \<and> map (fst \<circ> snd) (lc_log t) = [inv0, inv0]
    \<and> map (snd \<circ> snd) (lc_log t) = map (\<lambda>(iv, r). Some (coerce_entry (entryOf iv r))) demo_results"
proof (intro allI)
  fix F path
  obtain s where s: "calls_reach append_entry record_finish [] s" "map (fst \<circ> snd) (lc_log s) = demo_results"
    using sequential_run [of append_entry record_finish "[]" demo_results]
    by (elim exE conjE) (rule that)
  let ?r = "(Record ''f'' ())\<lparr>rr_rec := lc_object s\<rparr>"
  have r: "rr_mode ?r = ModeRecord" "rr_rec ?r = lc_object s" by (simp_all add: Record_def)
  let ?es = "map (\<lambda>(c, (iv, res), u). coerce_entry (entryOf iv res))
      (filter (\<lambda>(c, (iv, res), u). inv_key iv = inv_key inv0) (lc_log s))"
  have ok: "recordable (r_outcome res)" if "(iv, res) \<in> set demo_results" for iv res
    using that by (auto simp: demo_results_def newResult_def recordable_def int_range_def outcome_Code_def exited_def)
  have rec: "list_all (\<lambda>(c, (iv, res), u). recordable (r_outcome res)) (lc_log s)"
    using ok unfolding s(2) [symmetric] by (force simp: list_all_iff)
  have k: "\<forall>y\<in>set (lc_log s). case y of (c, (iv, res), u) \<Rightarrow> inv_key iv = inv_key inv0"
  proof -
    have "fst ` set (map (fst \<circ> snd) (lc_log s)) \<subseteq> {inv0}" unfolding s(2) by (auto simp: demo_results_def)
    then show ?thesis by force
  qed
  have es: "?es = map (\<lambda>(iv, r). coerce_entry (entryOf iv r)) demo_results"
    unfolding s(2) [symmetric] using k by (simp add: comp_def case_prod_beta')
  have small: "400 \<le> maxCassetteBytes" by (simp add: maxCassetteBytes_def)
  have some: "?es \<noteq> []" unfolding es by (simp add: demo_results_def)
  from concurrent_recording_replays [OF s(1) r rec small refl some, of F "Plain []" path]
  obtain sl where sl: "Replay F (Plain []) path \<lparr>fv_stat = Some 400, fv_read = Inr (400, Save ?r)\<rparr> = Inr sl"
    and played: "\<And>t. calls_reach serve_entry (cassette_finish F path) sl t \<Longrightarrow>
      map (snd \<circ> snd) (filter (\<lambda>(c, iv, e). inv_key iv = inv_key inv0) (lc_log t))
      = map (\<lambda>j. Some (?es ! min j (length ?es - 1)))
          [0..<length (filter (\<lambda>(c, iv, e). inv_key iv = inv_key inv0) (lc_log t))]" by blast
  obtain t where t: "calls_reach serve_entry (cassette_finish F path) sl t" "map (fst \<circ> snd) (lc_log t) = [inv0, inv0]"
    using sequential_run [of serve_entry "cassette_finish F path" sl "[inv0, inv0]"]
    by (elim exE conjE) (rule that)
  have ft: "filter (\<lambda>(c, iv, e). inv_key iv = inv_key inv0) (lc_log t) = lc_log t"
  proof (rule filter_True)
    have "set (map (fst \<circ> snd) (lc_log t)) \<subseteq> {inv0}" unfolding t(2) by simp
    then show "\<forall>y\<in>set (lc_log t). case y of (c, iv, e) \<Rightarrow> inv_key iv = inv_key inv0" by force
  qed
  have l: "length (lc_log t) = 2" using t(2) by (metis length_map length_Cons list.size(3) numeral_2_eq_2)
  have "map (snd \<circ> snd) (lc_log t) = map (\<lambda>(iv, r). Some (coerce_entry (entryOf iv r))) demo_results"
    using played [OF t(1)] unfolding es ft l by (simp add: demo_results_def upt_rec)
  with s t show "\<exists>s t sl. calls_reach append_entry record_finish [] s \<and> map (fst \<circ> snd) (lc_log s) = demo_results
    \<and> Replay F (Plain []) path \<lparr>fv_stat = Some 400,
        fv_read = Inr (400, Save ((Record ''f'' ())\<lparr>rr_rec := lc_object s\<rparr>))\<rparr> = Inr sl
    \<and> calls_reach serve_entry (cassette_finish F path) sl t \<and> map (fst \<circ> snd) (lc_log t) = [inv0, inv0]
    \<and> map (snd \<circ> snd) (lc_log t) = map (\<lambda>(iv, r). Some (coerce_entry (entryOf iv r))) demo_results"
    using sl by (intro exI conjI)
qed

end
