(* ===== verification/Spec2Isabelle.thy ===== *)
theory Spec2Isabelle
  imports Pipeline Supervisor LineChannel GroupConcurrency Lifecycle ChainedRuns SharedValues JobHandles Stats Batch
    LockedCalls
begin

text \<open>
  Processkit runs child processes so that none of them outlives its run: every child is put into an
  operating-system container (a process group, a cgroup or a Job Object) that is killed as a whole.  This
  development models the Go code of the library and proves what makes it correct; this file imports
  all of it.

  \<^bold>\<open>The program and how its parts work together.\<close>  A \<^verbatim>\<open>Cmd\<close> (\<^verbatim>\<open>command.go\<close>) is an immutable
  description; its verbs hand an \<^verbatim>\<open>Invocation\<close> to a \<^verbatim>\<open>ProcessRunner\<close> and interpret the \<^verbatim>\<open>Result\<close>.  The
  real runner (\<^verbatim>\<open>runner.go\<close>) opens a job, configures and starts the child, assigns it to the job, waits,
  kills the job and closes it.  A \<^verbatim>\<open>Pipeline\<close> starts several children in one job; a \<^verbatim>\<open>Supervisor\<close> runs
  one command again and again; a \<^verbatim>\<open>Group\<close> is a job shared by many started children, each with a handle
  (\<^verbatim>\<open>running.go\<close>), a reaper goroutine and drains that split its output into lines (\<^verbatim>\<open>stream.go\<close>);
  \<^verbatim>\<open>OutputAll\<close> (\<^verbatim>\<open>batch.go\<close>) runs many commands behind a semaphore.  The job itself is the interface \<^verbatim>\<open>Job\<close>
  of \<^verbatim>\<open>internal/sys\<close> with one backend per kind of container.  \<^verbatim>\<open>processkittest\<close> offers other runners for
  tests: canned replies, scripts, a recorder, cassettes.

  \<^bold>\<open>Ground theories.\<close>  \<open>Prelude\<close>: byte strings, contexts, the proof collections.  \<open>GoText\<close> and \<open>GoFloat\<close>:
  what the code uses of Go's strings, strconv and unicode packages and of binary64 arithmetic.  \<open>Machine\<close>:
  the record \<open>platform\<close> of everything the code asks of its surroundings, each a function from the outside
  world to an answer and a next world, so that every failure, duration and moment of cancellation is a choice
  of the platform; the machine state adds the calls made and the events logged; \<open>wp\<close> is the weakest
  precondition used to prove orchestration code.  \<open>SysMachine\<close> is the same for the system calls of a backend.

  \<^bold>\<open>Values.\<close>  \<open>Outcome\<close> (\<^verbatim>\<open>result.go\<close>, \<^verbatim>\<open>outcome_*.go\<close>, \<^verbatim>\<open>mechanism.go\<close>): outcomes as built by the
  constructors, results and what the verbs make of them.  \<open>Errors\<close> (\<^verbatim>\<open>errors.go\<close>, \<^verbatim>\<open>classify*.go\<close>): the error
  values, matching through wrapped errors, the transient errnos.  \<open>Render\<close>: the texts of errors, bounded and
  sanitised.  \<open>Log\<close> (\<^verbatim>\<open>log.go\<close>): the events and their attributes.  The lemmas say which texts are safe on a
  terminal, when the child's output holds no C1 control, which the code passes through, and that the events of
  a run are those of a fixed catalogue, so that they disclose neither arguments, environment nor output.

  \<^bold>\<open>Runs.\<close>  \<open>Runner\<close> (\<^verbatim>\<open>runner.go\<close>): \<open>JobRunner_Output\<close>; the trace of every run is one of a few
  shapes (\<open>contained_trace\<close>, \<open>output_trace\<close>), in all of which a child that was started is killed, waited for
  and its job closed, whatever fails and whenever the context ends; the precedence of wait error, deadline and
  cancellation.  The locale \<open>process_runner\<close> is the interface \<^verbatim>\<open>ProcessRunner\<close>, extended by \<open>traced_runner\<close>;
  it is interpreted by the real runner, by the recorder, the scripted runner and the recording runner.
  \<open>Command\<close> (\<^verbatim>\<open>command.go\<close>, \<^verbatim>\<open>client.go\<close>): builders, verbs, retry with its bound.  \<open>Pipeline\<close>
  (\<^verbatim>\<open>pipeline.go\<close>): the fold of the stage outcomes, the start of the chain with its fail path, and a chain
  that never leaves a stage behind.  \<open>Supervisor\<close> (\<^verbatim>\<open>supervisor.go\<close>): policies, backoff and jitter on
  binary64, storm pauses, the loop and its report.  \<open>Batch\<close>: the step relation of \<^verbatim>\<open>OutputAll\<close>, its bound
  and that it always returns.

  \<^bold>\<open>Values that share memory.\<close>  \<open>Slices\<close> is a heap of Go arrays with nil and window slices, \<^verbatim>\<open>append\<close>
  writing into spare capacity.  \<open>CommandSharing\<close> is the builder over that heap: \<^verbatim>\<open>clone\<close> copies each slice, so
  no command changes after it was built whatever is derived from it and whatever callers and runners write
  through the slices they hold, and the builders over the heap refine the pure builders of \<open>Command\<close>.
  \<open>SharedValues\<close> does the same for results, whose getters hand out copies, and for pipelines.

  \<^bold>\<open>Groups and handles.\<close>  \<open>Group\<close> (\<^verbatim>\<open>group.go\<close>, \<^verbatim>\<open>running.go\<close>, \<^verbatim>\<open>signal*.go\<close>): creation under caps, start,
  adoption, signals, shutdown, close, the reaper, \<^verbatim>\<open>Wait\<close>, \<^verbatim>\<open>WaitAny\<close> and \<^verbatim>\<open>WaitAll\<close>, one operation at a
  time.  \<open>GroupConcurrency\<close>: the race between starts, adoptions and closes under \<^verbatim>\<open>g.mu\<close>, on process groups,
  with processes that fork and exit in between; no member survives a close, only what left its group or
  descends from a process that was rejected or adopted on its own; and the sequential Start and Close refine
  its steps, call by call.  \<open>Lifecycle\<close>: the life of one handle, from its registration over its drains to \<^verbatim>\<open>close(p.done)\<close>; every
  waiter gets the one verdict of the reaper, and the window in which a handle is visible without its line
  channel.  \<open>Stream\<close> (\<^verbatim>\<open>stream.go\<close>): start options, pipes, the splitting of an output into bounded lines, what
  each text is made of, its equality with a character scan of the whole text (for outputs that do not end in a
  carriage return without its newline, which the code drops), tees and decoders.  \<open>LineChannel\<close>: the merged channel with its
  overflow policy; every line is accounted for, and teardown releases a blocked drain.  \<open>Probe\<close> (\<^verbatim>\<open>probe.go\<close>) and
  \<open>Stats\<close> (\<^verbatim>\<open>stats.go\<close>): readiness probes and resource statistics.

  \<^bold>\<open>Containment.\<close>  \<open>JobUnix\<close> (\<^verbatim>\<open>job_unix.go\<close>, \<^verbatim>\<open>job_bsd.go\<close>, \<^verbatim>\<open>job_linux.go\<close>) and \<open>JobWindows\<close>
  (\<^verbatim>\<open>job_windows.go\<close>): every operation of the backends over parameters for the system calls.  \<open>SysArith\<close> and \<open>Proc\<close>: the
  saturating arithmetic on words and the parsing of \<^verbatim>\<open>/proc\<close> and cgroup files.  \<open>JobHandles\<close>: which thread
  uses the handle of a Job Object while another closes it.  \<open>Containment\<close>: the
  interface \<^verbatim>\<open>Job\<close> as a record of operations; its promises are the locale \<open>contained_job\<close>, interpreted by the
  process group, by what Linux creates and by the Job Object.  \<open>ContainedRuns\<close> puts the runner and the group
  on top of a backend (\<open>host\<close>, \<open>host_group\<close>), so that the properties of the whole program speak of the
  system calls: the kill reaches the child of a run and every member of a group.  On a cgroup this means that
  the directory opened under the handle the child is cloned into is the one that is killed, by \<^verbatim>\<open>cgroup.kill\<close> or
  by rounds of SIGKILL to every pid \<^verbatim>\<open>cgroup.procs\<close> lists; no call may close the handle in between.  \<open>ChainedRuns\<close> does the same
  for many processes: every stage of a pipeline, and every incarnation of a supervisor, is hit.

  \<^bold>\<open>Test doubles.\<close>  \<open>Doubles\<close> (\<^verbatim>\<open>processkittest/doubles.go\<close>) and \<open>Cassette\<close>
  (\<^verbatim>\<open>processkittest/cassette.go\<close>): scripts, recorders, the redaction and writing of a cassette, its replay.  The
  locale \<open>sequenced\<close> is what a script and a cassette share, replies played in order with the last repeated; both
  interpret it.  \<open>LockedCalls\<close> puts concurrent callers on them: a call of a double takes a mutex, does its lookup
  or its append, and makes its answer outside; calls are linearized, none is held up by a parked one, and what was
  recorded concurrently is replayed concurrently in the recorded order.

  \<^bold>\<open>Bounds and fuel.\<close>  Strings are byte lists, durations and Go's \<^verbatim>\<open>int\<close> are unbounded \<open>int\<close> except where the code
  multiplies, adds or converts near the limits (\<open>SysArith\<close>, \<open>Proc\<close>, \<open>GoFloat\<close>): there they are words or
  clamped explicitly.  \<open>supervise_loop\<close> takes a number of incarnations: \<open>maxRestarts + 1\<close> are enough
  (\<open>supervision_terminates\<close>), and a supervisor without a maximum may run for ever by intention.  \<open>poll_loop\<close> takes
  a number of rounds: the time allowed divided by the polling interval, plus two, is enough on a clock that
  runs, and the time it takes exceeds its deadline by one round at most (\<open>poll_returns_in_time\<close>).  The kill sweep of a cgroup (50 rounds) and the search for a directory name (32
  tries) are bounded by the code itself.  \<open>await_line\<close> may wait for ever and is a partial function.

  \<^bold>\<open>Parameters.\<close>  The operating system, contexts and timers (\<open>platform\<close>, \<open>gplatform\<close>, the records of system
  calls), \<^verbatim>\<open>math.Pow\<close>, \<^verbatim>\<open>math/rand\<close>, \<^verbatim>\<open>strconv.Quote\<close> and the error texts of the system, the caller's
  functions (callbacks, decoders, writers, probes).  What is assumed of one stands in the theorem that needs it.

  \<^bold>\<open>Not modelled.\<close>  The package documentation (\<^verbatim>\<open>doc.go\<close>).  The syntax of JSON: a cassette file is a JSON
  value, written and read as a whole.  The timer behind \<^verbatim>\<open>clock.go\<close> and the copy of the struct
  \<^verbatim>\<open>Supervisor\<close>, whose fields are values (a record update here).  Getters that read one field of a record.  Goroutine scheduling outside the step
  relations of \<open>GroupConcurrency\<close>, \<open>Lifecycle\<close>, \<open>LineChannel\<close>, \<open>JobHandles\<close>, \<open>LockedCalls\<close> and \<open>Batch\<close>;
  elsewhere the operations run one after the other.  In \<open>GroupConcurrency\<close> a close kills one target after the other, each in one step, every signal is delivered,
  and the pid of a process adopted on its own is not reused.  What the kernel does with a signal or with
  \<^verbatim>\<open>cgroup.kill\<close> is beyond the system calls the other theories speak of.
\<close>

end
